(* ===== verification/Chrono_Prelude.thy ===== *)
theory Chrono_Prelude
  imports Main "HOL-Library.Word" "HOL-Library.Monad_Syntax"
begin

text \<open>
  Shared vocabulary of the ChronoCap development: the machine integer types, byte buffers with
  checked loads and stores (an access outside the buffer is undefined behaviour in C++ and is the
  value \<^const>\<open>None\<close> here), the C string functions, wrap-around \<open>size_t\<close> arithmetic, and the list
  lemmas on writing into and reading out of a buffer at an offset. Two ideas carry the codec
  proofs: \<open>patch b p xs\<close> is the buffer \<open>b\<close> after \<open>xs\<close> was stored at offset \<open>p\<close>, and
  \<open>located b p xs\<close> says that \<open>xs\<close> is what lies at offset \<open>p\<close> of \<open>b\<close>.
\<close>

unbundle bit_operations_syntax

type_synonym u8 = "8 word"
type_synonym u16 = "16 word"
type_synonym u32 = "32 word"
type_synonym u64 = "64 word"
type_synonym bytes = "u8 list"

text \<open>One record as the format sees it: topic id, stamp, sequence number, payload.\<close>

type_synonym entry = "u16 \<times> u64 \<times> u64 \<times> bytes"

named_theorems wire_sizes \<open>values of the wire size constants\<close>
named_theorems codec_simps \<open>closed forms of the store and load operations\<close>
named_theorems located_intros \<open>how a located byte string gives a decoded value\<close>

section \<open>Byte buffers\<close>

definition get_byte :: "bytes \<Rightarrow> nat \<Rightarrow> u8 option" where
  "get_byte b i = (if i < length b then Some (b ! i) else None)"

definition put_byte :: "bytes \<Rightarrow> nat \<Rightarrow> u8 \<Rightarrow> bytes option" where
  "put_byte b i v = (if i < length b then Some (b[i := v]) else None)"

text \<open>\<open>memcpy\<close> out of a buffer (the source side) and into one (the destination side).\<close>

definition mem_read :: "bytes \<Rightarrow> nat \<Rightarrow> nat \<Rightarrow> bytes option" where
  "mem_read b p n = (if p + n \<le> length b then Some (take n (drop p b)) else None)"

definition patch :: "bytes \<Rightarrow> nat \<Rightarrow> bytes \<Rightarrow> bytes" where
  "patch b p xs = take p b @ xs @ drop (p + length xs) b"

definition mem_write :: "bytes \<Rightarrow> nat \<Rightarrow> bytes \<Rightarrow> bytes option" where
  "mem_write b p xs = (if p + length xs \<le> length b then Some (patch b p xs) else None)"

definition located :: "bytes \<Rightarrow> nat \<Rightarrow> bytes \<Rightarrow> bool" where
  "located b p xs \<longleftrightarrow> p + length xs \<le> length b \<and> take (length xs) (drop p b) = xs"

text \<open>\<open>strlen\<close> and \<open>std::string(const char*)\<close> on a fixed array: without a terminator inside the
  array they run past its end.\<close>

definition c_strlen :: "bytes \<Rightarrow> nat option" where
  "c_strlen s = (if 0 \<in> set s then Some (length (takeWhile (\<lambda>c. c \<noteq> 0) s)) else None)"

definition c_string :: "bytes \<Rightarrow> bytes option" where
  "c_string s = (if 0 \<in> set s then Some (takeWhile (\<lambda>c. c \<noteq> 0) s) else None)"

text \<open>The bytes of a string literal.\<close>

definition lit :: "string \<Rightarrow> bytes" where
  "lit s = map (\<lambda>c. word_of_nat (of_char c)) s"

lemma lit_eq_iff [simp]: "lit s = lit t \<longleftrightarrow> s = t"
proof -
  have "unat (word_of_nat (of_char c) :: u8) = of_char c" for c
    by (simp add: unsigned_of_nat take_bit_eq_mod)
  then have "inj (\<lambda>c :: char. word_of_nat (of_char c) :: u8)"
    by (intro injI) (metis of_char_eq_iff)
  then show ?thesis by (simp add: lit_def inj_map_eq_map)
qed

lemma lit_Nil_iff [simp]: "lit s = [] \<longleftrightarrow> s = []" "[] = lit s \<longleftrightarrow> s = []"
  by (auto simp: lit_def)

section \<open>\<open>size_t\<close> arithmetic\<close>

definition sz_add :: "nat \<Rightarrow> nat \<Rightarrow> nat" where
  "sz_add a b = (a + b) mod 2 ^ 64"

lemma sz_add_exact: "a + b < 2 ^ 64 \<Longrightarrow> sz_add a b = a + b"
  by (simp add: sz_add_def)

section \<open>Stores: composing patches\<close>

lemma length_patch [simp]: "p + length xs \<le> length b \<Longrightarrow> length (patch b p xs) = length b"
  by (simp add: patch_def)

lemma put_byte_patch: "i < length b \<Longrightarrow> put_byte b i v = Some (patch b i [v])"
  by (simp add: put_byte_def patch_def upd_conv_take_nth_drop)

lemma mem_write_patch: "p + length xs \<le> length b \<Longrightarrow> mem_write b p xs = Some (patch b p xs)"
  by (simp add: mem_write_def)

lemma patch_append:
  assumes "q = p + length xs" and "q + length ys \<le> length b"
  shows "patch (patch b p xs) q ys = patch b p (xs @ ys)"
  using assms by (simp add: patch_def ac_simps)

lemma patch_overwrite:
  assumes "q = p + length xs" and "length zs \<le> length ys" and "q + length ys \<le> length b"
  shows "patch (patch b p (xs @ ys)) q zs = patch b p (xs @ zs @ drop (length zs) ys)"
  using assms by (simp add: patch_def ac_simps)

lemma patch_whole: "length xs = length b \<Longrightarrow> patch b 0 xs = xs"
  by (simp add: patch_def)

section \<open>Loads: located byte strings\<close>

lemma located_append: "located b p (xs @ ys) \<longleftrightarrow> located b p xs \<and> located b (p + length xs) ys"
proof
  assume h: "located b p (xs @ ys)"
  then have len: "p + (length xs + length ys) \<le> length b"
    and eq: "take (length xs + length ys) (drop p b) = xs @ ys"
    by (simp_all add: located_def)
  have "xs = take (length xs) (take (length xs + length ys) (drop p b))"
    by (simp only: eq) simp
  moreover have "ys = drop (length xs) (take (length xs + length ys) (drop p b))"
    by (simp only: eq) simp
  ultimately show "located b p xs \<and> located b (p + length xs) ys"
    using len by (simp add: located_def drop_take add.commute)
next
  assume "located b p xs \<and> located b (p + length xs) ys"
  then show "located b p (xs @ ys)"
    by (simp add: located_def take_add add.commute)
qed

lemma located_drop: "p \<le> length b \<Longrightarrow> located (drop p b) q xs \<longleftrightarrow> located b (p + q) xs"
  by (auto simp: located_def add.commute)

lemma located_mid: "p = length pre \<Longrightarrow> located (pre @ xs @ post) p xs"
  by (simp add: located_def)

lemma located_nth:
  assumes "located b p xs" and "i < length xs"
  shows "get_byte b (p + i) = Some (xs ! i)"
proof -
  from assms(1) have eq: "take (length xs) (drop p b) = xs" and len: "p + length xs \<le> length b"
    by (simp_all add: located_def)
  have "take (length xs) (drop p b) ! i = b ! (p + i)"
    using assms(2) len by simp
  with eq len assms(2) show ?thesis
    by (simp add: get_byte_def)
qed

lemma located_mem_read: "located b p xs \<Longrightarrow> mem_read b p (length xs) = Some xs"
  by (simp add: located_def mem_read_def)

lemma located_patch: "p + length xs \<le> length b \<Longrightarrow> located (patch b p xs) p xs"
  by (simp add: patch_def located_def)

lemma mem_read_Some: "mem_read b p n = Some xs \<Longrightarrow> length xs = n \<and> located b p xs"
  by (auto simp: mem_read_def located_def split: if_splits)

lemma mem_read_eq: "p + n \<le> length b \<Longrightarrow> mem_read b p n = Some (take n (drop p b))"
  by (simp add: mem_read_def)

section \<open>C strings\<close>

lemma takeWhile_no_nul:
  assumes "0 \<notin> set (s :: bytes)"
  shows "takeWhile (\<lambda>c. c \<noteq> 0) (s @ 0 # r) = s"
proof -
  from assms have "\<And>x. x \<in> set s \<Longrightarrow> x \<noteq> 0" by auto
  then show ?thesis by (simp add: takeWhile_append2)
qed

lemma c_string_pad:
  assumes "0 \<notin> set s"
  shows "c_string (s @ 0 # r) = Some s"
  using assms by (simp add: c_string_def takeWhile_no_nul)

lemma c_strlen_pad:
  assumes "0 \<notin> set s"
  shows "c_strlen (s @ 0 # r) = Some (length s)"
  using assms by (simp add: c_strlen_def takeWhile_no_nul)

lemma c_string_no_nul: "c_string s = Some t \<Longrightarrow> 0 \<notin> set t \<and> length t < length s"
proof -
  assume "c_string s = Some t"
  then have s: "0 \<in> set s" and t: "t = takeWhile (\<lambda>c. c \<noteq> 0) s"
    by (auto simp: c_string_def split: if_splits)
  from s have "takeWhile (\<lambda>c. c \<noteq> 0) s \<noteq> s"
    by (metis (mono_tags) takeWhile_eq_all_conv)
  with t have "length t < length s"
    by (metis length_takeWhile_le le_neq_implies_less takeWhile_eq_take take_all_iff order_refl)
  moreover from t have "0 \<notin> set t"
    by (auto dest: set_takeWhileD)
  ultimately show ?thesis by simp
qed

end
