(* ===== verification/Session_Files.thy ===== *)
theory Session_Files
  imports Chrono_Prelude "HOL-Library.Signed_Division"
begin

text \<open>
  The file names the recorder makes up (\<open>src/i2wRecorder.cpp\<close>): the base name of the recording
  (\<open>MakeSessionBaseName\<close>) and the log file (\<open>configerLogger\<close>). Shown: the session name is never cut, and two
  sessions share their names exactly when the local clock shows the same second at both, which happens
  for different seconds when the clock is set back. The conversion to local time depends on the system's
  time zone data and is the parameter \<open>localtime\<close>; it is taken to succeed. Outside the sources are also the directory creation, a parameter that says for which paths it
  succeeds, and the logging singleton, which only gets the path.
\<close>

section \<open>The session name\<close>

record Tm =
  tm_year :: int
  tm_mon :: int
  tm_mday :: int
  tm_hour :: int
  tm_min :: int
  tm_sec :: int
  tm_isdst :: int

fun dec_digits :: "nat \<Rightarrow> bytes" where
  "dec_digits n = (if n < 10 then [word_of_nat (48 + n)] else dec_digits (n div 10) @ [word_of_nat (48 + n mod 10)])"

declare dec_digits.simps [simp del]

text \<open>The conversion \<open>%0wd\<close> of \<open>printf\<close>.\<close>

definition fmt_0d :: "nat \<Rightarrow> int \<Rightarrow> bytes" where
  "fmt_0d w i =
     (let ds = dec_digits (nat \<bar>i\<bar>)
      in if i < 0 then 45 # replicate (w - 1 - length ds) 48 @ ds else replicate (w - length ds) 48 @ ds)"

text \<open>\<open>localtime\<close> is \<open>localtime_r\<close> and \<open>std::localtime\<close>, from seconds since the epoch; \<open>t\<close> is what \<open>std::time\<close> reads.\<close>

definition MakeSessionBaseName :: "(int \<Rightarrow> Tm) \<Rightarrow> int \<Rightarrow> bytes" where
  "MakeSessionBaseName localtime t = (let tm_buf = localtime t in take 63 (lit ''recording_'' @ fmt_0d 4 (tm_year tm_buf + 1900)
     @ fmt_0d 2 (tm_mon tm_buf + 1) @ fmt_0d 2 (tm_mday tm_buf) @ lit ''_'' @ fmt_0d 2 (tm_hour tm_buf)
     @ fmt_0d 2 (tm_min tm_buf) @ fmt_0d 2 (tm_sec tm_buf)))"

section \<open>The log file\<close>

text \<open>The conversions of \<open>std::put_time\<close> in the classic locale that the function uses.\<close>

definition fmt_Y :: "int \<Rightarrow> bytes" where
  "fmt_Y year = fmt_0d 0 year"

definition fmt_b :: "int \<Rightarrow> bytes" where
  "fmt_b mon = (if 0 \<le> mon \<and> mon < 12
     then map lit [''Jan'', ''Feb'', ''Mar'', ''Apr'', ''May'', ''Jun'', ''Jul'', ''Aug'', ''Sep'', ''Oct'', ''Nov'', ''Dec''] ! nat mon
     else lit ''?'')"

datatype log_setup =
    NullHome  \<comment> \<open>\<open>std::string\<close> built from the null pointer of \<open>getenv\<close>: undefined\<close>
  | DirectoryError  \<comment> \<open>\<open>create_directories\<close> throws\<close>
  | LogFile bytes  \<comment> \<open>the file opened and passed to the logger\<close>

text \<open>\<open>system_clock\<close> counts nanoseconds; \<open>to_time_t\<close> cuts towards zero.\<close>

definition to_time_t :: "int \<Rightarrow> int" where
  "to_time_t now = now sdiv 1000000000"

definition configerLogger :: "bytes option \<Rightarrow> (int \<Rightarrow> Tm) \<Rightarrow> int \<Rightarrow> (bytes \<Rightarrow> bool) \<Rightarrow> log_setup" where
  "configerLogger home localtime now create_directories =
     (let time = to_time_t now;
          localTime = localtime time;
          value = fmt_Y (tm_year localTime + 1900) @ fmt_0d 2 (tm_mon localTime + 1) @ fmt_0d 2 (tm_mday localTime)
            @ lit ''_'' @ fmt_0d 2 (tm_hour localTime) @ fmt_0d 2 (tm_min localTime) @ fmt_0d 2 (tm_sec localTime);
          date = fmt_0d 2 (tm_mday localTime) @ lit ''_'' @ fmt_b (tm_mon localTime) @ lit ''_''
            @ fmt_Y (tm_year localTime + 1900)
      in case home of
           None \<Rightarrow> NullHome
         | Some home \<Rightarrow>
             let logDir = home @ lit ''/logs/chronoCapRecorder/'' @ date
             in if \<not> create_directories logDir then DirectoryError
                else LogFile (logDir @ lit ''/'' @ value @ lit ''.log''))"

section \<open>Numbers in decimal\<close>

definition undec :: "bytes \<Rightarrow> nat" where
  "undec ds = foldl (\<lambda>n d. 10 * n + (unat d - 48)) 0 ds"

lemma undec_snoc: "undec (ds @ [d]) = 10 * undec ds + (unat d - 48)"
  by (simp add: undec_def)

lemma undec_zeros: "undec (replicate k 48 @ ds) = undec ds"
  by (induction k) (simp_all add: undec_def)

lemma unat_digit: "n < 10 \<Longrightarrow> unat (word_of_nat (48 + n) :: u8) = 48 + n"
  by (simp add: unsigned_of_nat take_bit_eq_mod del: of_nat_add)

lemma undec_dec_digits: "undec (dec_digits n) = n"
proof (induction n rule: dec_digits.induct)
  case (1 n)
  show ?case
  proof (cases "n < 10")
    case True
    then show ?thesis using unat_digit [OF True] by (subst dec_digits.simps) (simp add: undec_def)
  next
    case False
    then show ?thesis
      using 1 unat_digit [of "n mod 10"] by (subst dec_digits.simps) (simp add: undec_snoc del: of_nat_add)
  qed
qed

lemma length_dec_digits: "n < 10 ^ Suc w \<Longrightarrow> length (dec_digits n) \<le> Suc w"
proof (induction w arbitrary: n)
  case 0
  then show ?case by (subst dec_digits.simps) simp
next
  case (Suc w)
  then have "n div 10 < 10 ^ Suc w" by (simp add: less_mult_imp_div_less mult.commute)
  with Suc.IH [of "n div 10"] show ?case by (subst dec_digits.simps) simp
qed

lemma fmt_0d_length: "0 \<le> i \<Longrightarrow> i < 10 ^ Suc w \<Longrightarrow> length (fmt_0d (Suc w) i) = Suc w"
  using length_dec_digits [of "nat i" w] by (simp add: fmt_0d_def Let_def nat_less_iff)

lemma fmt_0d_inj: "0 \<le> i \<Longrightarrow> 0 \<le> j \<Longrightarrow> fmt_0d w i = fmt_0d w j \<Longrightarrow> i = j"
  using undec_zeros undec_dec_digits by (simp add: fmt_0d_def Let_def) (metis nat_eq_iff2 eq_nat_nat_iff)

section \<open>The local clock\<close>

text \<open>The seconds since the epoch that a broken-down time stands for when it is read as UTC, in the Gregorian calendar.\<close>

definition leap_year :: "int \<Rightarrow> bool" where
  "leap_year y \<longleftrightarrow> (4 dvd y \<and> \<not> 100 dvd y) \<or> 400 dvd y"

definition month_days :: "int \<Rightarrow> nat list" where
  "month_days y = [31, if leap_year y then 29 else 28, 31, 30, 31, 30, 31, 31, 30, 31, 30, 31]"

definition days_before_year :: "int \<Rightarrow> int" where
  "days_before_year y = 365 * y + (y - 1) div 4 - (y - 1) div 100 + (y - 1) div 400"

definition day_number :: "int \<Rightarrow> nat \<Rightarrow> int \<Rightarrow> int" where
  "day_number y m d = days_before_year y + int (sum_list (take m (month_days y))) + d - 1"

definition tm_seconds :: "Tm \<Rightarrow> int" where
  "tm_seconds t = 86400 * (day_number (tm_year t + 1900) (nat (tm_mon t)) (tm_mday t) - days_before_year 1970)
     + 3600 * tm_hour t + 60 * tm_min t + tm_sec t"

text \<open>A broken-down time as \<open>localtime_r\<close> gives it, in the years 1000 to 9999, without leap seconds.\<close>

definition tm_valid :: "Tm \<Rightarrow> bool" where
  "tm_valid t \<longleftrightarrow> -900 \<le> tm_year t \<and> tm_year t < 8100 \<and> 0 \<le> tm_mon t \<and> tm_mon t \<le> 11 \<and> 1 \<le> tm_mday t
     \<and> tm_mday t \<le> int (month_days (tm_year t + 1900) ! nat (tm_mon t)) \<and> 0 \<le> tm_hour t \<and> tm_hour t \<le> 23
     \<and> 0 \<le> tm_min t \<and> tm_min t \<le> 59 \<and> 0 \<le> tm_sec t \<and> tm_sec t \<le> 59"

lemma month_days_simps [simp]: "length (month_days y) = 12" "sum_list (month_days y) = (if leap_year y then 366 else 365)"
  by (simp_all add: month_days_def)

lemma month_days_31: "m < 12 \<Longrightarrow> month_days y ! m \<le> 31"
proof -
  assume "m < 12"
  then have "month_days y ! m \<in> set (month_days y)" by simp
  moreover have "\<forall>d \<in> set (month_days y). d \<le> 31" by (simp add: month_days_def)
  ultimately show ?thesis by blast
qed

lemma tm_valid_month: "tm_valid t \<Longrightarrow> nat (tm_mon t) < 12"
  by (auto simp: tm_valid_def nat_less_iff)

lemma tm_valid_mday: "tm_valid t \<Longrightarrow> tm_mday t \<le> 31"
  using month_days_31 [OF tm_valid_month, of t "tm_year t + 1900"] by (simp add: tm_valid_def)

lemma div_pred:
  fixes y k :: int
  assumes "0 < k"
  shows "y div k = (y - 1) div k + (if k dvd y then 1 else 0)"
proof (cases "k dvd y")
  case True
  then obtain q where q: "y = k * q" by blast
  have "(y - 1) div k = q - 1"
    by (rule int_div_pos_eq [where r = "k - 1"]) (use assms q in \<open>simp_all add: algebra_simps\<close>)
  with True q assms show ?thesis by simp
next
  case False
  then have "y mod k \<noteq> 0" by (simp add: dvd_eq_mod_eq_0)
  then have "0 \<le> y mod k - 1" "y mod k - 1 < k" using pos_mod_bound [OF assms, of y] pos_mod_sign [OF assms, of y] by linarith+
  moreover have "y - 1 = k * (y div k) + (y mod k - 1)" by simp
  ultimately have "(y - 1) div k = y div k" by (intro int_div_pos_eq)
  with False show ?thesis by simp
qed

lemma days_next_year: "days_before_year (y + 1) = days_before_year y + int (sum_list (month_days y))"
proof -
  have "y div 4 = (y - 1) div 4 + (if 4 dvd y then 1 else 0)" "y div 100 = (y - 1) div 100 + (if 100 dvd y then 1 else 0)"
    "y div 400 = (y - 1) div 400 + (if 400 dvd y then 1 else 0)" by (rule div_pred, simp)+
  moreover have "100 dvd y \<Longrightarrow> 4 dvd y" "400 dvd y \<Longrightarrow> 100 dvd y" using dvd_trans [of 4 100 y] dvd_trans [of 100 400 y] by simp_all
  ultimately show ?thesis by (simp add: days_before_year_def leap_year_def)
qed

lemma days_later_year:
  assumes "y < z"
  shows "days_before_year y + int (sum_list (month_days y)) \<le> days_before_year z"
proof -
  from assms have "y + 1 \<le> z" by simp
  then show ?thesis
  proof (induction z rule: int_ge_induct)
    case base
    then show ?case by (simp only: days_next_year)
  next
    case (step z)
    then show ?case by (simp only: days_next_year)
  qed
qed

lemma sum_take_less:
  fixes xs :: "nat list"
  assumes "i < j" and "j \<le> length xs"
  shows "sum_list (take i xs) + xs ! i \<le> sum_list (take j xs)"
proof -
  have "take j xs = take i xs @ xs ! i # take (j - Suc i) (drop (Suc i) xs)"
    using assms by (metis Cons_nth_drop_Suc Suc_diff_Suc add_diff_inverse_nat less_imp_le_nat not_less order_less_le_trans take_Suc_Cons take_add)
  then show ?thesis by simp
qed

text \<open>Days are counted without gap or overlap, so day and time of day can be read off the count.\<close>

lemma day_number_less:
  assumes "m < 12" and "n < 12" and "d \<le> int (month_days y ! m)" and "1 \<le> e" and "y < z \<or> y = z \<and> m < n"
  shows "day_number y m d < day_number z n e"
proof -
  have "int (sum_list (take m (month_days y))) + d \<le> int (sum_list (take k (month_days y)))" if "m < k" "k \<le> 12" for k
    using sum_take_less [OF that(1), of "month_days y"] that(2) assms(3) by simp
  from this [of 12] this [of n] show ?thesis
    using assms days_later_year [of y z] by (auto simp: day_number_def)
qed

lemma day_number_inj:
  assumes "day_number y m d = day_number z n e" and "m < 12" and "n < 12" and "1 \<le> d" and "1 \<le> e"
    and "d \<le> int (month_days y ! m)" and "e \<le> int (month_days z ! n)"
  shows "y = z \<and> m = n \<and> d = e"
proof -
  have "y = z \<and> m = n"
    using day_number_less [OF assms(2,3,6,5), of z] day_number_less [OF assms(3,2,7,4), of y] assms(1)
    by (metis less_irrefl linorder_neqE)
  with assms(1) show ?thesis by (simp add: day_number_def)
qed

lemma block_inj:
  fixes a b :: int
  assumes "k * a + r = k * b + q" and "0 \<le> r" and "r < k" and "0 \<le> q" and "q < k"
  shows "a = b \<and> r = q"
proof -
  have "(k * a + r) div k = a" "(k * a + r) div k = b"
    using int_div_pos_eq [OF refl assms(2,3)] int_div_pos_eq [OF assms(1,4,5)] by simp_all
  with assms(1) show ?thesis by simp
qed

text \<open>The six fields of the clock; \<open>tm_isdst\<close> is not among them.\<close>

definition same_clock :: "Tm \<Rightarrow> Tm \<Rightarrow> bool" where
  "same_clock t u \<longleftrightarrow> tm_year t = tm_year u \<and> tm_mon t = tm_mon u \<and> tm_mday t = tm_mday u
     \<and> tm_hour t = tm_hour u \<and> tm_min t = tm_min u \<and> tm_sec t = tm_sec u"

lemma tm_seconds_inj:
  assumes "tm_valid t" and "tm_valid u" and "tm_seconds t = tm_seconds u"
  shows "same_clock t u"
proof -
  let ?day = "\<lambda>t. day_number (tm_year t + 1900) (nat (tm_mon t)) (tm_mday t)"
  let ?min = "\<lambda>t. 60 * tm_min t + tm_sec t"
  have r: "0 \<le> tm_hour v" "tm_hour v \<le> 23" "0 \<le> tm_min v" "tm_min v \<le> 59" "0 \<le> tm_sec v" "tm_sec v \<le> 59"
    "0 \<le> tm_mon v" "1 \<le> tm_mday v" "tm_mday v \<le> int (month_days (tm_year v + 1900) ! nat (tm_mon v))" if "v = t \<or> v = u" for v
    using that assms(1,2) by (auto simp: tm_valid_def)
  note rt = r [OF disjI1 [OF refl]] and ru = r [OF disjI2 [OF refl]]
  have "86400 * ?day t + (3600 * tm_hour t + ?min t) = 86400 * ?day u + (3600 * tm_hour u + ?min u)"
    using assms(3) by (simp add: tm_seconds_def algebra_simps)
  then have day: "?day t = ?day u \<and> 3600 * tm_hour t + ?min t = 3600 * tm_hour u + ?min u"
    by (rule block_inj) (use rt ru in linarith)+
  then have hour: "tm_hour t = tm_hour u \<and> ?min t = ?min u"
    by (intro block_inj [of 3600]) (use rt ru in linarith)+
  then have "tm_min t = tm_min u \<and> tm_sec t = tm_sec u"
    by (intro block_inj [of 60]) (use rt ru in linarith)+
  moreover have "tm_year t + 1900 = tm_year u + 1900 \<and> nat (tm_mon t) = nat (tm_mon u) \<and> tm_mday t = tm_mday u"
    by (rule day_number_inj [OF conjunct1 [OF day] tm_valid_month [OF assms(1)] tm_valid_month [OF assms(2)] rt(8) ru(8) rt(9) ru(9)])
  ultimately show ?thesis using hour rt(7) ru(7) by (simp add: same_clock_def eq_nat_nat_iff)
qed

lemma fmt_fields:
  assumes "tm_valid t"
  shows "length (fmt_0d 4 (tm_year t + 1900)) = 4" "length (fmt_0d 2 (tm_mon t + 1)) = 2"
    "length (fmt_0d 2 (tm_mday t)) = 2" "length (fmt_0d 2 (tm_hour t)) = 2"
    "length (fmt_0d 2 (tm_min t)) = 2" "length (fmt_0d 2 (tm_sec t)) = 2"
  using assms tm_valid_mday [OF assms] fmt_0d_length [of "tm_year t + 1900" 3] fmt_0d_length [of "tm_mon t + 1" 1]
    fmt_0d_length [of "tm_mday t" 1] fmt_0d_length [of "tm_hour t" 1] fmt_0d_length [of "tm_min t" 1]
    fmt_0d_length [of "tm_sec t" 1]
  by (simp_all add: tm_valid_def numeral_eq_Suc)

lemma length_lit [simp]: "length (lit s) = length s"
  by (simp add: lit_def)

lemma dec_digits_long: "10 ^ w \<le> n \<Longrightarrow> w < length (dec_digits n)"
proof (induction w arbitrary: n)
  case 0
  then show ?case by (subst dec_digits.simps) simp
next
  case (Suc w)
  then have "10 ^ w \<le> n div 10" "\<not> n < 10"
    by (simp_all add: less_eq_div_iff_mult_less_eq mult.commute) (use one_le_power [of "10::nat" w] in linarith)
  with Suc.IH [of "n div 10"] show ?case by (subst dec_digits.simps) simp
qed

lemma fmt_Y_4: "1000 \<le> y \<Longrightarrow> fmt_Y y = fmt_0d 4 y"
  using dec_digits_long [of 3 "nat y"] by (simp add: fmt_Y_def fmt_0d_def Let_def nat_le_iff le_nat_iff)

lemma length_fmt_b: "0 \<le> m \<Longrightarrow> m < 12 \<Longrightarrow> length (fmt_b m) = 3"
proof -
  assume "0 \<le> m" "m < 12"
  then have "nat m < 12" by simp
  moreover have "\<forall>i \<in> {..<12}. length (map lit [''Jan'', ''Feb'', ''Mar'', ''Apr'', ''May'', ''Jun'', ''Jul'', ''Aug'', ''Sep'', ''Oct'', ''Nov'', ''Dec''] ! i) = 3"
    by (simp add: lessThan_nat_numeral lessThan_Suc)
  ultimately show ?thesis using \<open>0 \<le> m\<close> \<open>m < 12\<close> by (simp add: fmt_b_def)
qed

text \<open>The time of day as both names carry it, and the shape of the log path.\<close>

definition stamp_text :: "Tm \<Rightarrow> bytes" where
  "stamp_text t = fmt_0d 4 (tm_year t + 1900) @ fmt_0d 2 (tm_mon t + 1) @ fmt_0d 2 (tm_mday t)
     @ lit ''_'' @ fmt_0d 2 (tm_hour t) @ fmt_0d 2 (tm_min t) @ fmt_0d 2 (tm_sec t)"

lemma stamp_text_length: "tm_valid t \<Longrightarrow> length (stamp_text t) = 15"
  using fmt_fields [of t] by (simp add: stamp_text_def)

lemma same_clock_text:
  assumes "same_clock t u"
  shows "stamp_text t = stamp_text u" "fmt_0d 4 (tm_year t + 1900) = fmt_0d 4 (tm_year u + 1900)" "fmt_b (tm_mon t) = fmt_b (tm_mon u)"
    "fmt_0d 2 (tm_mday t) = fmt_0d 2 (tm_mday u)" "tm_seconds t = tm_seconds u"
  using assms by (simp_all add: same_clock_def stamp_text_def tm_seconds_def)

lemma stamp_text_same:
  assumes "tm_valid t" and "tm_valid u"
  shows "stamp_text t = stamp_text u \<longleftrightarrow> same_clock t u"
proof
  assume "stamp_text t = stamp_text u"
  then have "fmt_0d 4 (tm_year t + 1900) = fmt_0d 4 (tm_year u + 1900)" "fmt_0d 2 (tm_mon t + 1) = fmt_0d 2 (tm_mon u + 1)"
    "fmt_0d 2 (tm_mday t) = fmt_0d 2 (tm_mday u)" "fmt_0d 2 (tm_hour t) = fmt_0d 2 (tm_hour u)"
    "fmt_0d 2 (tm_min t) = fmt_0d 2 (tm_min u)" "fmt_0d 2 (tm_sec t) = fmt_0d 2 (tm_sec u)"
    using fmt_fields [OF assms(1)] fmt_fields [OF assms(2)] by (simp_all add: stamp_text_def)
  from this [THEN fmt_0d_inj [rotated 2]] show "same_clock t u"
    using assms by (simp add: tm_valid_def same_clock_def)
qed (rule same_clock_text)

lemma same_clock_seconds: "tm_valid t \<Longrightarrow> tm_valid u \<Longrightarrow> same_clock t u \<longleftrightarrow> tm_seconds t = tm_seconds u"
  using tm_seconds_inj same_clock_text(5) by blast

lemma session_name_parts:
  assumes "tm_valid (localtime t)"
  shows "MakeSessionBaseName localtime t = lit ''recording_'' @ stamp_text (localtime t)"
  using fmt_fields [OF assms] by (simp add: MakeSessionBaseName_def stamp_text_def Let_def)

lemma log_path_parts:
  assumes "tm_valid t" and "configerLogger (Some home) localtime now mk = LogFile f" and "t = localtime (to_time_t now)"
  shows "f = home @ lit ''/logs/chronoCapRecorder/'' @ fmt_0d 2 (tm_mday t) @ lit ''_'' @ fmt_b (tm_mon t)
    @ lit ''_'' @ fmt_0d 4 (tm_year t + 1900) @ lit ''/'' @ stamp_text t @ lit ''.log''"
proof -
  have y: "fmt_Y (tm_year t + 1900) = fmt_0d 4 (tm_year t + 1900)" using assms(1) by (intro fmt_Y_4) (simp add: tm_valid_def)
  then show ?thesis
    using assms(2) by (auto simp: configerLogger_def Let_def stamp_text_def assms(3) [symmetric] split: if_splits)
qed

section \<open>Properties\<close>

text \<open>C39: When two sessions share their files. \<open>localtime\<close> gives for each of the two seconds \<open>s\<close> and \<open>t\<close> a valid calendar date
  and the time shifted by the zone's UTC offset at that moment. Then the session name has exactly 25 characters, so the 64-byte
  buffer never cuts it, and the two names, and likewise the paths of the two log files, are equal exactly when
  the local clock shows the same second at both: with equal offsets only in the same second, but also in an hour that the clock runs
  through twice, when summer time ends; then opening the later session truncates the recording of the earlier one.\<close>

theorem session_names_clock:
  assumes "tm_valid (localtime s)" and "tm_seconds (localtime s) = s + utc_offset s"
    and "tm_valid (localtime t)" and "tm_seconds (localtime t) = t + utc_offset t"
    and "to_time_t m = s" and "configerLogger (Some home) localtime m mk = LogFile f"
    and "to_time_t n = t" and "configerLogger (Some home) localtime n mk = LogFile g"
  shows "length (MakeSessionBaseName localtime s) = 25
    \<and> (MakeSessionBaseName localtime s = MakeSessionBaseName localtime t \<longleftrightarrow> s + utc_offset s = t + utc_offset t)
    \<and> (f = g \<longleftrightarrow> s + utc_offset s = t + utc_offset t)"
proof -
  have clock: "same_clock (localtime s) (localtime t) \<longleftrightarrow> s + utc_offset s = t + utc_offset t"
    using same_clock_seconds [OF assms(1,3)] assms(2,4) by simp
  note same = stamp_text_same [OF assms(1,3)]
  have f: "f = home @ lit ''/logs/chronoCapRecorder/'' @ fmt_0d 2 (tm_mday (localtime s)) @ lit ''_'' @ fmt_b (tm_mon (localtime s))
      @ lit ''_'' @ fmt_0d 4 (tm_year (localtime s) + 1900) @ lit ''/'' @ stamp_text (localtime s) @ lit ''.log''"
    and g: "g = home @ lit ''/logs/chronoCapRecorder/'' @ fmt_0d 2 (tm_mday (localtime t)) @ lit ''_'' @ fmt_b (tm_mon (localtime t))
      @ lit ''_'' @ fmt_0d 4 (tm_year (localtime t) + 1900) @ lit ''/'' @ stamp_text (localtime t) @ lit ''.log''"
    using log_path_parts [OF assms(1,6)] log_path_parts [OF assms(3,8)] assms(5,7) by simp_all
  note len = fmt_fields(1,3) [OF assms(1)] fmt_fields(1,3) [OF assms(3)] stamp_text_length [OF assms(1)] stamp_text_length [OF assms(3)]
    length_fmt_b [of "tm_mon (localtime s)"] length_fmt_b [of "tm_mon (localtime t)"]
  have mon: "0 \<le> tm_mon (localtime s)" "tm_mon (localtime s) < 12" "0 \<le> tm_mon (localtime t)" "tm_mon (localtime t) < 12"
    using assms(1,3) by (simp_all add: tm_valid_def)
  have "f = g \<Longrightarrow> stamp_text (localtime s) = stamp_text (localtime t)" unfolding f g using len mon by simp
  moreover have "f = g" if "same_clock (localtime s) (localtime t)" unfolding f g using same_clock_text [OF that] by simp
  ultimately have "f = g \<longleftrightarrow> same_clock (localtime s) (localtime t)" using same by blast
  moreover have "length (MakeSessionBaseName localtime s) = 25"
    "MakeSessionBaseName localtime s = MakeSessionBaseName localtime t \<longleftrightarrow> same_clock (localtime s) (localtime t)"
    using session_name_parts [of localtime s, OF assms(1)] session_name_parts [of localtime t, OF assms(3)] same stamp_text_length [OF assms(1)] by simp_all
  ultimately show ?thesis unfolding clock by blast
qed

text \<open>Two sessions in Berlin, one hour apart, on 25 October 2026: 02:30:00 in summer time and 02:30:00 after its end.\<close>

definition autumn_clock :: "int \<Rightarrow> Tm" where
  "autumn_clock t = \<lparr>tm_year = 126, tm_mon = 9, tm_mday = 25, tm_hour = 2, tm_min = 30, tm_sec = 0,
     tm_isdst = (if t < 1792890000 then 1 else 0)\<rparr>"

theorem session_names_clock_witness:
  "MakeSessionBaseName autumn_clock 1792888200 = MakeSessionBaseName autumn_clock 1792891800
   \<and> autumn_clock 1792888200 \<noteq> autumn_clock 1792891800"
proof -
  let ?offset = "\<lambda>t :: int. if t < 1792890000 then 7200 else 3600 :: int"
  have valid: "tm_valid (autumn_clock t)" for t by (simp add: tm_valid_def autumn_clock_def month_days_def)
  have secs: "tm_seconds (autumn_clock t) = 1792895400" for t
    by (simp add: tm_seconds_def autumn_clock_def day_number_def days_before_year_def month_days_def leap_year_def)
  obtain f where f: "configerLogger (Some []) autumn_clock 1792888200000000000 (\<lambda>_. True) = LogFile f" by (simp add: configerLogger_def Let_def)
  obtain g where g: "configerLogger (Some []) autumn_clock 1792891800000000000 (\<lambda>_. True) = LogFile g" by (simp add: configerLogger_def Let_def)
  have t: "to_time_t 1792888200000000000 = 1792888200" "to_time_t 1792891800000000000 = 1792891800" by (simp_all add: to_time_t_def)
  have o: "tm_seconds (autumn_clock 1792888200) = 1792888200 + ?offset 1792888200"
    "tm_seconds (autumn_clock 1792891800) = 1792891800 + ?offset 1792891800" unfolding secs by simp_all
  then have "1792888200 + ?offset 1792888200 = 1792891800 + ?offset 1792891800" unfolding secs by (rule trans [OF sym])
  with session_names_clock [of autumn_clock 1792888200 ?offset 1792891800, OF valid o(1) valid o(2) t(1) f t(2) g]
  have "MakeSessionBaseName autumn_clock 1792888200 = MakeSessionBaseName autumn_clock 1792891800" by blast
  then show ?thesis by (simp add: autumn_clock_def)
qed

end
