(* ===== verification/Wire_Format.thy ===== *)
theory Wire_Format
  imports Chrono_Prelude
begin

text \<open>
  The on-disk format of \<open>include/chrono_cap/wire_format.hpp\<close>: the little-endian integer helpers,
  the format constants, and the four structures with their \<open>Serialize\<close> and \<open>Deserialize\<close>
  members. A pointer into a caller-owned buffer is the buffer together with an offset; a store or
  load outside the buffer gives \<^const>\<open>None\<close>. The functions with suffix \<open>_layout\<close> are the format
  as the documentation's byte tables give it; the locale \<open>wire_codec\<close> is the contract that
  a \<open>Serialize\<close>/\<open>Deserialize\<close> pair implements such a layout; \<open>range_codec\<close> and \<open>total_codec\<close>
  strengthen it for pairs that accept any bytes and lose none of them.
\<close>

section \<open>Endian-safe integer helpers\<close>

definition encode_u16 :: "bytes \<Rightarrow> nat \<Rightarrow> u16 \<Rightarrow> bytes option" where
  "encode_u16 out p v = do {
     out \<leftarrow> put_byte out p (ucast (v AND 0xFF));
     put_byte out (p + 1) (ucast (drop_bit 8 v AND 0xFF)) }"

definition decode_u16 :: "bytes \<Rightarrow> nat \<Rightarrow> u16 option" where
  "decode_u16 b p = do {
     b0 \<leftarrow> get_byte b p;
     b1 \<leftarrow> get_byte b (p + 1);
     Some (ucast b0 OR push_bit 8 (ucast b1)) }"

definition encode_u32 :: "bytes \<Rightarrow> nat \<Rightarrow> u32 \<Rightarrow> bytes option" where
  "encode_u32 out p v = do {
     out \<leftarrow> put_byte out p (ucast (v AND 0xFF));
     out \<leftarrow> put_byte out (p + 1) (ucast (drop_bit 8 v AND 0xFF));
     out \<leftarrow> put_byte out (p + 2) (ucast (drop_bit 16 v AND 0xFF));
     put_byte out (p + 3) (ucast (drop_bit 24 v AND 0xFF)) }"

definition decode_u32 :: "bytes \<Rightarrow> nat \<Rightarrow> u32 option" where
  "decode_u32 b p = do {
     b0 \<leftarrow> get_byte b p;
     b1 \<leftarrow> get_byte b (p + 1);
     b2 \<leftarrow> get_byte b (p + 2);
     b3 \<leftarrow> get_byte b (p + 3);
     Some (ucast b0 OR push_bit 8 (ucast b1) OR push_bit 16 (ucast b2) OR push_bit 24 (ucast b3)) }"

text \<open>The 64-bit helpers are loops over \<open>i = 0, \<dots>, 7\<close>.\<close>

function encode_u64_from :: "nat \<Rightarrow> bytes \<Rightarrow> nat \<Rightarrow> u64 \<Rightarrow> bytes option" where
  "encode_u64_from i out p v =
     (if i < 8 then do {
        out \<leftarrow> put_byte out (p + i) (ucast (drop_bit (8 * i) v AND 0xFF));
        encode_u64_from (Suc i) out p v }
      else Some out)"
  by pat_completeness auto
termination
  by (relation "measure (\<lambda>(i, _). 8 - i)") auto

definition encode_u64 :: "bytes \<Rightarrow> nat \<Rightarrow> u64 \<Rightarrow> bytes option" where
  "encode_u64 out p v = encode_u64_from 0 out p v"

function decode_u64_from :: "nat \<Rightarrow> u64 \<Rightarrow> bytes \<Rightarrow> nat \<Rightarrow> u64 option" where
  "decode_u64_from i v b p =
     (if i < 8 then do {
        x \<leftarrow> get_byte b (p + i);
        decode_u64_from (Suc i) (v OR push_bit (8 * i) (ucast x)) b p }
      else Some v)"
  by pat_completeness auto
termination
  by (relation "measure (\<lambda>(i, _). 8 - i)") auto

definition decode_u64 :: "bytes \<Rightarrow> nat \<Rightarrow> u64 option" where
  "decode_u64 b p = decode_u64_from 0 0 b p"

declare encode_u64_from.simps [simp del] decode_u64_from.simps [simp del]

section \<open>File format constants\<close>

definition kMagic :: bytes where
  "kMagic = lit ''I2WLOG'' @ [0, 0]"

definition kFormatVersion :: u32 where
  "kFormatVersion = 1"

definition kFileHeaderWireSize :: nat where
  "kFileHeaderWireSize = 8 + 4 + 4 + 8 + 8"

definition kTopicMetaWireSize :: nat where
  "kTopicMetaWireSize = 2 + 4 + 32"

definition kRecordHeaderWireSize :: nat where
  "kRecordHeaderWireSize = 2 + 8 + 8"

definition kIndexEntryWireSize :: nat where
  "kIndexEntryWireSize = 8 + 8 + 2"

definition kMaxPayloadBytes :: nat where
  "kMaxPayloadBytes = 64"

lemma wire_size_values [wire_sizes]:
  "kFileHeaderWireSize = 32" "kTopicMetaWireSize = 38" "kRecordHeaderWireSize = 18"
  "kIndexEntryWireSize = 18" "kMaxPayloadBytes = 64"
  by (simp_all add: kFileHeaderWireSize_def kTopicMetaWireSize_def kRecordHeaderWireSize_def
      kIndexEntryWireSize_def kMaxPayloadBytes_def)

section \<open>In-memory structures and their members\<close>

record FileHeader =
  fh_version :: u32
  fh_topic_count :: u32
  fh_created_at_ns :: u64

definition FileHeader_init :: FileHeader where
  "FileHeader_init = \<lparr>fh_version = kFormatVersion, fh_topic_count = 0, fh_created_at_ns = 0\<rparr>"

definition FileHeader_Serialize :: "FileHeader \<Rightarrow> bytes \<Rightarrow> nat \<Rightarrow> bytes option" where
  "FileHeader_Serialize h out p = do {
     out \<leftarrow> mem_write out p kMagic;
     out \<leftarrow> encode_u32 out (p + 8) (fh_version h);
     out \<leftarrow> encode_u32 out (p + 12) (fh_topic_count h);
     out \<leftarrow> encode_u64 out (p + 16) (fh_created_at_ns h);
     mem_write out (p + 24) (replicate 8 0) }"

text \<open>The result is the returned boolean and the out-parameter, which a mismatch leaves as it was.\<close>

definition FileHeader_Deserialize :: "bytes \<Rightarrow> nat \<Rightarrow> FileHeader \<Rightarrow> (bool \<times> FileHeader) option" where
  "FileHeader_Deserialize b p out = do {
     m \<leftarrow> mem_read b p 8;
     if m \<noteq> kMagic then Some (False, out)
     else do {
       v \<leftarrow> decode_u32 b (p + 8);
       c \<leftarrow> decode_u32 b (p + 12);
       t \<leftarrow> decode_u64 b (p + 16);
       Some (True, out\<lparr>fh_version := v, fh_topic_count := c, fh_created_at_ns := t\<rparr>) } }"

record TopicMetaEntry =
  tm_topic_id :: u16
  tm_struct_size :: u32
  tm_name :: bytes  \<comment> \<open>\<open>char name[32]\<close>\<close>

definition TopicMetaEntry_init :: TopicMetaEntry where
  "TopicMetaEntry_init = \<lparr>tm_topic_id = 0, tm_struct_size = 0, tm_name = replicate 32 0\<rparr>"

definition TopicMetaEntry_Serialize :: "TopicMetaEntry \<Rightarrow> bytes \<Rightarrow> nat \<Rightarrow> bytes option" where
  "TopicMetaEntry_Serialize e out p = do {
     out \<leftarrow> encode_u16 out p (tm_topic_id e);
     out \<leftarrow> encode_u32 out (p + 2) (tm_struct_size e);
     out \<leftarrow> mem_write out (p + 6) (replicate 32 0);
     len \<leftarrow> c_strlen (tm_name e);
     nm \<leftarrow> mem_read (tm_name e) 0 (if len < 32 then len else 31);
     mem_write out (p + 6) nm }"

definition TopicMetaEntry_Deserialize :: "bytes \<Rightarrow> nat \<Rightarrow> TopicMetaEntry \<Rightarrow> TopicMetaEntry option" where
  "TopicMetaEntry_Deserialize b p out = do {
     i \<leftarrow> decode_u16 b p;
     s \<leftarrow> decode_u32 b (p + 2);
     src \<leftarrow> mem_read b (p + 6) 32;
     nm \<leftarrow> mem_write (replicate 32 0) 0 src;
     Some (out\<lparr>tm_topic_id := i, tm_struct_size := s, tm_name := nm\<rparr>) }"

record RecordHeader =
  rh_topic_id :: u16
  rh_stamp_ns :: u64
  rh_seq :: u64

definition RecordHeader_init :: RecordHeader where
  "RecordHeader_init = \<lparr>rh_topic_id = 0, rh_stamp_ns = 0, rh_seq = 0\<rparr>"

definition RecordHeader_Serialize :: "RecordHeader \<Rightarrow> bytes \<Rightarrow> nat \<Rightarrow> bytes option" where
  "RecordHeader_Serialize h out p = do {
     out \<leftarrow> encode_u16 out p (rh_topic_id h);
     out \<leftarrow> encode_u64 out (p + 2) (rh_stamp_ns h);
     encode_u64 out (p + 10) (rh_seq h) }"

definition RecordHeader_Deserialize :: "bytes \<Rightarrow> nat \<Rightarrow> RecordHeader \<Rightarrow> RecordHeader option" where
  "RecordHeader_Deserialize b p out = do {
     i \<leftarrow> decode_u16 b p;
     t \<leftarrow> decode_u64 b (p + 2);
     s \<leftarrow> decode_u64 b (p + 10);
     Some (out\<lparr>rh_topic_id := i, rh_stamp_ns := t, rh_seq := s\<rparr>) }"

record IndexEntry =
  ie_stamp_ns :: u64
  ie_byte_offset :: u64
  ie_topic_id :: u16

definition IndexEntry_init :: IndexEntry where
  "IndexEntry_init = \<lparr>ie_stamp_ns = 0, ie_byte_offset = 0, ie_topic_id = 0\<rparr>"

definition IndexEntry_Serialize :: "IndexEntry \<Rightarrow> bytes \<Rightarrow> nat \<Rightarrow> bytes option" where
  "IndexEntry_Serialize e out p = do {
     out \<leftarrow> encode_u64 out p (ie_stamp_ns e);
     out \<leftarrow> encode_u64 out (p + 8) (ie_byte_offset e);
     encode_u16 out (p + 16) (ie_topic_id e) }"

definition IndexEntry_Deserialize :: "bytes \<Rightarrow> nat \<Rightarrow> IndexEntry \<Rightarrow> IndexEntry option" where
  "IndexEntry_Deserialize b p out = do {
     t \<leftarrow> decode_u64 b p;
     off \<leftarrow> decode_u64 b (p + 8);
     i \<leftarrow> decode_u16 b (p + 16);
     Some (out\<lparr>ie_stamp_ns := t, ie_byte_offset := off, ie_topic_id := i\<rparr>) }"

section \<open>The byte layout the format documents\<close>

definition le :: "nat \<Rightarrow> 'a::len word \<Rightarrow> bytes" where
  "le n v = map (\<lambda>i. ucast (drop_bit (8 * i) v)) [0..<n]"

lemma length_le [simp]: "length (le n v) = n"
  by (simp add: le_def)

lemma le_nth: "i < n \<Longrightarrow> le n v ! i = ucast (drop_bit (8 * i) v)"
  by (simp add: le_def)

lemma ucast_low_byte: "ucast (w AND 0xFF) = (ucast w :: u8)"
proof -
  have "w AND 0xFF = take_bit 8 w"
    by (simp add: take_bit_eq_mask mask_eq_exp_minus_1)
  then show ?thesis
    by (simp add: bit_word_eqI bit_simps)
qed

lemma le_2: "le 2 v = [ucast v, ucast (drop_bit 8 v)]"
  by (simp add: le_def upt_rec)

lemma le_4: "le 4 v = [ucast v, ucast (drop_bit 8 v), ucast (drop_bit 16 v), ucast (drop_bit 24 v)]"
  by (simp add: le_def upt_rec)

lemma le_8: "le 8 v = [ucast v, ucast (drop_bit 8 v), ucast (drop_bit 16 v), ucast (drop_bit 24 v),
    ucast (drop_bit 32 v), ucast (drop_bit 40 v), ucast (drop_bit 48 v), ucast (drop_bit 56 v)]"
  by (simp add: le_def upt_rec)


text \<open>Bit \<open>n\<close> of a byte cut out at position \<open>m\<close> and put back there.\<close>

lemma bit_byte_at:
  fixes v :: "'a::len word"
  shows "bit (push_bit m (ucast (ucast (drop_bit m v) :: u8)) :: 'a word) n
    \<longleftrightarrow> m \<le> n \<and> n < m + 8 \<and> bit v n"
  by (auto simp: bit_simps dest: bit_imp_le_length)

lemma bit_byte_0:
  fixes v :: "'a::len word"
  shows "bit (ucast (ucast v :: u8) :: 'a word) n \<longleftrightarrow> n < 8 \<and> bit v n"
  by (auto simp: bit_simps dest: bit_imp_le_length)

lemma u16_of_bytes:
  fixes v :: u16
  shows "ucast (ucast v :: u8) OR push_bit 8 (ucast (ucast (drop_bit 8 v) :: u8)) = v" (is "?w = v")
proof (rule bit_word_eqI)
  fix n assume "n < LENGTH(16)"
  then show "bit ?w n = bit v n"
    by (simp add: bit_or_iff bit_byte_at bit_byte_0) linarith
qed

lemma u32_of_bytes:
  fixes v :: u32
  shows "ucast (ucast v :: u8) OR push_bit 8 (ucast (ucast (drop_bit 8 v) :: u8))
    OR push_bit 16 (ucast (ucast (drop_bit 16 v) :: u8))
    OR push_bit 24 (ucast (ucast (drop_bit 24 v) :: u8)) = v" (is "?w = v")
proof (rule bit_word_eqI)
  fix n assume "n < LENGTH(32)"
  then show "bit ?w n = bit v n"
    by (simp add: bit_or_iff bit_byte_at bit_byte_0) linarith
qed

lemma u64_of_bytes:
  fixes v :: u64
  shows "ucast (ucast v :: u8) OR push_bit 8 (ucast (ucast (drop_bit 8 v) :: u8))
    OR push_bit 16 (ucast (ucast (drop_bit 16 v) :: u8))
    OR push_bit 24 (ucast (ucast (drop_bit 24 v) :: u8))
    OR push_bit 32 (ucast (ucast (drop_bit 32 v) :: u8))
    OR push_bit 40 (ucast (ucast (drop_bit 40 v) :: u8))
    OR push_bit 48 (ucast (ucast (drop_bit 48 v) :: u8))
    OR push_bit 56 (ucast (ucast (drop_bit 56 v) :: u8)) = v" (is "?w = v")
proof (rule bit_word_eqI)
  fix n assume "n < LENGTH(64)"
  then show "bit ?w n = bit v n"
    by (simp add: bit_or_iff bit_byte_at bit_byte_0) linarith
qed

lemma encode_u16_patch [codec_simps]:
  "p + 2 \<le> length b \<Longrightarrow> encode_u16 b p v = Some (patch b p (le 2 v))"
  by (simp add: encode_u16_def put_byte_patch patch_append le_2 ucast_low_byte)

lemma encode_u32_patch [codec_simps]:
  "p + 4 \<le> length b \<Longrightarrow> encode_u32 b p v = Some (patch b p (le 4 v))"
  by (simp add: encode_u32_def put_byte_patch patch_append le_4 ucast_low_byte)

lemma encode_u64_patch [codec_simps]:
  "p + 8 \<le> length b \<Longrightarrow> encode_u64 b p v = Some (patch b p (le 8 v))"
  by (simp add: encode_u64_def encode_u64_from.simps put_byte_patch patch_append le_8 ucast_low_byte)

lemma plus_small_numerals:
  "(p::nat) + 3 = Suc (Suc (Suc p))" "p + 4 = Suc (Suc (Suc (Suc p)))"
  "p + 5 = Suc (Suc (Suc (Suc (Suc p))))" "p + 6 = Suc (Suc (Suc (Suc (Suc (Suc p)))))"
  "p + 7 = Suc (Suc (Suc (Suc (Suc (Suc (Suc p))))))"
  by simp_all

lemma decode_u16_located [located_intros]: "located b p (le 2 v) \<Longrightarrow> decode_u16 b p = Some v"
  using located_nth [of b p "le 2 v" 0] located_nth [of b p "le 2 v" 1]
  by (simp add: decode_u16_def le_2 u16_of_bytes)

lemma decode_u32_located [located_intros]: "located b p (le 4 v) \<Longrightarrow> decode_u32 b p = Some v"
  using located_nth [of b p "le 4 v" 0] located_nth [of b p "le 4 v" 1]
    located_nth [of b p "le 4 v" 2] located_nth [of b p "le 4 v" 3]
  by (simp add: decode_u32_def le_4 u32_of_bytes)

lemma decode_u64_located [located_intros]: "located b p (le 8 v) \<Longrightarrow> decode_u64 b p = Some v"
  using located_nth [of b p "le 8 v" 0] located_nth [of b p "le 8 v" 1]
    located_nth [of b p "le 8 v" 2] located_nth [of b p "le 8 v" 3]
    located_nth [of b p "le 8 v" 4] located_nth [of b p "le 8 v" 5]
    located_nth [of b p "le 8 v" 6] located_nth [of b p "le 8 v" 7]
  by (simp add: decode_u64_def decode_u64_from.simps le_8 u64_of_bytes or.assoc plus_small_numerals)

text \<open>Conversely a decoded value is exactly what lies there, so decoding loses no information.\<close>

lemma bit_u8_beyond: "8 \<le> n \<Longrightarrow> \<not> bit (x :: u8) n"
  by (auto dest: bit_imp_le_length)

lemma le_2_of_value: "le 2 (ucast x0 OR push_bit 8 (ucast x1) :: u16) = [x0, x1]"
  by (auto simp: le_2 bit_simps bit_u8_beyond intro!: bit_word_eqI)

lemma le_4_of_value:
  "le 4 (ucast x0 OR push_bit 8 (ucast x1) OR push_bit 16 (ucast x2) OR push_bit 24 (ucast x3) :: u32)
    = [x0, x1, x2, x3]"
  by (auto simp: le_4 bit_simps bit_u8_beyond intro!: bit_word_eqI)

lemma le_8_of_value:
  "le 8 (ucast x0 OR push_bit 8 (ucast x1) OR push_bit 16 (ucast x2) OR push_bit 24 (ucast x3)
      OR push_bit 32 (ucast x4) OR push_bit 40 (ucast x5) OR push_bit 48 (ucast x6)
      OR push_bit 56 (ucast x7) :: u64)
    = [x0, x1, x2, x3, x4, x5, x6, x7]"
  by (auto simp: le_8 bit_simps bit_u8_beyond intro!: bit_word_eqI)


lemma located_leI: "p + n \<le> length b \<Longrightarrow> le n v = take n (drop p b) \<Longrightarrow> located b p (le n v)"
  by (simp add: located_def)

lemma take_drop_2: "p + 2 \<le> length b \<Longrightarrow> take 2 (drop p b) = [b ! p, b ! (p + 1)]"
  by (simp add: list_eq_iff_nth_eq less_Suc_eq numeral_eq_Suc)

lemma take_drop_4:
  "p + 4 \<le> length b \<Longrightarrow> take 4 (drop p b) = [b ! p, b ! (p + 1), b ! (p + 2), b ! (p + 3)]"
  by (simp add: list_eq_iff_nth_eq less_Suc_eq numeral_eq_Suc)

lemma take_drop_8:
  "p + 8 \<le> length b \<Longrightarrow> take 8 (drop p b) = [b ! p, b ! (p + 1), b ! (p + 2), b ! (p + 3),
    b ! (p + 4), b ! (p + 5), b ! (p + 6), b ! (p + 7)]"
  by (simp add: list_eq_iff_nth_eq less_Suc_eq numeral_eq_Suc)

lemma decode_u16_iff: "decode_u16 b p = Some v \<longleftrightarrow> located b p (le 2 v)"
proof
  assume "decode_u16 b p = Some v"
  then have "v = ucast (b ! p) OR push_bit 8 (ucast (b ! (p + 1)))" and len: "p + 2 \<le> length b"
    by (auto simp: decode_u16_def get_byte_def bind_eq_Some_conv split: if_splits)
  then have "le 2 v = take 2 (drop p b)"
    by (simp only: le_2_of_value take_drop_2)
  with len show "located b p (le 2 v)" by (rule located_leI)
qed (rule decode_u16_located)

lemma decode_u32_iff: "decode_u32 b p = Some v \<longleftrightarrow> located b p (le 4 v)"
proof
  assume "decode_u32 b p = Some v"
  then have "v = ucast (b ! p) OR push_bit 8 (ucast (b ! (p + 1)))
      OR push_bit 16 (ucast (b ! (p + 2))) OR push_bit 24 (ucast (b ! (p + 3)))"
    and len: "p + 4 \<le> length b"
    by (auto simp: decode_u32_def get_byte_def bind_eq_Some_conv split: if_splits)
  then have "le 4 v = take 4 (drop p b)"
    by (simp only: le_4_of_value take_drop_4)
  with len show "located b p (le 4 v)" by (rule located_leI)
qed (rule decode_u32_located)

lemma decode_u64_iff: "decode_u64 b p = Some v \<longleftrightarrow> located b p (le 8 v)"
proof
  assume "decode_u64 b p = Some v"
  then have "v = ucast (b ! p) OR push_bit 8 (ucast (b ! (p + 1)))
      OR push_bit 16 (ucast (b ! (p + 2))) OR push_bit 24 (ucast (b ! (p + 3)))
      OR push_bit 32 (ucast (b ! (p + 4))) OR push_bit 40 (ucast (b ! (p + 5)))
      OR push_bit 48 (ucast (b ! (p + 6))) OR push_bit 56 (ucast (b ! (p + 7)))
    \<and> p + 8 \<le> length b"
    by (auto simp: decode_u64_def decode_u64_from.simps get_byte_def bind_eq_Some_conv or.assoc
        plus_small_numerals split: if_splits)
  then have "le 8 v = take 8 (drop p b)" and "p + 8 \<le> length b"
    by (simp_all only: le_8_of_value take_drop_8)
  then show "located b p (le 8 v)" by (intro located_leI)
qed (rule decode_u64_located)

lemma decode_u16_total: "p + 2 \<le> length b \<Longrightarrow> \<exists>v. decode_u16 b p = Some v"
  by (simp add: decode_u16_def get_byte_def)

lemma decode_u32_total: "p + 4 \<le> length b \<Longrightarrow> \<exists>v. decode_u32 b p = Some v"
  by (simp add: decode_u32_def get_byte_def)

lemma decode_u64_total: "p + 8 \<le> length b \<Longrightarrow> \<exists>v. decode_u64 b p = Some v"
  by (simp add: decode_u64_def decode_u64_from.simps get_byte_def)

section \<open>The contract of a Serialize/Deserialize pair\<close>

text \<open>
  \<open>ser x b p\<close> stores \<open>x\<close> at offset \<open>p\<close> of \<open>b\<close>, \<open>deser b p\<close> reads it back. \<open>valid\<close> is what the
  in-memory value has to satisfy (only the topic name array has such a condition).
\<close>

locale wire_codec =
  fixes ser :: "'a \<Rightarrow> bytes \<Rightarrow> nat \<Rightarrow> bytes option"
    and deser :: "bytes \<Rightarrow> nat \<Rightarrow> 'a option"
    and layout :: "'a \<Rightarrow> bytes"
    and wsize :: nat
    and valid :: "'a \<Rightarrow> bool"
  assumes layout_length: "valid x \<Longrightarrow> length (layout x) = wsize"
    and ser_layout: "valid x \<Longrightarrow> p + wsize \<le> length b \<Longrightarrow> ser x b p = Some (patch b p (layout x))"
    and deser_layout: "valid x \<Longrightarrow> located b p (layout x) \<Longrightarrow> deser b p = Some x"
begin

lemma ser_deser:
  assumes "valid x" and "p + wsize \<le> length b"
  shows "\<exists>b'. ser x b p = Some b' \<and> length b' = length b \<and> deser b' p = Some x"
  using assms by (simp add: ser_layout layout_length deser_layout located_patch)

lemma ser_frame:
  assumes "valid x" and "p + wsize \<le> length b" and "ser x b p = Some b'"
    and "i < p \<or> p + wsize \<le> i"
  shows "b' ! i = b ! i"
proof -
  have "b' = patch b p (layout x)" using assms by (simp add: ser_layout)
  then show ?thesis
    using assms by (auto simp: patch_def nth_append layout_length min_absorb2)
qed

lemma ser_exact:
  assumes "valid x" and "length b = wsize"
  shows "ser x b 0 = Some (layout x)"
  using assms by (simp add: ser_layout patch_whole layout_length)

lemma layout_inj:
  assumes "valid x" and "valid y" and "layout x = layout y"
  shows "x = y"
proof -
  have "located (layout x) 0 (layout x)" by (simp add: located_def)
  with assms have "Some x = Some y" by (metis deser_layout)
  then show ?thesis by simp
qed

lemma located_table:
  assumes "\<forall>x \<in> set xs. valid x" and "located b p (concat (map layout xs))" and "i < length xs"
  shows "located b (p + i * wsize) (layout (xs ! i))"
  using assms
proof (induction xs arbitrary: p i)
  case Nil
  then show ?case by simp
next
  case (Cons x xs)
  show ?case
  proof (cases i)
    case 0
    with Cons.prems show ?thesis by (simp add: located_append)
  next
    case (Suc j)
    from Cons.prems have "located b (p + wsize) (concat (map layout xs))"
      by (simp add: located_append layout_length)
    with Cons.prems Suc have "located b (p + wsize + j * wsize) (layout (xs ! j))"
      by (intro Cons.IH) simp_all
    with Suc show ?thesis by (simp add: add.assoc)
  qed
qed

lemma deser_table:
  assumes "\<forall>x \<in> set xs. valid x" and "located b p (concat (map layout xs))" and "i < length xs"
  shows "deser b (p + i * wsize) = Some (xs ! i)"
  using assms located_table [OF assms] by (simp add: deser_layout)

lemma table_length:
  "\<forall>x \<in> set xs. valid x \<Longrightarrow> length (concat (map layout xs)) = length xs * wsize"
  by (induction xs) (simp_all add: layout_length)

end

text \<open>A pair whose \<open>Deserialize\<close> fails on nothing but a buffer that is too short.\<close>

locale range_codec = wire_codec +
  assumes deser_total: "p + wsize \<le> length b \<Longrightarrow> \<exists>x. deser b p = Some x"
    and deser_range: "deser b p = Some x \<Longrightarrow> p + wsize \<le> length b"
begin

lemma deser_None_iff: "deser b p = None \<longleftrightarrow> length b < p + wsize"
  using deser_total [of p b] deser_range [of b p] by (metis not_less option.distinct(1) option.exhaust)

end

text \<open>A pair that loses nothing in either direction: what was read is what lies there.\<close>

locale total_codec = range_codec +
  assumes deser_sound: "deser b p = Some x \<Longrightarrow> valid x \<Longrightarrow> located b p (layout x)"
begin

lemma deser_ser:
  assumes "deser b p = Some x" and "valid x" and "length b = wsize" and "p = 0"
  shows "ser x (replicate wsize 0) 0 = Some b"
proof -
  have "located b 0 (layout x)" using assms deser_sound by blast
  then have "layout x = b" using assms by (simp add: located_def layout_length)
  then show ?thesis using assms by (simp add: ser_exact)
qed

end

section \<open>Layouts and the interpretations\<close>

definition FileHeader_layout :: "FileHeader \<Rightarrow> bytes" where
  "FileHeader_layout h = kMagic @ le 4 (fh_version h) @ le 4 (fh_topic_count h)
     @ le 8 (fh_created_at_ns h) @ replicate 8 0"

definition TopicMetaEntry_layout :: "TopicMetaEntry \<Rightarrow> bytes" where
  "TopicMetaEntry_layout e = le 2 (tm_topic_id e) @ le 4 (tm_struct_size e) @ tm_name e"

definition RecordHeader_layout :: "RecordHeader \<Rightarrow> bytes" where
  "RecordHeader_layout h = le 2 (rh_topic_id h) @ le 8 (rh_stamp_ns h) @ le 8 (rh_seq h)"

definition IndexEntry_layout :: "IndexEntry \<Rightarrow> bytes" where
  "IndexEntry_layout e = le 8 (ie_stamp_ns e) @ le 8 (ie_byte_offset e) @ le 2 (ie_topic_id e)"

text \<open>A name array that holds a zero-padded string of at most 31 characters.\<close>

definition padded_name :: "bytes \<Rightarrow> bool" where
  "padded_name nm \<longleftrightarrow> length nm = 32 \<and> 0 \<in> set nm
     \<and> nm = takeWhile (\<lambda>c. c \<noteq> 0) nm @ replicate (32 - length (takeWhile (\<lambda>c. c \<noteq> 0) nm)) 0"

definition FileHeader_accept :: "bytes \<Rightarrow> nat \<Rightarrow> FileHeader option" where
  "FileHeader_accept b p =
     (case FileHeader_Deserialize b p FileHeader_init of Some (True, h) \<Rightarrow> Some h | _ \<Rightarrow> None)"

lemma length_kMagic [simp]: "length kMagic = 8"
  by (simp add: kMagic_def lit_def)

interpretation rh: total_codec RecordHeader_Serialize
  "\<lambda>b p. RecordHeader_Deserialize b p RecordHeader_init" RecordHeader_layout kRecordHeaderWireSize
  "\<lambda>_. True"
proof unfold_locales
  fix x :: RecordHeader and b p
  show "length (RecordHeader_layout x) = kRecordHeaderWireSize"
    by (simp add: RecordHeader_layout_def wire_sizes)
  show "p + kRecordHeaderWireSize \<le> length b \<Longrightarrow>
      RecordHeader_Serialize x b p = Some (patch b p (RecordHeader_layout x))"
    by (simp add: RecordHeader_Serialize_def RecordHeader_layout_def codec_simps patch_append wire_sizes)
  show "located b p (RecordHeader_layout x) \<Longrightarrow>
      RecordHeader_Deserialize b p RecordHeader_init = Some x"
    by (auto simp: RecordHeader_Deserialize_def RecordHeader_layout_def located_append
        RecordHeader_init_def ac_simps dest!: located_intros)
  show "p + kRecordHeaderWireSize \<le> length b \<Longrightarrow>
      \<exists>x. RecordHeader_Deserialize b p RecordHeader_init = Some x"
    using decode_u16_total [of p b] decode_u64_total [of "p + 2" b] decode_u64_total [of "p + 10" b]
    by (auto simp: RecordHeader_Deserialize_def wire_sizes)
  show "RecordHeader_Deserialize b p RecordHeader_init = Some x \<Longrightarrow> located b p (RecordHeader_layout x)"
    by (auto simp: RecordHeader_Deserialize_def RecordHeader_layout_def bind_eq_Some_conv
        decode_u16_iff decode_u64_iff located_append RecordHeader_init_def ac_simps)
  then show "RecordHeader_Deserialize b p RecordHeader_init = Some x \<Longrightarrow>
      p + kRecordHeaderWireSize \<le> length b"
    by (simp add: located_def RecordHeader_layout_def wire_sizes)
qed

interpretation ie: total_codec IndexEntry_Serialize
  "\<lambda>b p. IndexEntry_Deserialize b p IndexEntry_init" IndexEntry_layout kIndexEntryWireSize
  "\<lambda>_. True"
proof unfold_locales
  fix x :: IndexEntry and b p
  show "length (IndexEntry_layout x) = kIndexEntryWireSize"
    by (simp add: IndexEntry_layout_def wire_sizes)
  show "p + kIndexEntryWireSize \<le> length b \<Longrightarrow>
      IndexEntry_Serialize x b p = Some (patch b p (IndexEntry_layout x))"
    by (simp add: IndexEntry_Serialize_def IndexEntry_layout_def codec_simps patch_append wire_sizes)
  show "located b p (IndexEntry_layout x) \<Longrightarrow>
      IndexEntry_Deserialize b p IndexEntry_init = Some x"
    by (auto simp: IndexEntry_Deserialize_def IndexEntry_layout_def located_append
        IndexEntry_init_def ac_simps dest!: located_intros)
  show "p + kIndexEntryWireSize \<le> length b \<Longrightarrow>
      \<exists>x. IndexEntry_Deserialize b p IndexEntry_init = Some x"
    using decode_u64_total [of p b] decode_u64_total [of "p + 8" b] decode_u16_total [of "p + 16" b]
    by (auto simp: IndexEntry_Deserialize_def wire_sizes)
  show "IndexEntry_Deserialize b p IndexEntry_init = Some x \<Longrightarrow> located b p (IndexEntry_layout x)"
    by (auto simp: IndexEntry_Deserialize_def IndexEntry_layout_def bind_eq_Some_conv
        decode_u16_iff decode_u64_iff located_append IndexEntry_init_def ac_simps)
  then show "IndexEntry_Deserialize b p IndexEntry_init = Some x \<Longrightarrow>
      p + kIndexEntryWireSize \<le> length b"
    by (simp add: located_def IndexEntry_layout_def wire_sizes)
qed

interpretation fh: wire_codec FileHeader_Serialize FileHeader_accept FileHeader_layout
  kFileHeaderWireSize "\<lambda>_. True"
proof unfold_locales
  fix x :: FileHeader and b p
  show "length (FileHeader_layout x) = kFileHeaderWireSize"
    by (simp add: FileHeader_layout_def wire_sizes)
  show "p + kFileHeaderWireSize \<le> length b \<Longrightarrow>
      FileHeader_Serialize x b p = Some (patch b p (FileHeader_layout x))"
    by (simp add: FileHeader_Serialize_def FileHeader_layout_def codec_simps mem_write_patch
        patch_append wire_sizes)
  show "located b p (FileHeader_layout x) \<Longrightarrow> FileHeader_accept b p = Some x"
    using located_mem_read [of b p kMagic]
    by (auto simp: FileHeader_accept_def FileHeader_Deserialize_def FileHeader_layout_def
        located_append FileHeader_init_def ac_simps dest!: located_intros)
qed

lemma padded_name_split:
  assumes "padded_name nm"
  obtains s where "nm = s @ replicate (32 - length s) 0" "0 \<notin> set s" "length s < 32"
proof -
  let ?s = "takeWhile (\<lambda>c. c \<noteq> 0) nm"
  have "c_string nm = Some ?s" using assms by (simp add: padded_name_def c_string_def)
  then have "0 \<notin> set ?s" "length ?s < 32"
    using c_string_no_nul [of nm ?s] assms by (simp_all add: padded_name_def)
  with assms show thesis by (intro that [of ?s]) (simp_all add: padded_name_def)
qed

lemma c_strlen_padded:
  assumes "0 \<notin> set s" and "length s < 32"
  shows "c_strlen (s @ replicate (32 - length s) 0) = Some (length s)"
    and "c_string (s @ replicate (32 - length s) 0) = Some s"
    and "padded_name (s @ replicate (32 - length s) 0)"
proof -
  obtain m where m: "32 - length s = Suc m" using assms(2) by (cases "32 - length s") auto
  show "c_strlen (s @ replicate (32 - length s) 0) = Some (length s)"
    and "c_string (s @ replicate (32 - length s) 0) = Some s"
    using assms by (simp_all add: m c_strlen_pad c_string_pad)
  have "takeWhile (\<lambda>c. c \<noteq> 0) (s @ replicate (32 - length s) 0) = s"
    using assms(1) by (simp add: m takeWhile_no_nul)
  then show "padded_name (s @ replicate (32 - length s) 0)"
    using assms(2) by (simp add: padded_name_def)
qed

interpretation tm: total_codec TopicMetaEntry_Serialize
  "\<lambda>b p. TopicMetaEntry_Deserialize b p TopicMetaEntry_init" TopicMetaEntry_layout kTopicMetaWireSize
  "\<lambda>e. padded_name (tm_name e)"
proof unfold_locales
  fix x :: TopicMetaEntry and b p
  show "padded_name (tm_name x) \<Longrightarrow> length (TopicMetaEntry_layout x) = kTopicMetaWireSize"
    by (simp add: TopicMetaEntry_layout_def wire_sizes padded_name_def)
  show "TopicMetaEntry_Serialize x b p = Some (patch b p (TopicMetaEntry_layout x))"
    if v: "padded_name (tm_name x)" and len: "p + kTopicMetaWireSize \<le> length b"
  proof -
    obtain s where s: "tm_name x = s @ replicate (32 - length s) 0" "0 \<notin> set s" "length s < 32"
      using v by (rule padded_name_split)
    then show ?thesis
      using len patch_overwrite [of "p + 6" p "le 2 (tm_topic_id x) @ le 4 (tm_struct_size x)" s
          "replicate 32 0" b]
      by (simp add: TopicMetaEntry_Serialize_def TopicMetaEntry_layout_def codec_simps
          mem_write_patch mem_read_def patch_append wire_sizes c_strlen_padded)
  qed
  show "located b p (TopicMetaEntry_layout x) \<Longrightarrow> padded_name (tm_name x) \<Longrightarrow>
      TopicMetaEntry_Deserialize b p TopicMetaEntry_init = Some x"
    using located_mem_read [of b "p + 6" "tm_name x"]
    by (auto simp: TopicMetaEntry_Deserialize_def TopicMetaEntry_layout_def located_append
        TopicMetaEntry_init_def padded_name_def mem_write_patch patch_whole ac_simps
        dest!: located_intros)
  show "p + kTopicMetaWireSize \<le> length b \<Longrightarrow>
      \<exists>x. TopicMetaEntry_Deserialize b p TopicMetaEntry_init = Some x"
    using decode_u16_total [of p b] decode_u32_total [of "p + 2" b]
    by (auto simp: TopicMetaEntry_Deserialize_def wire_sizes mem_read_eq mem_write_def)
  have *: "located b p (TopicMetaEntry_layout x) \<and> length (tm_name x) = 32"
    if "TopicMetaEntry_Deserialize b p TopicMetaEntry_init = Some x"
    using that by (auto simp: TopicMetaEntry_Deserialize_def TopicMetaEntry_layout_def bind_eq_Some_conv
        decode_u16_iff decode_u32_iff located_append TopicMetaEntry_init_def mem_write_def patch_whole add.commute [of 6 p]
        dest!: mem_read_Some split: if_splits)
  then show "TopicMetaEntry_Deserialize b p TopicMetaEntry_init = Some x \<Longrightarrow>
      padded_name (tm_name x) \<Longrightarrow> located b p (TopicMetaEntry_layout x)" by simp
  show "TopicMetaEntry_Deserialize b p TopicMetaEntry_init = Some x \<Longrightarrow>
      p + kTopicMetaWireSize \<le> length b"
    using * by (simp add: located_def TopicMetaEntry_layout_def wire_sizes)
qed

section \<open>Records\<close>

text \<open>A record on disk: the header of its entry followed by the payload, with no length field.\<close>

definition entry_header :: "entry \<Rightarrow> RecordHeader" where
  "entry_header e = (case e of (t, st, sq, pl) \<Rightarrow> \<lparr>rh_topic_id = t, rh_stamp_ns = st, rh_seq = sq\<rparr>)"

definition entry_payload :: "entry \<Rightarrow> bytes" where
  "entry_payload e = (case e of (t, st, sq, pl) \<Rightarrow> pl)"

definition record_bytes :: "entry \<Rightarrow> bytes" where
  "record_bytes e = RecordHeader_layout (entry_header e) @ entry_payload e"

abbreviation records_bytes :: "entry list \<Rightarrow> bytes" where
  "records_bytes es \<equiv> concat (map record_bytes es)"

lemma length_record_bytes: "length (record_bytes e) = kRecordHeaderWireSize + length (entry_payload e)"
  by (simp add: record_bytes_def rh.layout_length)

text \<open>The integer helpers are little-endian on every host and lose nothing: byte \<open>i\<close> of the stored value
  is bits \<open>8 i\<close> to \<open>8 i + 7\<close>, and reading back gives the value.\<close>

lemma integers_exact:
  assumes "p + 8 \<le> length b"
  shows "(\<exists>b'. encode_u16 b p v16 = Some b' \<and> decode_u16 b' p = Some v16
        \<and> (\<forall>i < 2. b' ! (p + i) = ucast (drop_bit (8 * i) v16)))
    \<and> (\<exists>b'. encode_u32 b p v32 = Some b' \<and> decode_u32 b' p = Some v32
        \<and> (\<forall>i < 4. b' ! (p + i) = ucast (drop_bit (8 * i) v32)))
    \<and> (\<exists>b'. encode_u64 b p v64 = Some b' \<and> decode_u64 b' p = Some v64
        \<and> (\<forall>i < 8. b' ! (p + i) = ucast (drop_bit (8 * i) v64)))"
proof -
  have nth: "patch b p xs ! (p + i) = xs ! i" if "p + length xs \<le> length b" "i < length xs" for xs i
    using that by (simp add: patch_def nth_append)
  from assms show ?thesis
    by (simp add: codec_simps nth le_nth decode_u16_located decode_u32_located decode_u64_located located_patch)
qed

section \<open>Properties\<close>

text \<open>C30: The format round-trips at any offset of any buffer. The integer helpers store little-endian on every
  host and read back what was stored; each structure's \<open>Serialize\<close> writes exactly its own
  bytes and leaves the rest of the buffer alone, and \<open>Deserialize\<close> gives the structure back. For a topic
  metadata entry this needs a zero-padded name of at most 31 characters, which then comes back as the C string
  it was.\<close>

theorem wire_roundtrip:
  assumes "p + 38 \<le> length b" and "0 \<notin> set nm" and "length nm < 32"
    and "te = \<lparr>tm_topic_id = tid, tm_struct_size = n, tm_name = nm @ replicate (32 - length nm) 0\<rparr>"
  shows "(\<exists>b'. FileHeader_Serialize fh b p = Some b' \<and> FileHeader_Deserialize b' p FileHeader_init = Some (True, fh)
        \<and> (\<forall>i. i < p \<or> p + 32 \<le> i \<longrightarrow> b' ! i = b ! i))
    \<and> (\<exists>b'. RecordHeader_Serialize rh b p = Some b' \<and> RecordHeader_Deserialize b' p RecordHeader_init = Some rh
        \<and> (\<forall>i. i < p \<or> p + 18 \<le> i \<longrightarrow> b' ! i = b ! i))
    \<and> (\<exists>b'. IndexEntry_Serialize ie b p = Some b' \<and> IndexEntry_Deserialize b' p IndexEntry_init = Some ie
        \<and> (\<forall>i. i < p \<or> p + 18 \<le> i \<longrightarrow> b' ! i = b ! i))
    \<and> (\<exists>b'. TopicMetaEntry_Serialize te b p = Some b' \<and> TopicMetaEntry_Deserialize b' p TopicMetaEntry_init = Some te
        \<and> c_string (tm_name te) = Some nm \<and> (\<forall>i. i < p \<or> p + 38 \<le> i \<longrightarrow> b' ! i = b ! i))
    \<and> (\<exists>b'. encode_u16 b p v16 = Some b' \<and> decode_u16 b' p = Some v16
        \<and> (\<forall>i < 2. b' ! (p + i) = ucast (drop_bit (8 * i) v16)))
    \<and> (\<exists>b'. encode_u32 b p v32 = Some b' \<and> decode_u32 b' p = Some v32
        \<and> (\<forall>i < 4. b' ! (p + i) = ucast (drop_bit (8 * i) v32)))
    \<and> (\<exists>b'. encode_u64 b p v64 = Some b' \<and> decode_u64 b' p = Some v64
        \<and> (\<forall>i < 8. b' ! (p + i) = ucast (drop_bit (8 * i) v64)))"
proof -
  have accept: "FileHeader_accept c q = Some x \<Longrightarrow> FileHeader_Deserialize c q FileHeader_init = Some (True, x)" for c q x
    by (auto simp: FileHeader_accept_def split: option.splits bool.splits)
  have fit: "p + kFileHeaderWireSize \<le> length b" "p + kRecordHeaderWireSize \<le> length b" "p + kIndexEntryWireSize \<le> length b"
    "p + kTopicMetaWireSize \<le> length b"
    using assms by (simp_all add: wire_sizes)
  have "\<exists>b'. FileHeader_Serialize fh b p = Some b' \<and> FileHeader_Deserialize b' p FileHeader_init = Some (True, fh)
        \<and> (\<forall>i. i < p \<or> p + 32 \<le> i \<longrightarrow> b' ! i = b ! i)"
    using fh.ser_deser [OF TrueI fit(1), of fh] fh.ser_frame [OF TrueI fit(1)] accept by (auto simp: wire_sizes)
  moreover have "\<exists>b'. RecordHeader_Serialize rh b p = Some b' \<and> RecordHeader_Deserialize b' p RecordHeader_init = Some rh
        \<and> (\<forall>i. i < p \<or> p + 18 \<le> i \<longrightarrow> b' ! i = b ! i)"
    using rh.ser_deser [OF TrueI fit(2), of rh] rh.ser_frame [OF TrueI fit(2)] by (auto simp: wire_sizes)
  moreover have "\<exists>b'. IndexEntry_Serialize ie b p = Some b' \<and> IndexEntry_Deserialize b' p IndexEntry_init = Some ie
        \<and> (\<forall>i. i < p \<or> p + 18 \<le> i \<longrightarrow> b' ! i = b ! i)"
    using ie.ser_deser [OF TrueI fit(3), of ie] ie.ser_frame [OF TrueI fit(3)] by (auto simp: wire_sizes)
  moreover have valid: "padded_name (tm_name te)" "c_string (tm_name te) = Some nm" using c_strlen_padded [OF assms(2,3)] by (simp_all add: assms(4))
  then have "\<exists>b'. TopicMetaEntry_Serialize te b p = Some b' \<and> TopicMetaEntry_Deserialize b' p TopicMetaEntry_init = Some te
        \<and> c_string (tm_name te) = Some nm \<and> (\<forall>i. i < p \<or> p + 38 \<le> i \<longrightarrow> b' ! i = b ! i)"
    using tm.ser_deser [OF valid(1) fit(4)] tm.ser_frame [OF valid(1) fit(4)] by (auto simp: wire_sizes)
  moreover have "p + 8 \<le> length b" using assms(1) by simp
  note integers_exact [OF this, of v16 v32 v64]
  ultimately show ?thesis by blast
qed

theorem wire_roundtrip_witness:
  "(\<exists>b'. RecordHeader_Serialize \<lparr>rh_topic_id = 4, rh_stamp_ns = 10, rh_seq = 1\<rparr> (replicate 41 255) 3 = Some b'
     \<and> RecordHeader_Deserialize b' 3 RecordHeader_init = Some \<lparr>rh_topic_id = 4, rh_stamp_ns = 10, rh_seq = 1\<rparr>)
   \<and> (\<exists>b'. TopicMetaEntry_Serialize \<lparr>tm_topic_id = 4, tm_struct_size = 22, tm_name = [47, 106] @ replicate (32 - length [47, 106]) 0\<rparr>
       (replicate 41 255) 3 = Some b'
     \<and> TopicMetaEntry_Deserialize b' 3 TopicMetaEntry_init
       = Some \<lparr>tm_topic_id = 4, tm_struct_size = 22, tm_name = [47, 106] @ replicate (32 - length [47, 106]) 0\<rparr>)"
  using wire_roundtrip [OF _ _ _ refl, of 3 "replicate 41 255" "[47, 106]" FileHeader_init
      "\<lparr>rh_topic_id = 4, rh_stamp_ns = 10, rh_seq = 1\<rparr>" IndexEntry_init 4 22, of 0 0 0]
  by (auto simp del: append.simps)

end
