(* ===== verification/Mpsc_Ring_Buffer.thy ===== *)
theory Mpsc_Ring_Buffer
  imports Wire_Format "HOL-Library.Multiset"
begin

text \<open>
  The bounded ring buffer of \<open>include/chrono_cap/mpsc_ring_buffer.hpp\<close>, each operation taken as
  one atomic action (\<open>Mpsc_Concurrent\<close> splits them into accesses). \<open>Capacity\<close> is the template parameter. Shown here:
  indices stay inside the slot array for every value of the wrapping 64-bit counters; the ring never
  touches memory outside a slot; while no push meets a full ring it is a bounded FIFO queue
  (locale \<open>bounded_fifo\<close> and its interpretation); accepted records are neither lost nor duplicated
  nor altered whatever the sequence of calls; and after one rejected push the FIFO promise is gone.
\<close>

section \<open>Data\<close>

record PoppedRecord =
  pr_topic_id :: u16
  pr_stamp_ns :: u64
  pr_seq :: u64
  pr_payload_len :: u32
  pr_payload :: bytes  \<comment> \<open>\<open>std::uint8_t payload[kMaxPayloadBytes]\<close>\<close>

definition PoppedRecord_init :: PoppedRecord where
  "PoppedRecord_init = \<lparr>pr_topic_id = 0, pr_stamp_ns = 0, pr_seq = 0, pr_payload_len = 0,
     pr_payload = replicate kMaxPayloadBytes 0\<rparr>"

record Slot =
  sl_ready :: bool
  sl_topic_id :: u16
  sl_stamp_ns :: u64
  sl_seq :: u64
  sl_payload_len :: u32
  sl_payload :: bytes  \<comment> \<open>\<open>std::uint8_t payload[kMaxPayloadBytes]\<close>\<close>

definition Slot_init :: Slot where
  "Slot_init = \<lparr>sl_ready = False, sl_topic_id = 0, sl_stamp_ns = 0, sl_seq = 0, sl_payload_len = 0,
     sl_payload = replicate kMaxPayloadBytes 0\<rparr>"

record MpscRingBuffer =
  rb_slots :: "Slot list"
  rb_write_index :: u64
  rb_read_index :: u64
  rb_dropped_count :: u64

definition MpscRingBuffer_init :: "nat \<Rightarrow> MpscRingBuffer" where
  "MpscRingBuffer_init Capacity = \<lparr>rb_slots = replicate Capacity Slot_init, rb_write_index = 0,
     rb_read_index = 0, rb_dropped_count = 0\<rparr>"

text \<open>The \<open>static_assert\<close> on the template parameter (a \<open>std::size_t\<close>).\<close>

definition Capacity_ok :: "u64 \<Rightarrow> bool" where
  "Capacity_ok Capacity \<longleftrightarrow> Capacity AND (Capacity - 1) = 0"

section \<open>Operations\<close>

definition slot_index :: "nat \<Rightarrow> u64 \<Rightarrow> nat" where
  "slot_index Capacity idx = unat (idx AND (word_of_nat Capacity - 1))"

text \<open>The stores of one producer into the slot it claimed, before the release store.\<close>

definition fill_slot :: "u16 \<Rightarrow> u64 \<Rightarrow> u64 \<Rightarrow> bytes \<Rightarrow> u32 \<Rightarrow> Slot \<Rightarrow> Slot option" where
  "fill_slot topic_id stamp_ns seq data len slot = do {
     src \<leftarrow> mem_read data 0 (unat len);
     pl \<leftarrow> mem_write (sl_payload slot) 0 src;
     Some (slot\<lparr>sl_topic_id := topic_id, sl_stamp_ns := stamp_ns, sl_seq := seq,
       sl_payload_len := len, sl_payload := pl\<rparr>) }"

definition TryPush :: "nat \<Rightarrow> u16 \<Rightarrow> u64 \<Rightarrow> u64 \<Rightarrow> bytes \<Rightarrow> u32 \<Rightarrow> MpscRingBuffer
    \<Rightarrow> (bool \<times> MpscRingBuffer) option" where
  "TryPush Capacity topic_id stamp_ns seq data len rb =
     (if unat len > kMaxPayloadBytes then Some (False, rb)
      else
        let idx = rb_write_index rb;
            rb = rb\<lparr>rb_write_index := idx + 1\<rparr>;
            i = slot_index Capacity idx
        in if \<not> i < length (rb_slots rb) then None
           else let slot = rb_slots rb ! i
             in if sl_ready slot
                then Some (False, rb\<lparr>rb_dropped_count := rb_dropped_count rb + 1\<rparr>)
                else do {
                  slot \<leftarrow> fill_slot topic_id stamp_ns seq data len slot;
                  Some (True, rb\<lparr>rb_slots := (rb_slots rb)[i := slot\<lparr>sl_ready := True\<rparr>]\<rparr>) })"

text \<open>The loads of the consumer out of a ready slot.\<close>

definition copy_slot :: "Slot \<Rightarrow> PoppedRecord \<Rightarrow> PoppedRecord option" where
  "copy_slot slot out = do {
     src \<leftarrow> mem_read (sl_payload slot) 0 (unat (sl_payload_len slot));
     pl \<leftarrow> mem_write (pr_payload out) 0 src;
     Some (out\<lparr>pr_topic_id := sl_topic_id slot, pr_stamp_ns := sl_stamp_ns slot, pr_seq := sl_seq slot,
       pr_payload_len := sl_payload_len slot, pr_payload := pl\<rparr>) }"

definition TryPop :: "nat \<Rightarrow> PoppedRecord \<Rightarrow> MpscRingBuffer
    \<Rightarrow> (bool \<times> PoppedRecord \<times> MpscRingBuffer) option" where
  "TryPop Capacity out rb =
     (let i = slot_index Capacity (rb_read_index rb)
      in if \<not> i < length (rb_slots rb) then None
         else let slot = rb_slots rb ! i
           in if \<not> sl_ready slot then Some (False, out, rb)
              else do {
                out \<leftarrow> copy_slot slot out;
                Some (True, out, rb\<lparr>rb_slots := (rb_slots rb)[i := slot\<lparr>sl_ready := False\<rparr>],
                  rb_read_index := rb_read_index rb + 1\<rparr>) })"

definition DroppedCount :: "MpscRingBuffer \<Rightarrow> u64" where
  "DroppedCount rb = rb_dropped_count rb"

section \<open>Indices\<close>

abbreviation pos :: "nat \<Rightarrow> u64 \<Rightarrow> nat" where
  "pos k w \<equiv> unat w mod 2 ^ k"

lemma slot_index_pow2:
  assumes "k < 64"
  shows "slot_index (2 ^ k) w = pos k w"
proof -
  have "(word_of_nat (2 ^ k) - 1 :: u64) = mask k"
    by (simp add: mask_eq_exp_minus_1)
  then have "slot_index (2 ^ k) w = unat (take_bit k w)"
    by (simp add: slot_index_def take_bit_eq_mask)
  also have "\<dots> = take_bit k (unat w)"
    by (simp only: unsigned_take_bit_eq)
  also have "\<dots> = pos k w"
    by (simp only: take_bit_eq_mod)
  finally show ?thesis .
qed

lemma pos_less [simp]: "pos k w < 2 ^ k"
  by simp

lemma pos_add:
  assumes "k < 64"
  shows "pos k (r + word_of_nat j) = (unat r + j) mod 2 ^ k"
proof -
  have dvd: "(2::nat) ^ k dvd 2 ^ 64"
    using assms by (intro le_imp_power_dvd) simp
  have "unat (r + word_of_nat j) = (unat r + j) mod 2 ^ 64"
    by (simp add: unat_word_ariths unsigned_of_nat take_bit_eq_mod mod_simps)
  then show ?thesis
    using dvd by (simp add: mod_mod_cancel)
qed

lemma pos_inj:
  assumes "k < 64" and "i < 2 ^ k" and "j < 2 ^ k"
    and "pos k (r + word_of_nat i) = pos k (r + word_of_nat j)"
  shows "i = j"
proof -
  from assms have "(unat r + i) mod 2 ^ k = (unat r + j) mod 2 ^ k"
    by (simp add: pos_add)
  then have "i mod 2 ^ k = j mod 2 ^ k"
    by (simp add: nat_mod_eq_iff)
  with assms show ?thesis by simp
qed

lemma pos_surj:
  assumes "k < 64" and "i < 2 ^ k"
  shows "\<exists>j < 2 ^ k. pos k (r + word_of_nat j) = i"
proof -
  let ?j = "(i + (2 ^ k - unat r mod 2 ^ k)) mod 2 ^ k"
  have "(unat r + ?j) mod 2 ^ k = (unat r mod 2 ^ k + (i + (2 ^ k - unat r mod 2 ^ k))) mod 2 ^ k"
    by (simp add: mod_simps)
  also have "\<dots> = (i + 2 ^ k) mod 2 ^ k"
  proof -
    have "pos k r < 2 ^ k" by simp
    then have "pos k r + (i + (2 ^ k - pos k r)) = i + 2 ^ k" by linarith
    then show ?thesis by simp
  qed
  also have "\<dots> = i" using assms(2) by simp
  finally show ?thesis
    using assms(1) by (intro exI [of _ ?j]) (simp add: pos_add)
qed


section \<open>Well-formedness\<close>

text \<open>What a slot's fields mean: the record it carries.\<close>

definition slot_entry :: "Slot \<Rightarrow> entry" where
  "slot_entry s = (sl_topic_id s, sl_stamp_ns s, sl_seq s, take (unat (sl_payload_len s)) (sl_payload s))"

definition popped_entry :: "PoppedRecord \<Rightarrow> entry" where
  "popped_entry r = (pr_topic_id r, pr_stamp_ns r, pr_seq r, take (unat (pr_payload_len r)) (pr_payload r))"

definition slot_wf :: "Slot \<Rightarrow> bool" where
  "slot_wf s \<longleftrightarrow> length (sl_payload s) = kMaxPayloadBytes \<and> unat (sl_payload_len s) \<le> kMaxPayloadBytes"

definition ring_wf :: "nat \<Rightarrow> MpscRingBuffer \<Rightarrow> bool" where
  "ring_wf k rb \<longleftrightarrow> length (rb_slots rb) = 2 ^ k \<and> (\<forall>s \<in> set (rb_slots rb). slot_wf s)"

definition out_wf :: "PoppedRecord \<Rightarrow> bool" where
  "out_wf r \<longleftrightarrow> length (pr_payload r) = kMaxPayloadBytes"

lemma out_wf_init [simp]: "out_wf PoppedRecord_init"
  by (simp add: out_wf_def PoppedRecord_init_def)

lemma ring_wf_init: "ring_wf k (MpscRingBuffer_init (2 ^ k))"
  by (simp add: ring_wf_def MpscRingBuffer_init_def slot_wf_def Slot_init_def)

lemma fill_slot_wf:
  assumes "slot_wf s" and "unat len \<le> kMaxPayloadBytes" and "unat len \<le> length data"
  obtains s' where "fill_slot t st sq data len s = Some s'" "slot_wf s'"
    "slot_entry s' = (t, st, sq, take (unat len) data)" "sl_ready s' = sl_ready s"
  using assms
  by (simp add: fill_slot_def mem_read_def mem_write_def slot_wf_def slot_entry_def patch_def)

lemma copy_slot_wf:
  assumes "slot_wf s" and "out_wf out"
  obtains r where "copy_slot s out = Some r" "popped_entry r = slot_entry s" "out_wf r"
    "unat (pr_payload_len r) \<le> kMaxPayloadBytes"
  using assms
  by (simp add: copy_slot_def mem_read_def mem_write_def slot_wf_def slot_entry_def popped_entry_def
      out_wf_def patch_def)

text \<open>Every call, in closed form, on a well-formed ring.\<close>

lemma TryPush_cases:
  assumes "k < 64" and "ring_wf k rb" and "unat len \<le> length data"
  shows "\<exists>ok rb'. TryPush (2 ^ k) t st sq data len rb = Some (ok, rb') \<and> ring_wf k rb' \<and>
     rb_read_index rb' = rb_read_index rb \<and>
     (if kMaxPayloadBytes < unat len then \<not> ok \<and> rb' = rb
      else if sl_ready (rb_slots rb ! pos k (rb_write_index rb))
      then \<not> ok \<and> rb' = rb\<lparr>rb_write_index := rb_write_index rb + 1,
             rb_dropped_count := rb_dropped_count rb + 1\<rparr>
      else ok \<and> (\<exists>s. sl_ready s \<and> slot_wf s \<and> slot_entry s = (t, st, sq, take (unat len) data) \<and>
             rb' = rb\<lparr>rb_write_index := rb_write_index rb + 1,
               rb_slots := (rb_slots rb)[pos k (rb_write_index rb) := s]\<rparr>))"
proof -
  let ?i = "pos k (rb_write_index rb)"
  have i: "?i < length (rb_slots rb)" using assms(2) by (simp add: ring_wf_def)
  then have wf: "slot_wf (rb_slots rb ! ?i)" using assms(2) by (simp add: ring_wf_def)
  show ?thesis
  proof (cases "kMaxPayloadBytes < unat len \<or> sl_ready (rb_slots rb ! ?i)")
    case True
    then show ?thesis
      using assms i by (auto simp: TryPush_def Let_def slot_index_pow2 ring_wf_def)
  next
    case False
    then have "unat len \<le> kMaxPayloadBytes" by simp
    with wf assms(3) obtain s where s: "fill_slot t st sq data len (rb_slots rb ! ?i) = Some s"
      "slot_wf s" "slot_entry s = (t, st, sq, take (unat len) data)"
      by (auto elim: fill_slot_wf)
    let ?s = "s\<lparr>sl_ready := True\<rparr>"
    have "slot_wf ?s" "slot_entry ?s = slot_entry s" "sl_ready ?s"
      using s(2) by (simp_all add: slot_wf_def slot_entry_def)
    moreover have "ring_wf k (rb\<lparr>rb_write_index := rb_write_index rb + 1,
        rb_slots := (rb_slots rb)[?i := ?s]\<rparr>)"
      using assms(2) \<open>slot_wf ?s\<close>
      by (auto simp: ring_wf_def dest!: set_update_subset_insert [THEN subsetD])
    ultimately show ?thesis
      using assms(1) False i s(1,3)
      by (auto simp: TryPush_def Let_def slot_index_pow2 not_less intro!: exI [of _ ?s])
  qed
qed

lemma TryPop_cases:
  assumes "k < 64" and "ring_wf k rb" and "out_wf out"
  shows "\<exists>ok out' rb'. TryPop (2 ^ k) out rb = Some (ok, out', rb') \<and> ring_wf k rb' \<and> out_wf out' \<and>
     (if sl_ready (rb_slots rb ! pos k (rb_read_index rb))
      then ok \<and> popped_entry out' = slot_entry (rb_slots rb ! pos k (rb_read_index rb)) \<and>
        unat (pr_payload_len out') \<le> kMaxPayloadBytes \<and>
        rb' = rb\<lparr>rb_slots := (rb_slots rb)[pos k (rb_read_index rb) :=
                   (rb_slots rb ! pos k (rb_read_index rb))\<lparr>sl_ready := False\<rparr>],
                 rb_read_index := rb_read_index rb + 1\<rparr>
      else \<not> ok \<and> out' = out \<and> rb' = rb)"
proof -
  let ?i = "pos k (rb_read_index rb)"
  have i: "?i < length (rb_slots rb)" using assms(2) by (simp add: ring_wf_def)
  then have wf: "slot_wf (rb_slots rb ! ?i)" using assms(2) by (simp add: ring_wf_def)
  show ?thesis
  proof (cases "sl_ready (rb_slots rb ! ?i)")
    case False
    then show ?thesis
      using assms i by (auto simp: TryPop_def Let_def slot_index_pow2)
  next
    case True
    obtain r where r: "copy_slot (rb_slots rb ! ?i) out = Some r" "out_wf r"
      "popped_entry r = slot_entry (rb_slots rb ! ?i)" "unat (pr_payload_len r) \<le> kMaxPayloadBytes"
      using wf assms(3) by (rule copy_slot_wf)
    let ?s = "(rb_slots rb ! ?i)\<lparr>sl_ready := False\<rparr>"
    have "slot_wf ?s" using wf by (simp add: slot_wf_def)
    then have "ring_wf k (rb\<lparr>rb_slots := (rb_slots rb)[?i := ?s], rb_read_index := rb_read_index rb + 1\<rparr>)"
      using assms(2) by (auto simp: ring_wf_def dest!: set_update_subset_insert [THEN subsetD])
    with r True i assms(1) show ?thesis
      by (auto simp: TryPop_def Let_def slot_index_pow2)
  qed
qed


section \<open>The window of ready slots\<close>

text \<open>
  Seen from the read index, the ready slots are the first \<open>n\<close> ones. This does not mention the
  write index: it survives a rejected push, the link between \<open>n\<close> and the two indices does not.
\<close>

definition window :: "nat \<Rightarrow> MpscRingBuffer \<Rightarrow> nat \<Rightarrow> bool" where
  "window k rb n \<longleftrightarrow> n \<le> 2 ^ k \<and>
     (\<forall>j < 2 ^ k. sl_ready (rb_slots rb ! pos k (rb_read_index rb + word_of_nat j)) \<longleftrightarrow> j < n)"

definition window_entries :: "nat \<Rightarrow> MpscRingBuffer \<Rightarrow> nat \<Rightarrow> entry list" where
  "window_entries k rb n =
     map (\<lambda>j. slot_entry (rb_slots rb ! pos k (rb_read_index rb + word_of_nat j))) [0..<n]"

lemma length_window_entries [simp]: "length (window_entries k rb n) = n"
  by (simp add: window_entries_def)

lemma window_0_entries [simp]: "window_entries k rb 0 = []"
  by (simp add: window_entries_def)

lemma window_push:
  assumes k: "k < 64" and wf: "ring_wf k rb" and win: "window k rb n" and n: "n < 2 ^ k"
    and w: "rb_write_index rb = rb_read_index rb + word_of_nat n" and s: "sl_ready s"
    and rb': "rb' = rb\<lparr>rb_write_index := w', rb_slots := (rb_slots rb)[pos k (rb_write_index rb) := s]\<rparr>"
  shows "window k rb' (Suc n)" and "window_entries k rb' (Suc n) = window_entries k rb n @ [slot_entry s]"
proof -
  let ?r = "rb_read_index rb"
  have len: "length (rb_slots rb) = 2 ^ k" using wf by (simp add: ring_wf_def)
  have slot: "rb_slots rb' ! pos k (?r + word_of_nat j)
      = (if j = n then s else rb_slots rb ! pos k (?r + word_of_nat j))" if "j < 2 ^ k" for j
  proof (cases "j = n")
    case True
    then show ?thesis by (simp add: rb' w len)
  next
    case False
    then have "pos k (?r + word_of_nat n) \<noteq> pos k (?r + word_of_nat j)"
      using pos_inj [OF k that n, of ?r] by auto
    with False show ?thesis by (simp add: rb' w nth_list_update_neq)
  qed
  have r: "rb_read_index rb' = ?r" by (simp add: rb')
  show "window k rb' (Suc n)"
    using win n s by (auto simp: window_def r slot less_Suc_eq)
  show "window_entries k rb' (Suc n) = window_entries k rb n @ [slot_entry s]"
    using n by (auto simp: window_entries_def r slot)
qed

lemma window_pop:
  assumes k: "k < 64" and wf: "ring_wf k rb" and win: "window k rb (Suc n)" and s: "\<not> sl_ready s"
    and rb': "rb' = rb\<lparr>rb_slots := (rb_slots rb)[pos k (rb_read_index rb) := s],
       rb_read_index := rb_read_index rb + 1\<rparr>"
  shows "window k rb' n" and "window_entries k rb (Suc n) =
      slot_entry (rb_slots rb ! pos k (rb_read_index rb)) # window_entries k rb' n"
proof -
  let ?r = "rb_read_index rb"
  have len: "length (rb_slots rb) = 2 ^ k" using wf by (simp add: ring_wf_def)
  have n: "Suc n \<le> 2 ^ k" using win by (simp add: window_def)
  have r: "rb_read_index rb' + word_of_nat j = ?r + word_of_nat (Suc j)" for j
    by (simp add: rb' algebra_simps)
  have old: "rb_slots rb' ! pos k (?r + word_of_nat (Suc j)) = rb_slots rb ! pos k (?r + word_of_nat (Suc j))"
    if "Suc j < 2 ^ k" for j
  proof -
    have "pos k ?r \<noteq> pos k (?r + word_of_nat (Suc j))"
      using pos_inj [OF k that, of 0 ?r] by (auto simp del: of_nat_Suc)
    then show ?thesis by (simp add: rb' nth_list_update_neq del: of_nat_Suc)
  qed
  have last: "\<not> sl_ready (rb_slots rb' ! pos k (?r + word_of_nat (Suc j)))" if "Suc j = 2 ^ k" for j
  proof -
    have "pos k (?r + word_of_nat (Suc j)) = pos k ?r"
      by (simp only: pos_add [OF k] that) simp
    then show ?thesis using s len by (simp add: rb' del: of_nat_Suc)
  qed
  have "sl_ready (rb_slots rb' ! pos k (?r + word_of_nat (Suc j))) = (j < n)" if "j < 2 ^ k" for j
  proof (cases "Suc j = 2 ^ k")
    case True
    then show ?thesis using last n by simp
  next
    case False
    with that have "Suc j < 2 ^ k" by simp
    with win show ?thesis by (simp add: old window_def del: of_nat_Suc)
  qed
  with n show "window k rb' n" by (simp add: window_def r del: of_nat_Suc)
  have "window_entries k rb' n = map (\<lambda>j. slot_entry (rb_slots rb ! pos k (?r + word_of_nat (Suc j)))) [0..<n]"
    using n by (simp add: window_entries_def r old del: of_nat_Suc)
  then show "window_entries k rb (Suc n) = slot_entry (rb_slots rb ! pos k ?r) # window_entries k rb' n"
    by (simp add: window_entries_def map_upt_Suc del: upt_Suc of_nat_Suc)
qed

lemma window_head_ready: "window k rb n \<Longrightarrow> sl_ready (rb_slots rb ! pos k (rb_read_index rb)) \<longleftrightarrow> 0 < n"
  using zero_less_power [of "2::nat" k] by (auto simp: window_def dest: spec [of _ 0])

lemma window_tail_free:
  assumes "k < 64" and "window k rb n" and "rb_write_index rb = rb_read_index rb + word_of_nat n"
  shows "sl_ready (rb_slots rb ! pos k (rb_write_index rb)) \<longleftrightarrow> n = 2 ^ k"
proof (cases "n = 2 ^ k")
  case True
  then have "pos k (rb_write_index rb) = pos k (rb_read_index rb + word_of_nat 0)"
    by (simp only: assms(3) True pos_add [OF assms(1)]) simp
  with True assms(2) show ?thesis by (auto simp: window_head_ready)
next
  case False
  with assms show ?thesis by (auto simp: window_def)
qed


section \<open>The FIFO contract\<close>

text \<open>
  What the writer thread relies on: pushes append, pops remove from the front, and a pop misses
  only when the queue is empty. \<open>ok\<close> says which elements fit.
\<close>

locale bounded_fifo =
  fixes push :: "'e \<Rightarrow> 'q \<Rightarrow> bool \<times> 'q"
    and pop :: "'q \<Rightarrow> ('e \<times> 'q) option"
    and queue :: "'q \<Rightarrow> 'e list"
    and invar :: "'q \<Rightarrow> bool"
    and cap :: nat
    and ok :: "'e \<Rightarrow> bool"
  assumes push_room: "invar q \<Longrightarrow> ok e \<Longrightarrow> length (queue q) < cap \<Longrightarrow>
      \<exists>q'. push e q = (True, q') \<and> invar q' \<and> queue q' = queue q @ [e]"
    and push_full: "invar q \<Longrightarrow> ok e \<Longrightarrow> length (queue q) = cap \<Longrightarrow> \<not> fst (push e q)"
    and pop_empty: "invar q \<Longrightarrow> queue q = [] \<Longrightarrow> pop q = None"
    and pop_front: "invar q \<Longrightarrow> queue q = e # es \<Longrightarrow>
      \<exists>q'. pop q = Some (e, q') \<and> invar q' \<and> queue q' = es"
    and bounded: "invar q \<Longrightarrow> length (queue q) \<le> cap"

text \<open>Pushing a list of elements, and popping until a pop misses (at most \<open>n\<close> times).\<close>

fun push_all :: "('e \<Rightarrow> 'q \<Rightarrow> bool \<times> 'q) \<Rightarrow> 'e list \<Rightarrow> 'q \<Rightarrow> bool list \<times> 'q" where
  "push_all psh [] q = ([], q)"
| "push_all psh (e # es) q =
     (let (b, q1) = psh e q; (bs, q2) = push_all psh es q1 in (b # bs, q2))"

fun pop_upto :: "('q \<Rightarrow> ('e \<times> 'q) option) \<Rightarrow> nat \<Rightarrow> 'q \<Rightarrow> 'e list \<times> 'q" where
  "pop_upto pp 0 q = ([], q)"
| "pop_upto pp (Suc n) q =
     (case pp q of None \<Rightarrow> ([], q) | Some (e, q1) \<Rightarrow> (let (es, q2) = pop_upto pp n q1 in (e # es, q2)))"

context bounded_fifo
begin

lemma push_all_room:
  assumes "invar q" and "\<forall>e \<in> set es. ok e" and "length (queue q) + length es \<le> cap"
  shows "\<exists>q'. push_all push es q = (replicate (length es) True, q') \<and> invar q' \<and> queue q' = queue q @ es"
  using assms
proof (induction es arbitrary: q)
  case Nil
  then show ?case by simp
next
  case (Cons e es)
  then obtain q1 where q1: "push e q = (True, q1)" "invar q1" "queue q1 = queue q @ [e]"
    using push_room [of q e] by auto
  with Cons obtain q2 where "push_all push es q1 = (replicate (length es) True, q2)" "invar q2"
    "queue q2 = queue q1 @ es"
    using Cons.IH [of q1] by auto
  with q1 show ?case by simp
qed

lemma pop_upto_drains:
  assumes "invar q" and "length (queue q) \<le> n"
  shows "\<exists>q'. pop_upto pop n q = (queue q, q') \<and> invar q' \<and> queue q' = []"
  using assms
proof (induction n arbitrary: q)
  case 0
  then show ?case by simp
next
  case (Suc n)
  show ?case
  proof (cases "queue q")
    case Nil
    with Suc.prems show ?thesis by (simp add: pop_empty)
  next
    case (Cons e es)
    then obtain q1 where q1: "pop q = Some (e, q1)" "invar q1" "queue q1 = es"
      using pop_front Suc.prems(1) by blast
    with Suc Cons obtain q2 where "pop_upto pop n q1 = (es, q2)" "invar q2" "queue q2 = []"
      by (metis Suc.IH length_Cons Suc_le_mono)
    with q1 Cons show ?thesis by simp
  qed
qed

end


section \<open>The ring implements the contract\<close>

definition ring_push :: "nat \<Rightarrow> entry \<Rightarrow> MpscRingBuffer \<Rightarrow> bool \<times> MpscRingBuffer" where
  "ring_push k e rb = (case e of (t, st, sq, pl) \<Rightarrow>
     (case TryPush (2 ^ k) t st sq pl (word_of_nat (length pl)) rb of
        Some res \<Rightarrow> res | None \<Rightarrow> (False, rb)))"

definition ring_pop :: "nat \<Rightarrow> MpscRingBuffer \<Rightarrow> (entry \<times> MpscRingBuffer) option" where
  "ring_pop k rb = (case TryPop (2 ^ k) PoppedRecord_init rb of
     Some (ok, r, rb') \<Rightarrow> if ok then Some (popped_entry r, rb') else None | None \<Rightarrow> None)"

definition fits :: "entry \<Rightarrow> bool" where
  "fits e \<longleftrightarrow> (case e of (t, st, sq, pl) \<Rightarrow> length pl \<le> kMaxPayloadBytes)"

definition ring_fill :: "MpscRingBuffer \<Rightarrow> nat" where
  "ring_fill rb = unat (rb_write_index rb - rb_read_index rb)"

definition ring_inv :: "nat \<Rightarrow> MpscRingBuffer \<Rightarrow> bool" where
  "ring_inv k rb \<longleftrightarrow> ring_wf k rb \<and> window k rb (ring_fill rb)"

definition ring_queue :: "nat \<Rightarrow> MpscRingBuffer \<Rightarrow> entry list" where
  "ring_queue k rb = window_entries k rb (ring_fill rb)"

lemma ring_fill_index: "rb_write_index rb = rb_read_index rb + word_of_nat (ring_fill rb)"
  by (simp add: ring_fill_def)

lemma unat_len_small: "n \<le> kMaxPayloadBytes \<Longrightarrow> unat (word_of_nat n :: u32) = n"
  by (simp add: wire_sizes unsigned_of_nat take_bit_eq_mod)

lemma ring_inv_init: "k < 64 \<Longrightarrow> ring_inv k (MpscRingBuffer_init (2 ^ k))"
  using ring_wf_init [of k]
  by (simp add: ring_inv_def) (simp add: window_def ring_fill_def MpscRingBuffer_init_def Slot_init_def)

lemma ring_queue_init: "ring_queue k (MpscRingBuffer_init (2 ^ k)) = []"
  by (simp add: ring_queue_def ring_fill_def MpscRingBuffer_init_def)

lemma ring_push_result:
  assumes "k < 64" and "ring_wf k rb" and "fits (t, st, sq, pl)"
  shows "if sl_ready (rb_slots rb ! pos k (rb_write_index rb))
    then ring_push k (t, st, sq, pl) rb = (False, rb\<lparr>rb_write_index := rb_write_index rb + 1,
             rb_dropped_count := rb_dropped_count rb + 1\<rparr>)
    else \<exists>s. sl_ready s \<and> slot_wf s \<and> slot_entry s = (t, st, sq, pl) \<and>
      ring_push k (t, st, sq, pl) rb = (True, rb\<lparr>rb_write_index := rb_write_index rb + 1,
               rb_slots := (rb_slots rb)[pos k (rb_write_index rb) := s]\<rparr>)"
proof -
  let ?len = "word_of_nat (length pl) :: u32"
  have len: "unat ?len = length pl" "\<not> kMaxPayloadBytes < unat ?len"
    using assms(3) by (simp_all add: fits_def unat_len_small)
  then show ?thesis
    using TryPush_cases [OF assms(1,2), of ?len pl t st sq] by (auto simp: ring_push_def)
qed

lemma ring_push_wf: "k < 64 \<Longrightarrow> ring_wf k rb \<Longrightarrow> fits e \<Longrightarrow> ring_wf k (snd (ring_push k e rb))"
proof -
  assume h: "k < 64" "ring_wf k rb" "fits e"
  obtain t st sq pl where e: "e = (t, st, sq, pl)" by (cases e)
  show "ring_wf k (snd (ring_push k e rb))"
    using ring_push_result [OF h(1,2)] h(2,3) unfolding e
    by (fastforce simp: ring_wf_def split: if_splits dest!: set_update_subset_insert [THEN subsetD])
qed

lemma ring_pop_result:
  assumes "k < 64" and "ring_wf k rb"
  shows "if sl_ready (rb_slots rb ! pos k (rb_read_index rb))
    then ring_pop k rb = Some (slot_entry (rb_slots rb ! pos k (rb_read_index rb)),
       rb\<lparr>rb_slots := (rb_slots rb)[pos k (rb_read_index rb) :=
                   (rb_slots rb ! pos k (rb_read_index rb))\<lparr>sl_ready := False\<rparr>],
                 rb_read_index := rb_read_index rb + 1\<rparr>)
    else ring_pop k rb = None"
  using TryPop_cases [OF assms out_wf_init] by (auto simp: ring_pop_def)

lemma ring_pop_wf:
  assumes "k < 64" and "ring_wf k rb" and "ring_pop k rb = Some (e, rb')"
  shows "ring_wf k rb'"
  using TryPop_cases [OF assms(1,2) out_wf_init] assms(3)
  by (auto simp: ring_pop_def split: if_splits)

lemma ring_fill_push:
  assumes "k < 64" and "ring_fill rb < 2 ^ k"
  shows "ring_fill (rb\<lparr>rb_write_index := rb_write_index rb + 1, rb_slots := ss\<rparr>) = Suc (ring_fill rb)"
proof -
  let ?d = "rb_write_index rb - rb_read_index rb"
  have "(2::nat) ^ k < 2 ^ 64" using assms(1) by (rule power_strict_increasing) simp
  with assms(2) have "Suc (unat ?d) < 2 ^ 64" by (simp add: ring_fill_def)
  then have "unat (1 + ?d) = Suc (unat ?d)"
    by (simp add: unat_word_ariths)
  then have "unat (rb_write_index rb + 1 - rb_read_index rb) = Suc (unat ?d)"
    by (simp add: algebra_simps)
  then show ?thesis by (simp add: ring_fill_def)
qed

lemma ring_fill_pop:
  assumes "ring_fill rb = Suc n"
  shows "ring_fill (rb\<lparr>rb_slots := ss, rb_read_index := rb_read_index rb + 1\<rparr>) = n"
proof -
  let ?d = "rb_write_index rb - rb_read_index rb"
  have "?d \<noteq> 0" using assms by (auto simp: ring_fill_def)
  then have "unat (?d - 1) = n" using assms by (simp add: ring_fill_def unat_minus_one)
  then show ?thesis by (simp add: ring_fill_def algebra_simps)
qed

lemma ring_is_fifo:
  assumes k: "k < 64"
  shows "bounded_fifo (ring_push k) (ring_pop k) (ring_queue k) (ring_inv k) (2 ^ k) fits"
proof unfold_locales
  fix rb :: MpscRingBuffer and e :: entry and es
  assume inv: "ring_inv k rb"
  then have wf: "ring_wf k rb" and win: "window k rb (ring_fill rb)" by (simp_all add: ring_inv_def)
  obtain t st sq pl where e: "e = (t, st, sq, pl)" by (cases e)
  note tail = window_tail_free [OF k win ring_fill_index]
  show "length (ring_queue k rb) \<le> 2 ^ k"
    using win by (simp add: ring_queue_def window_def)
  show "\<exists>rb'. ring_push k e rb = (True, rb') \<and> ring_inv k rb' \<and> ring_queue k rb' = ring_queue k rb @ [e]"
    if fit: "fits e" and room: "length (ring_queue k rb) < 2 ^ k"
  proof -
    have n: "ring_fill rb < 2 ^ k" using room by (simp add: ring_queue_def)
    then obtain s where s: "sl_ready s" "slot_entry s = e"
      and p: "ring_push k e rb = (True, rb\<lparr>rb_write_index := rb_write_index rb + 1,
               rb_slots := (rb_slots rb)[pos k (rb_write_index rb) := s]\<rparr>)" (is "_ = (True, ?rb')")
      using ring_push_result [OF k wf fit [unfolded e]] tail unfolding e by (auto split: if_splits)
    have "ring_wf k ?rb'" using ring_push_wf [OF k wf fit] p by simp
    then have "ring_inv k ?rb'" "ring_queue k ?rb' = ring_queue k rb @ [e]"
      using window_push [OF k wf win n ring_fill_index s(1) refl] s(2)
      by (simp_all add: ring_inv_def ring_queue_def ring_fill_push [OF k n])
    with p show ?thesis by simp
  qed
  show "\<not> fst (ring_push k e rb)" if fit: "fits e" and full: "length (ring_queue k rb) = 2 ^ k"
    using ring_push_result [OF k wf fit [unfolded e]] full tail unfolding e
    by (simp add: ring_queue_def)
  show "ring_pop k rb = None" if "ring_queue k rb = []"
  proof -
    have "ring_fill rb = 0" using that by (metis length_window_entries list.size(3) ring_queue_def)
    then show ?thesis using ring_pop_result [OF k wf] window_head_ready [OF win] by simp
  qed
  show "\<exists>rb'. ring_pop k rb = Some (e, rb') \<and> ring_inv k rb' \<and> ring_queue k rb' = es"
    if "ring_queue k rb = e # es"
  proof -
    have "ring_fill rb = length (e # es)" using that by (metis length_window_entries ring_queue_def)
    then obtain n where n: "ring_fill rb = Suc n" by simp
    let ?s = "(rb_slots rb ! pos k (rb_read_index rb))\<lparr>sl_ready := False\<rparr>"
    let ?rb' = "rb\<lparr>rb_slots := (rb_slots rb)[pos k (rb_read_index rb) := ?s],
                 rb_read_index := rb_read_index rb + 1\<rparr>"
    have p: "ring_pop k rb = Some (slot_entry (rb_slots rb ! pos k (rb_read_index rb)), ?rb')"
      using ring_pop_result [OF k wf] window_head_ready [OF win] n by simp
    have "window k rb (Suc n)" using win n by simp
    from window_pop [OF k wf this _ refl, of ?s]
    have "window k ?rb' n" and "window_entries k rb (Suc n) =
        slot_entry (rb_slots rb ! pos k (rb_read_index rb)) # window_entries k ?rb' n" by simp_all
    then show ?thesis
      using p that n ring_pop_wf [OF k wf p]
      by (simp add: ring_inv_def ring_queue_def ring_fill_pop [OF n])
  qed
qed

text \<open>The writer's ring has 4096 slots.\<close>

interpretation ring: bounded_fifo "ring_push 12" "ring_pop 12" "ring_queue 12" "ring_inv 12" "2 ^ 12" fits
  by (rule ring_is_fifo) simp


section \<open>Conservation: what goes in comes out or is still there\<close>

datatype ring_op = Push entry | Pop

text \<open>A sequence of calls: the accepted records, the popped records, the number of rejections.\<close>

fun ring_run :: "nat \<Rightarrow> ring_op list \<Rightarrow> MpscRingBuffer
    \<Rightarrow> entry list \<times> entry list \<times> nat \<times> MpscRingBuffer" where
  "ring_run k [] rb = ([], [], 0, rb)"
| "ring_run k (Push e # ops) rb =
     (let (ok, rb1) = ring_push k e rb; (acc, out, rej, rb2) = ring_run k ops rb1
      in if ok then (e # acc, out, rej, rb2) else (acc, out, Suc rej, rb2))"
| "ring_run k (Pop # ops) rb =
     (case ring_pop k rb of
        None \<Rightarrow> ring_run k ops rb
      | Some (e, rb1) \<Rightarrow> let (acc, out, rej, rb2) = ring_run k ops rb1 in (acc, e # out, rej, rb2))"

fun op_fits :: "ring_op \<Rightarrow> bool" where
  "op_fits (Push e) = fits e"
| "op_fits Pop = True"

definition ready_entries :: "MpscRingBuffer \<Rightarrow> entry multiset" where
  "ready_entries rb = image_mset slot_entry (filter_mset sl_ready (mset (rb_slots rb)))"

lemma ready_entries_fill:
  assumes "i < length (rb_slots rb)" and "\<not> sl_ready (rb_slots rb ! i)" and "sl_ready s"
  shows "ready_entries (rb\<lparr>rb_write_index := w, rb_slots := (rb_slots rb)[i := s]\<rparr>)
    = add_mset (slot_entry s) (ready_entries rb)"
  using assms by (simp add: ready_entries_def mset_update)

lemma ready_entries_clear:
  assumes "i < length (rb_slots rb)" and "sl_ready (rb_slots rb ! i)" and "\<not> sl_ready s"
  shows "ready_entries rb = add_mset (slot_entry (rb_slots rb ! i))
     (ready_entries (rb\<lparr>rb_slots := (rb_slots rb)[i := s], rb_read_index := r\<rparr>))"
proof -
  have "rb_slots rb ! i \<in># mset (rb_slots rb)" using assms(1) by simp
  then obtain M where "mset (rb_slots rb) = add_mset (rb_slots rb ! i) M" by (meson mset_add)
  with assms show ?thesis by (simp add: ready_entries_def mset_update)
qed

lemma ring_push_conserves:
  assumes "k < 64" and "ring_wf k rb" and "fits e" and "ring_push k e rb = (ok, rb')"
  shows "ring_wf k rb'"
    and "ready_entries rb' = (if ok then add_mset e (ready_entries rb) else ready_entries rb)"
    and "rb_dropped_count rb' = (if ok then rb_dropped_count rb else rb_dropped_count rb + 1)"
proof -
  obtain t st sq pl where e: "e = (t, st, sq, pl)" by (cases e)
  show "ring_wf k rb'" using ring_push_wf [OF assms(1-3)] assms(4) by simp
  have i: "pos k (rb_write_index rb) < length (rb_slots rb)" using assms(2) by (simp add: ring_wf_def)
  note res = ring_push_result [OF assms(1,2) assms(3) [unfolded e]] assms(4) [unfolded e]
  show "ready_entries rb' = (if ok then add_mset e (ready_entries rb) else ready_entries rb)"
    using res i by (auto simp: ready_entries_fill e split: if_splits) (simp add: ready_entries_def)
  show "rb_dropped_count rb' = (if ok then rb_dropped_count rb else rb_dropped_count rb + 1)"
    using res by (auto split: if_splits)
qed

lemma ring_pop_conserves:
  assumes "k < 64" and "ring_wf k rb" and "ring_pop k rb = Some (e, rb')"
  shows "ring_wf k rb'" and "ready_entries rb = add_mset e (ready_entries rb')"
    and "rb_dropped_count rb' = rb_dropped_count rb"
proof -
  show "ring_wf k rb'" by (rule ring_pop_wf) fact+
  have i: "pos k (rb_read_index rb) < length (rb_slots rb)" using assms(2) by (simp add: ring_wf_def)
  show "ready_entries rb = add_mset e (ready_entries rb')"
    using ring_pop_result [OF assms(1,2)] assms(3) i
    by (auto split: if_splits intro!: ready_entries_clear)
  show "rb_dropped_count rb' = rb_dropped_count rb"
    using ring_pop_result [OF assms(1,2)] assms(3) by (auto split: if_splits)
qed

lemma ring_run_conserves:
  assumes "k < 64" and "ring_wf k rb" and "list_all op_fits ops"
    and "ring_run k ops rb = (acc, out, rej, rb')"
  shows "ring_wf k rb' \<and> mset acc + ready_entries rb = mset out + ready_entries rb'
    \<and> rb_dropped_count rb' = rb_dropped_count rb + word_of_nat rej"
  using assms
proof (induction k ops rb arbitrary: acc out rej rb' rule: ring_run.induct)
  case (1 k rb)
  then show ?case by auto
next
  case (2 k e ops rb)
  obtain ok rb1 where p: "ring_push k e rb = (ok, rb1)" by force
  obtain acc1 out1 rej1 rb2 where r: "ring_run k ops rb1 = (acc1, out1, rej1, rb2)"
    by (cases "ring_run k ops rb1")
  have fit: "fits e" "list_all op_fits ops" using "2.prems"(3) by simp_all
  note one = ring_push_conserves [OF "2.prems"(1,2) fit(1) p]
  have "ring_wf k rb2 \<and> mset acc1 + ready_entries rb1 = mset out1 + ready_entries rb2
    \<and> rb_dropped_count rb2 = rb_dropped_count rb1 + word_of_nat rej1"
    by (rule "2.IH" [OF p [symmetric] refl "2.prems"(1) one(1) fit(2) r])
  with one "2.prems"(4) p r show ?case
    by (cases ok) (auto simp: algebra_simps)
next
  case (3 k ops rb)
  have fit: "list_all op_fits ops" using "3.prems"(3) by simp
  show ?case
  proof (cases "ring_pop k rb")
    case None
    with 3 fit show ?thesis by simp
  next
    case (Some er)
    obtain e rb1 where er: "er = (e, rb1)" by (metis surj_pair)
    with Some have p: "ring_pop k rb = Some (e, rb1)" by simp
    obtain acc1 out1 rej1 rb2 where r: "ring_run k ops rb1 = (acc1, out1, rej1, rb2)"
      by (cases "ring_run k ops rb1")
    note one = ring_pop_conserves [OF "3.prems"(1,2) p]
    have "ring_wf k rb2 \<and> mset acc1 + ready_entries rb1 = mset out1 + ready_entries rb2
      \<and> rb_dropped_count rb2 = rb_dropped_count rb1 + word_of_nat rej1"
      by (rule "3.IH"(2) [OF Some er [symmetric] "3.prems"(1) one(1) fit r])
    with one "3.prems"(4) p r show ?thesis by (auto simp: algebra_simps)
  qed
qed


section \<open>Overflow\<close>

text \<open>
  A rejected push has already advanced the write index, and nothing ever moves the read index past
  the slot it skipped. The lemmas follow a ring through one rejection.
\<close>

lemma window_pop_upto:
  assumes k: "k < 64" and "ring_wf k rb" and "window k rb n"
  shows "\<exists>rb'. pop_upto (ring_pop k) n rb = (window_entries k rb n, rb') \<and> ring_wf k rb' \<and> window k rb' 0
    \<and> rb_read_index rb' = rb_read_index rb + word_of_nat n \<and> rb_write_index rb' = rb_write_index rb"
  using assms(2,3)
proof (induction n arbitrary: rb)
  case 0
  then show ?case by simp
next
  case (Suc n)
  let ?s = "(rb_slots rb ! pos k (rb_read_index rb))\<lparr>sl_ready := False\<rparr>"
  let ?rb1 = "rb\<lparr>rb_slots := (rb_slots rb)[pos k (rb_read_index rb) := ?s],
                 rb_read_index := rb_read_index rb + 1\<rparr>"
  have p: "ring_pop k rb = Some (slot_entry (rb_slots rb ! pos k (rb_read_index rb)), ?rb1)"
    using ring_pop_result [OF k Suc.prems(1)] window_head_ready [OF Suc.prems(2)] by simp
  note w = window_pop [OF k Suc.prems(1,2) _ refl, of ?s]
  obtain rb2 where "pop_upto (ring_pop k) n ?rb1 = (window_entries k ?rb1 n, rb2)" "ring_wf k rb2"
    "window k rb2 0" "rb_read_index rb2 = rb_read_index ?rb1 + word_of_nat n"
    "rb_write_index rb2 = rb_write_index ?rb1"
    using Suc.IH [OF ring_pop_wf [OF k Suc.prems(1) p]] w(1) by auto
  with p w(2) show ?case by (simp add: algebra_simps)
qed

lemma ring_push_read_index:
  assumes "ring_push k e rb = (ok, rb')"
  shows "ring_push k e (rb\<lparr>rb_read_index := r\<rparr>) = (ok, rb'\<lparr>rb_read_index := r\<rparr>)"
  using assms by (auto simp: ring_push_def TryPush_def Let_def bind_eq_Some_conv
      split: prod.splits option.splits if_splits Option.bind_splits)

lemma push_all_read_index:
  "push_all (ring_push k) es rb = (oks, rb') \<Longrightarrow>
   push_all (ring_push k) es (rb\<lparr>rb_read_index := r\<rparr>) = (oks, rb'\<lparr>rb_read_index := r\<rparr>)"
proof (induction es arbitrary: rb oks rb')
  case Nil
  then show ?case by simp
next
  case (Cons e es)
  obtain ok rb1 where p: "ring_push k e rb = (ok, rb1)" by force
  obtain oks2 rb2 where q: "push_all (ring_push k) es rb1 = (oks2, rb2)" by force
  from Cons.prems p q ring_push_read_index [OF p] Cons.IH [OF q] show ?case by simp
qed

lemma window_rotate:
  assumes k: "k < 64" and win: "window k rb (2 ^ k)" and r: "rb_read_index rb = r + 1"
    and es: "window_entries k rb (2 ^ k) = es @ [x]"
  shows "window k (rb\<lparr>rb_read_index := r\<rparr>) (2 ^ k)"
    and "window_entries k (rb\<lparr>rb_read_index := r\<rparr>) (2 ^ k) = x # es"
proof -
  obtain m where m: "(2::nat) ^ k = Suc m" by (metis not0_implies_Suc power_not_zero zero_neq_numeral)
  have len: "length es = m" using es m by (metis length_append_singleton length_window_entries nat.inject)
  have shift: "r + word_of_nat (Suc j) = rb_read_index rb + word_of_nat j" for j
    by (simp add: r algebra_simps)
  have wrap: "pos k (r + word_of_nat 0) = pos k (rb_read_index rb + word_of_nat m)"
    by (simp only: shift [symmetric] m [symmetric] pos_add [OF k]) simp
  have nth: "window_entries k rb (2 ^ k) ! j = slot_entry (rb_slots rb ! pos k (rb_read_index rb + word_of_nat j))"
    if "j < 2 ^ k" for j using that by (simp add: window_entries_def)
  have "sl_ready (rb_slots rb ! pos k (r + word_of_nat j))" if "j < 2 ^ k" for j
  proof (cases j)
    case 0
    then show ?thesis using win m wrap by (simp add: window_def)
  next
    case (Suc i)
    with that win show ?thesis by (simp only: shift) (simp add: window_def)
  qed
  then show "window k (rb\<lparr>rb_read_index := r\<rparr>) (2 ^ k)" by (simp add: window_def)
  show "window_entries k (rb\<lparr>rb_read_index := r\<rparr>) (2 ^ k) = x # es"
  proof (rule nth_equalityI)
    show "length (window_entries k (rb\<lparr>rb_read_index := r\<rparr>) (2 ^ k)) = length (x # es)"
      using len m by simp
    fix j assume "j < length (window_entries k (rb\<lparr>rb_read_index := r\<rparr>) (2 ^ k))"
    then have j: "j < 2 ^ k" by simp
    then have e: "window_entries k (rb\<lparr>rb_read_index := r\<rparr>) (2 ^ k) ! j
        = slot_entry (rb_slots rb ! pos k (r + word_of_nat j))" by (simp add: window_entries_def)
    show "window_entries k (rb\<lparr>rb_read_index := r\<rparr>) (2 ^ k) ! j = (x # es) ! j"
    proof (cases j)
      case 0
      have "(es @ [x]) ! m = slot_entry (rb_slots rb ! pos k (rb_read_index rb + word_of_nat m))"
        using nth [of m] m es by simp
      with 0 e wrap len show ?thesis by (simp add: nth_append)
    next
      case (Suc i)
      with j m have i: "i < m" by simp
      have "(es @ [x]) ! i = slot_entry (rb_slots rb ! pos k (rb_read_index rb + word_of_nat i))"
        using nth [of i] m es i by simp
      with Suc e i len show ?thesis by (simp only: shift) (simp add: nth_append)
    qed
  qed
qed

text \<open>After a rejection on a full ring and a complete drain the write index is one slot ahead.\<close>

lemma after_overflow:
  assumes k: "k < 64" and inv: "ring_inv k rb" and full: "ring_fill rb = 2 ^ k" and fit: "fits e"
  obtains rb1 rb2 where "ring_push k e rb = (False, rb1)"
    "pop_upto (ring_pop k) (2 ^ k) rb1 = (ring_queue k rb, rb2)" "ring_wf k rb2" "window k rb2 0"
    "rb_write_index rb2 = rb_read_index rb2 + 1"
proof -
  have wf: "ring_wf k rb" and win: "window k rb (2 ^ k)" using inv full by (simp_all add: ring_inv_def)
  obtain t st sq pl where e: "e = (t, st, sq, pl)" by (cases e)
  have ready: "sl_ready (rb_slots rb ! pos k (rb_write_index rb))"
    using window_tail_free [OF k win] ring_fill_index [of rb] full by simp
  let ?rb1 = "rb\<lparr>rb_write_index := rb_write_index rb + 1, rb_dropped_count := rb_dropped_count rb + 1\<rparr>"
  have p: "ring_push k e rb = (False, ?rb1)"
    using ring_push_result [OF k wf fit [unfolded e]] ready e by simp
  have wf1: "ring_wf k ?rb1" "window k ?rb1 (2 ^ k)" "window_entries k ?rb1 (2 ^ k) = ring_queue k rb"
    using wf win full by (simp_all add: ring_wf_def window_def window_entries_def ring_queue_def)
  obtain rb2 where "pop_upto (ring_pop k) (2 ^ k) ?rb1 = (ring_queue k rb, rb2)" "ring_wf k rb2"
    "window k rb2 0" "rb_read_index rb2 = rb_read_index rb + word_of_nat (2 ^ k)"
    "rb_write_index rb2 = rb_write_index rb + 1"
    using window_pop_upto [OF k wf1(1,2)] wf1(3) by auto
  with p show thesis
    using ring_fill_index [of rb] full by (intro that [of ?rb1 rb2]) simp_all
qed


text \<open>A ring filled to the brim, for the concrete instances below.\<close>

lemma full_ring:
  assumes "k < 64" and "fits e"
  shows "\<exists>rb. ring_inv k rb \<and> ring_fill rb = 2 ^ k \<and> ring_queue k rb = replicate (2 ^ k) e"
proof -
  obtain rb where rb: "ring_inv k rb" "ring_queue k rb = replicate (2 ^ k) e"
    using bounded_fifo.push_all_room [OF ring_is_fifo [OF assms(1)] ring_inv_init [OF assms(1)], of "replicate (2 ^ k) e"]
      assms(2) by (auto simp: ring_queue_init)
  moreover have "ring_fill rb = 2 ^ k" using rb(2) by (metis length_replicate length_window_entries ring_queue_def)
  ultimately show ?thesis by blast
qed

lemma fits_small: "fits (t, st, sq, [x])" "fits (t, st, sq, [])"
  by (simp_all add: fits_def wire_sizes)

text \<open>The masked index advances around the ring one slot at a time for every value of the 64-bit counters.\<close>

lemma slot_index_next:
  "k < 64 \<Longrightarrow> slot_index (2 ^ k) (idx + 1) = (slot_index (2 ^ k) idx + 1) mod 2 ^ k"
  using pos_add [of k idx 1] by (simp add: slot_index_pow2 mod_simps)

section \<open>After a refused push\<close>

text \<open>After a push into a full ring and a complete drain, the next
  record is accepted and lies in the ring, but the consumer cannot get at it: \<open>TryPop\<close> reports that
  no record is available.\<close>

lemma overflow_blocks:
  assumes "k < 64" and "0 < k" and "ring_inv k rb" and "ring_fill rb = 2 ^ k" and "fits e" and "fits f"
  shows "let (ok1, rb1) = ring_push k e rb;
             (es, rb2) = pop_upto (ring_pop k) (2 ^ k) rb1;
             (ok2, rb3) = ring_push k f rb2
         in \<not> ok1 \<and> es = ring_queue k rb \<and> ok2 \<and> f \<in># ready_entries rb3 \<and> ring_pop k rb3 = None"
proof -
  obtain rb1 rb2 where o: "ring_push k e rb = (False, rb1)"
    "pop_upto (ring_pop k) (2 ^ k) rb1 = (ring_queue k rb, rb2)" "ring_wf k rb2" "window k rb2 0"
    "rb_write_index rb2 = rb_read_index rb2 + 1"
    by (rule after_overflow [OF assms(1,3,4,5)])
  obtain t st sq pl where f: "f = (t, st, sq, pl)" by (cases f)
  obtain ok2 rb3 where p: "ring_push k f rb2 = (ok2, rb3)" by force
  have one: "1 < (2::nat) ^ k" using assms(2) one_less_power [of "2::nat" k] by simp
  have other: "pos k (rb_write_index rb2) \<noteq> pos k (rb_read_index rb2)"
    using pos_inj [OF assms(1) one, of 0 "rb_read_index rb2"] o(5) by auto
  have idle: "\<not> sl_ready (rb_slots rb2 ! pos k (rb_write_index rb2))"
    "\<not> sl_ready (rb_slots rb2 ! pos k (rb_read_index rb2))"
    using o(4,5) one by (auto simp: window_def dest: spec [of _ 1] spec [of _ 0])
  have res: "ok2" "rb_read_index rb3 = rb_read_index rb2"
    "\<not> sl_ready (rb_slots rb3 ! pos k (rb_read_index rb2))"
    using ring_push_result [OF assms(1) o(3) assms(6) [unfolded f]] idle other p
    by (auto simp: f nth_list_update_neq)
  have "ring_pop k rb3 = None"
    using ring_pop_result [OF assms(1) ring_push_conserves(1) [OF assms(1) o(3) assms(6) p]] res by simp
  moreover have "f \<in># ready_entries rb3"
    using ring_push_conserves(2) [OF assms(1) o(3) assms(6) p] res by simp
  ultimately show ?thesis using o p res by simp
qed

text \<open>The order is destroyed for good: a batch that then fills the ring is popped
  with its last record first.\<close>

lemma overflow_reorders:
  assumes "k < 64" and "ring_inv k rb" and "ring_fill rb = 2 ^ k" and "fits e"
    and "\<forall>x \<in> set (fs @ [g]). fits x" and "length (fs @ [g]) = 2 ^ k"
  shows "let (_, rb1) = ring_push k e rb;
             (_, rb2) = pop_upto (ring_pop k) (2 ^ k) rb1;
             (oks, rb3) = push_all (ring_push k) (fs @ [g]) rb2
         in oks = replicate (2 ^ k) True \<and> fst (pop_upto (ring_pop k) (2 ^ k) rb3) = g # fs"
proof -
  note k = assms(1)
  obtain rb1 rb2 where o: "ring_push k e rb = (False, rb1)"
    "pop_upto (ring_pop k) (2 ^ k) rb1 = (ring_queue k rb, rb2)" "ring_wf k rb2" "window k rb2 0"
    "rb_write_index rb2 = rb_read_index rb2 + 1"
    by (rule after_overflow [OF assms(1-4)])
  let ?r = "rb_read_index rb2"
  let ?v = "rb2\<lparr>rb_read_index := ?r + 1\<rparr>"
  have none: "\<not> sl_ready (rb_slots rb2 ! i)" if "i < 2 ^ k" for i
    using pos_surj [OF k that, of ?r] o(4) by (auto simp: window_def)
  have fill0: "ring_fill ?v = 0" using o(5) by (simp add: ring_fill_def)
  have inv: "ring_inv k ?v" and empty: "ring_queue k ?v = []"
    using o(3) none fill0 by (simp_all add: ring_inv_def ring_queue_def) (simp_all add: ring_wf_def window_def)
  obtain v' where v': "push_all (ring_push k) (fs @ [g]) ?v = (replicate (2 ^ k) True, v')"
    "ring_inv k v'" "ring_queue k v' = fs @ [g]"
    using bounded_fifo.push_all_room [OF ring_is_fifo [OF k] inv assms(5), unfolded assms(6) empty]
    by auto
  have fill: "ring_fill v' = 2 ^ k"
    using v'(3) assms(6) by (metis length_window_entries ring_queue_def)
  have rd: "rb_read_index v' = ?r + 1"
    using push_all_read_index [OF v'(1), of "?r + 1"] v'(1)
    by simp (metis MpscRingBuffer.select_convs(3) MpscRingBuffer.surjective MpscRingBuffer.update_convs(3))
  have push: "push_all (ring_push k) (fs @ [g]) rb2 = (replicate (2 ^ k) True, v'\<lparr>rb_read_index := ?r\<rparr>)"
    using push_all_read_index [OF v'(1), of ?r] by simp
  have "window k v' (2 ^ k)" "window_entries k v' (2 ^ k) = fs @ [g]" "ring_wf k v'"
    using v'(2,3) fill by (simp_all add: ring_inv_def ring_queue_def)
  note rot = window_rotate [OF k this(1) rd this(2)]
  have "ring_wf k (v'\<lparr>rb_read_index := ?r\<rparr>)" using \<open>ring_wf k v'\<close> by (simp add: ring_wf_def)
  from window_pop_upto [OF k this rot(1)] rot(2)
  have "fst (pop_upto (ring_pop k) (2 ^ k) (v'\<lparr>rb_read_index := ?r\<rparr>)) = g # fs" by auto
  with o push show ?thesis by simp
qed

section \<open>Properties\<close>

text \<open>C17: The ring of 4096 slots is a bounded FIFO queue as long as no push meets a full ring: a push
  appends at the end when there is room and is refused otherwise, a pop takes the front element
  and misses exactly when the queue is empty; nothing is read or written outside a slot.\<close>

theorem ring_is_bounded_queue:
  assumes "ring_inv 12 rb" and "fits e"
  shows "(if length (ring_queue 12 rb) < 4096
      then \<exists>rb'. ring_push 12 e rb = (True, rb') \<and> ring_inv 12 rb' \<and> ring_queue 12 rb' = ring_queue 12 rb @ [e]
      else \<not> fst (ring_push 12 e rb)) \<and>
    (case ring_queue 12 rb of
       [] \<Rightarrow> ring_pop 12 rb = None
     | x # xs \<Rightarrow> \<exists>rb'. ring_pop 12 rb = Some (x, rb') \<and> ring_inv 12 rb' \<and> ring_queue 12 rb' = xs)"
proof -
  have cap: "length (ring_queue 12 rb) \<le> 4096" using ring.bounded [OF assms(1)] by simp
  have "if length (ring_queue 12 rb) < 4096
      then \<exists>rb'. ring_push 12 e rb = (True, rb') \<and> ring_inv 12 rb' \<and> ring_queue 12 rb' = ring_queue 12 rb @ [e]
      else \<not> fst (ring_push 12 e rb)"
    using ring.push_room [OF assms] ring.push_full [OF assms] cap by auto
  moreover have "case ring_queue 12 rb of
       [] \<Rightarrow> ring_pop 12 rb = None
     | x # xs \<Rightarrow> \<exists>rb'. ring_pop 12 rb = Some (x, rb') \<and> ring_inv 12 rb' \<and> ring_queue 12 rb' = xs"
    using ring.pop_empty [OF assms(1)] ring.pop_front [OF assms(1)] by (cases "ring_queue 12 rb") auto
  ultimately show ?thesis by blast
qed

theorem ring_is_bounded_queue_witness:
  "\<exists>rb'. ring_push 12 (4, 10, 0, [7]) (MpscRingBuffer_init 4096) = (True, rb') \<and> ring_queue 12 rb' = [(4, 10, 0, [7])]"
  using ring_is_bounded_queue [OF ring_inv_init [of 12] fits_small(1) [of 4 10 0 7]] ring_queue_init [of 12] by auto

text \<open>C18: Whatever the sequence of pushes and pops, and whether or not the ring overflows on the way, no
  accepted record is lost, duplicated or altered: accepted records plus those in the ring before
  are popped records plus those in the ring after; and the drop counter grows by one per refusal.\<close>

theorem ring_conserves_records:
  assumes "ring_wf 12 rb" and "list_all op_fits ops" and "ring_run 12 ops rb = (acc, out, rej, rb')"
  shows "mset acc + ready_entries rb = mset out + ready_entries rb'
    \<and> DroppedCount rb' = DroppedCount rb + word_of_nat rej"
  using ring_run_conserves [OF _ assms] by (simp add: DroppedCount_def)

theorem ring_conserves_records_witness:
  "\<exists>acc out rej rb'. ring_run 12 [Push (4, 10, 0, [7]), Pop, Pop] (MpscRingBuffer_init 4096) = (acc, out, rej, rb')
     \<and> mset acc + ready_entries (MpscRingBuffer_init 4096) = mset out + ready_entries rb'"
proof -
  obtain acc out rej rb' where r: "ring_run 12 [Push (4, 10, 0, [7]), Pop, Pop] (MpscRingBuffer_init 4096) = (acc, out, rej, rb')"
    by (metis prod_cases4)
  have "ring_wf 12 (MpscRingBuffer_init 4096)" using ring_wf_init [of 12] by simp
  from ring_conserves_records [OF this _ r] r show ?thesis by (auto simp: fits_small)
qed

text \<open>C36: No call touches memory outside its buffers, in any state the ring can be in: \<open>TryPush\<close> and \<open>TryPop\<close>
  return and keep the ring well-formed. A payload above the slot size is refused, and such a
  refusal is not counted as a drop. The masked index is in range and advances slot by slot for every
  value of the 64-bit counters, the wrap from \<open>2^64 - 1\<close> to 0 included.\<close>

theorem ring_calls_safe:
  assumes "ring_wf 12 rb" and "unat len \<le> length data" and "out_wf out"
  shows "slot_index (2 ^ 12) idx < length (rb_slots rb) \<and> slot_index (2 ^ 12) (idx + 1) = (slot_index (2 ^ 12) idx + 1) mod 2 ^ 12
    \<and> (\<exists>ok rb'. TryPush (2 ^ 12) t st sq data len rb = Some (ok, rb') \<and> ring_wf 12 rb'
      \<and> (64 < unat len \<longrightarrow> \<not> ok \<and> DroppedCount rb' = DroppedCount rb))
    \<and> (\<exists>ok out' rb'. TryPop (2 ^ 12) out rb = Some (ok, out', rb') \<and> ring_wf 12 rb' \<and> out_wf out')"
proof -
  have "\<exists>ok rb'. TryPush (2 ^ 12) t st sq data len rb = Some (ok, rb') \<and> ring_wf 12 rb'
      \<and> (64 < unat len \<longrightarrow> \<not> ok \<and> DroppedCount rb' = DroppedCount rb)"
    using TryPush_cases [OF _ assms(1,2), of t st sq] by (auto simp: wire_sizes DroppedCount_def)
  moreover have "\<exists>ok out' rb'. TryPop (2 ^ 12) out rb = Some (ok, out', rb') \<and> ring_wf 12 rb' \<and> out_wf out'"
    using TryPop_cases [OF _ assms(1,3)] by auto
  moreover have "slot_index (2 ^ 12) idx < length (rb_slots rb)" "slot_index (2 ^ 12) (idx + 1) = (slot_index (2 ^ 12) idx + 1) mod 2 ^ 12"
    using assms(1) slot_index_next [of 12 idx] by (simp_all add: ring_wf_def slot_index_pow2 [of 12, simplified])
  ultimately show ?thesis by blast
qed

theorem ring_calls_safe_witness:
  "slot_index (2 ^ 12) (2 ^ 64 - 1 + 1) = (slot_index (2 ^ 12) (2 ^ 64 - 1) + 1) mod 2 ^ 12
   \<and> (\<exists>ok rb'. TryPush (2 ^ 12) 4 10 0 (replicate 80 0) 80 (MpscRingBuffer_init 4096) = Some (ok, rb') \<and> \<not> ok
     \<and> DroppedCount rb' = 0)"
proof -
  have "ring_wf 12 (MpscRingBuffer_init 4096)" "DroppedCount (MpscRingBuffer_init 4096) = 0"
    using ring_wf_init [of 12] by (simp_all add: DroppedCount_def MpscRingBuffer_init_def)
  with ring_calls_safe [of "MpscRingBuffer_init 4096" 80 "replicate 80 0" PoppedRecord_init "2 ^ 64 - 1" 4 10 0] show ?thesis
    by auto
qed

text \<open>C21: One refused push breaks the queue. After a push into a full ring and a complete drain, the next
  record is accepted and lies in the ring, but the consumer cannot get at it: \<open>TryPop\<close> reports that
  no record is available. The order is destroyed for good: a batch that then fills the ring is popped
  with its last record first.\<close>

theorem overflow_breaks_queue:
  assumes "k < 64" and "0 < k" and "ring_inv k rb" and "ring_fill rb = 2 ^ k" and "fits e" and "fits f"
    and "\<forall>x \<in> set (fs @ [g]). fits x" and "length (fs @ [g]) = 2 ^ k"
  shows "let (ok1, rb1) = ring_push k e rb;
             (es, rb2) = pop_upto (ring_pop k) (2 ^ k) rb1;
             (ok2, rb3) = ring_push k f rb2;
             (oks, rb4) = push_all (ring_push k) (fs @ [g]) rb2
         in \<not> ok1 \<and> es = ring_queue k rb
            \<and> ok2 \<and> f \<in># ready_entries rb3 \<and> ring_pop k rb3 = None
            \<and> oks = replicate (2 ^ k) True \<and> fst (pop_upto (ring_pop k) (2 ^ k) rb4) = g # fs"
  using overflow_blocks [OF assms(1-6)] overflow_reorders [OF assms(1,3-5,7,8)]
  by (auto simp: Let_def split: prod.splits)

theorem overflow_breaks_queue_witness:
  "\<exists>rb. let (ok1, rb1) = ring_push 1 (4, 11, 2, []) rb;
             (es, rb2) = pop_upto (ring_pop 1) 2 rb1;
             (ok2, rb3) = ring_push 1 (4, 12, 3, []) rb2;
             (oks, rb4) = push_all (ring_push 1) [(4, 12, 3, []), (4, 13, 4, [])] rb2
         in \<not> ok1 \<and> es = [(4, 10, 0, []), (4, 10, 0, [])] \<and> ok2 \<and> ring_pop 1 rb3 = None
            \<and> oks = [True, True] \<and> fst (pop_upto (ring_pop 1) 2 rb4) = [(4, 13, 4, []), (4, 12, 3, [])]"
proof -
  obtain rb where rb: "ring_inv 1 rb" "ring_fill rb = 2 ^ 1" "ring_queue 1 rb = replicate (2 ^ 1) (4, 10, 0, [])"
    using full_ring [of 1 "(4, 10, 0, [])"] fits_small by auto
  have "ring_queue 1 rb = [(4, 10, 0, []), (4, 10, 0, [])]" using rb(3) by (simp add: numeral_2_eq_2)
  moreover have "\<forall>x \<in> set ([(4, 12, 3, [])] @ [(4, 13, 4, [])]). fits x" using fits_small by simp
  ultimately show ?thesis
    using overflow_breaks_queue [OF _ _ rb(1,2) fits_small(2) [of 4 11 2] fits_small(2) [of 4 12 3], of "[(4, 12, 3, [])]" "(4, 13, 4, [])"]
    by (intro exI [of _ rb]) (auto simp: Let_def numeral_2_eq_2 split: prod.splits)
qed

end
