(* ===== verification/Record_Writer.thy ===== *)
theory Record_Writer
  imports Mpsc_Ring_Buffer
begin

text \<open>
  The recording engine of \<open>include/chrono_cap/record_writer.hpp\<close> and
  \<open>src/core/record_writer.cpp\<close>. The operating system is the record \<open>Os\<close>: the bytes of the file
  behind \<open>bin_fd_\<close>, how much of it an \<open>fsync\<close> covered, and the answers \<open>write(2)\<close> and the clocks
  will give, as arbitrary scripts indexed by the call number, so that a theorem over all scripts
  covers every behaviour (partial writes, errors, writes of zero bytes). A function returns
  \<^const>\<open>None\<close> when the C++ function would not return (the retry loop of \<open>WriteAll\<close>) or would
  leave its buffers.
\<close>

section \<open>Operating system\<close>

datatype write_reply = WErr | WOk nat

record Os =
  os_open_fd :: int  \<comment> \<open>what \<open>open(2)\<close> answers for the output path\<close>
  os_file :: bytes
  os_synced :: nat
  os_reply :: "nat \<Rightarrow> write_reply"
  os_writes :: nat
  os_steady :: "nat \<Rightarrow> int"  \<comment> \<open>successive \<open>steady_clock\<close> readings, ns\<close>
  os_reads :: nat
  os_system_ns :: int

definition sys_write :: "int \<Rightarrow> bytes \<Rightarrow> Os \<Rightarrow> int \<times> Os" where
  "sys_write fd p os =
     (let os' = os\<lparr>os_writes := Suc (os_writes os)\<rparr>
      in if fd < 0 then (-1, os')
         else case os_reply os (os_writes os) of
           WErr \<Rightarrow> (-1, os')
         | WOk n \<Rightarrow> (int (min n (length p)), os'\<lparr>os_file := os_file os @ take n p\<rparr>))"

definition sys_fsync :: "int \<Rightarrow> Os \<Rightarrow> Os" where
  "sys_fsync fd os = (if fd < 0 then os else os\<lparr>os_synced := length (os_file os)\<rparr>)"

definition steady_now :: "Os \<Rightarrow> int \<times> Os" where
  "steady_now os = (os_steady os (os_reads os), os\<lparr>os_reads := Suc (os_reads os)\<rparr>)"

definition sys_open_trunc :: "Os \<Rightarrow> int \<times> Os" where
  "sys_open_trunc os =
     (if os_open_fd os < 0 then (os_open_fd os, os)
      else (os_open_fd os, os\<lparr>os_file := [], os_synced := 0\<rparr>))"

section \<open>State\<close>

record TopicInfo =
  ti_topic_id :: u16
  ti_wire_size :: u32
  ti_name :: bytes

text \<open>Where the writer thread is in \<open>WriterThreadMain\<close>: at the loop test, in the inner drain loop
  (with \<open>drained_any\<close>), after it, in the final drain loop, at the final flush, or finished.\<close>

datatype thread_pc = LoopTest | Draining bool | AfterDrain bool | FinalDrain | FinalFlush | Exited

record RecordWriter =
  rw_ring :: MpscRingBuffer
  rw_thread :: "thread_pc option"  \<comment> \<open>\<open>writer_thread_\<close>: \<open>None\<close> when not joinable\<close>
  rw_rec :: PoppedRecord  \<comment> \<open>the thread's local \<open>rec\<close>\<close>
  rw_shutdown :: bool
  rw_bin_fd :: int
  rw_bin_path :: bytes
  rw_pending :: u32
  rw_last_flush :: int
  rw_flush_interval :: int
  rw_idle_poll_interval :: int
  rw_os :: Os

definition ring_exponent :: nat where
  "ring_exponent = 12"

definition RecordWriter_init :: "int \<Rightarrow> int \<Rightarrow> Os \<Rightarrow> RecordWriter" where
  "RecordWriter_init flush_interval idle_poll_interval os =
     \<lparr>rw_ring = MpscRingBuffer_init (2 ^ ring_exponent), rw_thread = None, rw_rec = PoppedRecord_init,
      rw_shutdown = False, rw_bin_fd = -1, rw_bin_path = [], rw_pending = 0, rw_last_flush = 0,
      rw_flush_interval = flush_interval, rw_idle_poll_interval = idle_poll_interval, rw_os = os\<rparr>"

section \<open>Operations\<close>

partial_function (option) WriteAll :: "int \<Rightarrow> bytes \<Rightarrow> Os \<Rightarrow> (bool \<times> Os) option" where
  "WriteAll fd p os =
     (if p = [] then Some (True, os)
      else let (n, os') = sys_write fd p os
        in if n < 0 then Some (False, os') else WriteAll fd (drop (nat n) p) os')"

text \<open>\<open>snprintf(name, 32, "%s", s)\<close> into the zero-initialised array.\<close>

definition snprintf_name :: "bytes \<Rightarrow> bytes \<Rightarrow> bytes" where
  "snprintf_name name s = patch name 0 (take 31 (takeWhile (\<lambda>c. c \<noteq> 0) s) @ [0])"

definition meta_of :: "TopicInfo \<Rightarrow> TopicMetaEntry" where
  "meta_of topic = TopicMetaEntry_init\<lparr>tm_topic_id := ti_topic_id topic, tm_struct_size := ti_wire_size topic,
     tm_name := snprintf_name (tm_name TopicMetaEntry_init) (ti_name topic)\<rparr>"

fun WriteMetadata :: "int \<Rightarrow> TopicInfo list \<Rightarrow> Os \<Rightarrow> (bool \<times> Os) option" where
  "WriteMetadata fd [] os = Some (True, os)"
| "WriteMetadata fd (topic # topics) os = do {
     meta_buf \<leftarrow> TopicMetaEntry_Serialize (meta_of topic) (replicate kTopicMetaWireSize 0) 0;
     (ok, os) \<leftarrow> WriteAll fd meta_buf os;
     if \<not> ok then Some (False, os) else WriteMetadata fd topics os }"

definition header_of :: "TopicInfo list \<Rightarrow> Os \<Rightarrow> FileHeader" where
  "header_of topics os = FileHeader_init\<lparr>fh_version := kFormatVersion,
     fh_topic_count := word_of_nat (length topics), fh_created_at_ns := word_of_int (os_system_ns os)\<rparr>"

definition WriteFileHeaderAndMetadata :: "TopicInfo list \<Rightarrow> RecordWriter \<Rightarrow> (bool \<times> RecordWriter) option" where
  "WriteFileHeaderAndMetadata topics w = do {
     header_buf \<leftarrow> FileHeader_Serialize (header_of topics (rw_os w)) (replicate kFileHeaderWireSize 0) 0;
     (ok, os) \<leftarrow> WriteAll (rw_bin_fd w) header_buf (rw_os w);
     if \<not> ok then Some (False, w\<lparr>rw_os := os\<rparr>)
     else do {
       (ok, os) \<leftarrow> WriteMetadata (rw_bin_fd w) topics os;
       Some (ok, w\<lparr>rw_os := os\<rparr>) } }"

text \<open>\<open>Open\<close>. Starting a thread while the previous one is still joinable terminates the program
  (\<open>std::thread\<close> assignment), which is the outcome \<^const>\<open>None\<close>.\<close>

definition RecordWriter_Open :: "bytes \<Rightarrow> TopicInfo list \<Rightarrow> RecordWriter \<Rightarrow> (bool \<times> RecordWriter) option" where
  "RecordWriter_Open session_base topics w =
     (let w = w\<lparr>rw_bin_path := session_base @ lit ''.bin''\<rparr>;
          (fd, os) = sys_open_trunc (rw_os w);
          w = w\<lparr>rw_bin_fd := fd, rw_os := os\<rparr>
      in if fd < 0 then Some (False, w)
         else do {
           (ok, w) \<leftarrow> WriteFileHeaderAndMetadata topics w;
           if \<not> ok then Some (False, w)
           else let (now, os) = steady_now (rw_os w);
                    w = w\<lparr>rw_last_flush := now, rw_shutdown := False, rw_os := os\<rparr>
             in if rw_thread w \<noteq> None then None
                else Some (True, w\<lparr>rw_thread := Some LoopTest, rw_rec := PoppedRecord_init\<rparr>) })"

definition RecordWriter_Push :: "u16 \<Rightarrow> u64 \<Rightarrow> u64 \<Rightarrow> bytes \<Rightarrow> u32 \<Rightarrow> RecordWriter
    \<Rightarrow> (bool \<times> RecordWriter) option" where
  "RecordWriter_Push topic_id stamp_ns seq data len w = do {
     (ok, rb) \<leftarrow> TryPush (2 ^ ring_exponent) topic_id stamp_ns seq data len (rw_ring w);
     Some (ok, w\<lparr>rw_ring := rb\<rparr>) }"

definition RecordWriter_DroppedCount :: "RecordWriter \<Rightarrow> u64" where
  "RecordWriter_DroppedCount w = DroppedCount (rw_ring w)"

definition WriteRecord :: "PoppedRecord \<Rightarrow> RecordWriter \<Rightarrow> (bool \<times> RecordWriter) option" where
  "WriteRecord rec w =
     (if rw_bin_fd w < 0 then Some (False, w)
      else do {
        hdr_buf \<leftarrow> RecordHeader_Serialize (RecordHeader_init\<lparr>rh_topic_id := pr_topic_id rec,
            rh_stamp_ns := pr_stamp_ns rec, rh_seq := pr_seq rec\<rparr>) (replicate kRecordHeaderWireSize 0) 0;
        (ok, os) \<leftarrow> WriteAll (rw_bin_fd w) hdr_buf (rw_os w);
        if \<not> ok then Some (False, w\<lparr>rw_os := os\<rparr>)
        else do {
          pl \<leftarrow> mem_read (pr_payload rec) 0 (unat (pr_payload_len rec));
          (ok, os) \<leftarrow> WriteAll (rw_bin_fd w) pl os;
          if \<not> ok then Some (False, w\<lparr>rw_os := os\<rparr>)
          else Some (True, w\<lparr>rw_os := os, rw_pending := rw_pending w + 1\<rparr>) } })"

definition MaybeFlush :: "RecordWriter \<Rightarrow> RecordWriter" where
  "MaybeFlush w =
     (if rw_pending w = 0 then w
      else let (now, os) = steady_now (rw_os w)
        in if now - rw_last_flush w < rw_flush_interval w then w\<lparr>rw_os := os\<rparr>
           else w\<lparr>rw_os := (if rw_bin_fd w \<ge> 0 then sys_fsync (rw_bin_fd w) os else os),
                  rw_pending := 0, rw_last_flush := now\<rparr>)"

text \<open>One iteration of a drain loop: try to pop, write the popped record, ignore the result.\<close>

definition drain_step :: "RecordWriter \<Rightarrow> (bool \<times> RecordWriter) option" where
  "drain_step w = do {
     (got, rec, rb) \<leftarrow> TryPop (2 ^ ring_exponent) (rw_rec w) (rw_ring w);
     if \<not> got then Some (False, w)
     else do {
       (_, w) \<leftarrow> WriteRecord rec (w\<lparr>rw_rec := rec, rw_ring := rb\<rparr>);
       Some (True, w) } }"

text \<open>One step of \<open>WriterThreadMain\<close>.\<close>

fun thread_step :: "thread_pc \<Rightarrow> RecordWriter \<Rightarrow> RecordWriter option" where
  "thread_step LoopTest w =
     Some (w\<lparr>rw_thread := Some (if \<not> rw_shutdown w then Draining False else FinalDrain)\<rparr>)"
| "thread_step (Draining drained_any) w = do {
     (got, w) \<leftarrow> drain_step w;
     Some (w\<lparr>rw_thread := Some (if got then Draining True else AfterDrain drained_any)\<rparr>) }"
| "thread_step (AfterDrain drained_any) w =
     (let w = (if drained_any then MaybeFlush w else w) in Some (w\<lparr>rw_thread := Some LoopTest\<rparr>))"
| "thread_step FinalDrain w = do {
     (got, w) \<leftarrow> drain_step w;
     Some (w\<lparr>rw_thread := Some (if got then FinalDrain else FinalFlush)\<rparr>) }"
| "thread_step FinalFlush w = Some ((MaybeFlush w)\<lparr>rw_thread := Some Exited\<rparr>)"
| "thread_step Exited w = Some w"

text \<open>The thread left to run on its own until it returns.\<close>

partial_function (option) WriterThreadMain :: "RecordWriter \<Rightarrow> RecordWriter option" where
  "WriterThreadMain w =
     (case rw_thread w of
        None \<Rightarrow> Some w
      | Some pc \<Rightarrow> if pc = Exited then Some w else Option.bind (thread_step pc w) WriterThreadMain)"

text \<open>\<open>Close\<close>: the join waits for the thread's return.\<close>

definition RecordWriter_Close :: "RecordWriter \<Rightarrow> RecordWriter option" where
  "RecordWriter_Close w = do {
     w \<leftarrow> (if rw_thread w \<noteq> None
          then do { w \<leftarrow> WriterThreadMain (w\<lparr>rw_shutdown := True\<rparr>); Some (w\<lparr>rw_thread := None\<rparr>) }
          else Some w);
     Some (if rw_bin_fd w \<ge> 0
           then w\<lparr>rw_os := sys_fsync (rw_bin_fd w) (rw_os w), rw_bin_fd := -1\<rparr> else w) }"

section \<open>WriteAll\<close>

text \<open>A disk that accepts at least one byte per call from now on.\<close>

definition good_disk :: "Os \<Rightarrow> bool" where
  "good_disk os \<longleftrightarrow> (\<forall>i \<ge> os_writes os. \<exists>n. os_reply os i = WOk (Suc n))"

text \<open>What \<open>WriteAll\<close> may change of the operating system's state.\<close>

definition appended :: "Os \<Rightarrow> bytes \<Rightarrow> Os \<Rightarrow> bool" where
  "appended os q os' \<longleftrightarrow> (\<exists>c \<ge> os_writes os. os' = os\<lparr>os_file := os_file os @ q, os_writes := c\<rparr>)"

lemma appended_refl [simp]: "appended os [] os"
  by (auto simp: appended_def intro!: exI [of _ "os_writes os"])

lemma appended_trans:
  assumes "appended os p os1" and "appended os1 q os2"
  shows "appended os (p @ q) os2"
proof -
  obtain c where c: "os_writes os \<le> c" "os1 = os\<lparr>os_file := os_file os @ p, os_writes := c\<rparr>"
    using assms(1) by (auto simp: appended_def)
  obtain d where "os_writes os1 \<le> d" "os2 = os1\<lparr>os_file := os_file os1 @ q, os_writes := d\<rparr>"
    using assms(2) by (auto simp: appended_def)
  with c show ?thesis by (auto simp: appended_def intro!: exI [of _ d])
qed

lemma appended_good: "appended os q os' \<Longrightarrow> good_disk os \<Longrightarrow> good_disk os'"
  by (auto simp: appended_def good_disk_def)

lemma appended_frame:
  assumes "appended os q os'"
  shows "os_file os' = os_file os @ q" "os_open_fd os' = os_open_fd os" "os_synced os' = os_synced os"
    "os_steady os' = os_steady os" "os_reads os' = os_reads os" "os_system_ns os' = os_system_ns os"
  using assms by (auto simp: appended_def)

lemma sys_write_ok:
  "0 \<le> fd \<Longrightarrow> os_reply os (os_writes os) = WOk n \<Longrightarrow>
   \<exists>os'. sys_write fd p os = (int (min n (length p)), os') \<and> appended os (take n p) os'"
  by (auto simp: sys_write_def Let_def appended_def intro!: exI [of _ "Suc (os_writes os)"])

lemma sys_write_cases:
  assumes "sys_write fd p os = (n, os')"
  obtains (error) "n < 0" "appended os [] os'"
  | (wrote) m where "n = int (min m (length p))" "appended os (take m p) os'" "0 \<le> fd"
      "os_reply os (os_writes os) = WOk m"
proof (cases "fd < 0 \<or> os_reply os (os_writes os) = WErr")
  case True
  then have "n < 0" "os' = os\<lparr>os_writes := Suc (os_writes os)\<rparr>"
    using assms by (auto simp: sys_write_def Let_def split: if_splits)
  then show ?thesis by (intro error) (auto simp: appended_def intro!: exI [of _ "Suc (os_writes os)"])
next
  case False
  then obtain m where "os_reply os (os_writes os) = WOk m" by (cases "os_reply os (os_writes os)") auto
  with False sys_write_ok [of fd os m p] assms show ?thesis by (intro wrote) auto
qed

lemma WriteAll_good:
  assumes "0 \<le> fd" and "good_disk os"
  shows "\<exists>os'. WriteAll fd p os = Some (True, os') \<and> appended os p os'"
  using assms(2)
proof (induction p arbitrary: os rule: length_induct)
  case (1 p)
  show ?case
  proof (cases "p = []")
    case True
    then show ?thesis by (simp add: WriteAll.simps)
  next
    case False
    obtain n where "os_reply os (os_writes os) = WOk (Suc n)"
      using "1.prems" by (auto simp: good_disk_def)
    then obtain os1 where w: "sys_write fd p os = (int (min (Suc n) (length p)), os1)"
      and a: "appended os (take (Suc n) p) os1"
      using sys_write_ok [OF assms(1)] by blast
    have "length (drop (min (Suc n) (length p)) p) < length p" using False by simp
    then obtain os2 where r: "WriteAll fd (drop (min (Suc n) (length p)) p) os1 = Some (True, os2)"
      "appended os1 (drop (min (Suc n) (length p)) p) os2"
      using "1.IH" appended_good [OF a "1.prems"] by blast
    have "drop (min (Suc n) (length p)) p = drop (Suc n) p" by (simp add: min_def)
    with r(2) appended_trans [OF a] have "appended os p os2"
      by (metis append_take_drop_id)
    moreover have "WriteAll fd p os = Some (True, os2)"
      using False w r(1) by (subst WriteAll.simps) (simp del: of_nat_min)
    ultimately show ?thesis by blast
  qed
qed

lemma WriteAll_prefix:
  assumes "WriteAll fd p os = Some (ok, os')"
  shows "\<exists>q r. p = q @ r \<and> appended os q os' \<and> (ok \<longleftrightarrow> r = [])"
proof -
  have "\<exists>q r. p = q @ r \<and> appended os q (snd res) \<and> (fst res \<longleftrightarrow> r = [])"
    if "WriteAll fd p os = Some res" for res
  proof (rule WriteAll.raw_induct [where P = "\<lambda>fd p os res.
        \<exists>q r. p = q @ r \<and> appended os q (snd res) \<and> (fst res \<longleftrightarrow> r = [])", OF _ that], goal_cases)
    case (1 f fd p os res)
    obtain n os1 where w: "sys_write fd p os = (n, os1)" by force
    show ?case
    proof (cases "p = []")
      case True
      with 1(2) show ?thesis by auto
    next
      case False
      from w show ?thesis
      proof (cases rule: sys_write_cases)
        case error
        with False 1(2) w show ?thesis by (intro exI [of _ "[]"] exI [of _ p]) auto
      next
        case (wrote m)
        then have "f fd (drop (nat n) p) os1 = Some res" using False 1(2) w by simp
        then obtain q r where q: "drop (nat n) p = q @ r" "appended os1 q (snd res)" "fst res \<longleftrightarrow> r = []"
          using 1(1) by blast
        have "drop (nat n) p = drop m p" by (simp add: wrote(1) min_def)
        with q(1) have "p = (take m p @ q) @ r" by (metis append_assoc append_take_drop_id)
        with q appended_trans [OF wrote(2)] show ?thesis by blast
      qed
    qed
  qed
  with assms show ?thesis by fastforce
qed

text \<open>The loop ends whenever no call is answered by zero bytes, and never ends if all are.\<close>

lemma WriteAll_returns:
  assumes "\<forall>i \<ge> os_writes os. os_reply os i \<noteq> WOk 0"
  shows "\<exists>ok os'. WriteAll fd p os = Some (ok, os')"
  using assms
proof (induction p arbitrary: os rule: length_induct)
  case (1 p)
  obtain n os1 where w: "sys_write fd p os = (n, os1)" by force
  show ?case
  proof (cases "p = [] \<or> n < 0")
    case True
    then show ?thesis using w by (subst WriteAll.simps) auto
  next
    case False
    have "0 < n \<and> os_reply os1 = os_reply os \<and> os_writes os \<le> os_writes os1"
      using w False "1.prems" by (auto simp: sys_write_def Let_def split: if_splits write_reply.splits)
    with False "1.prems" obtain ok os2 where "WriteAll fd (drop (nat n) p) os1 = Some (ok, os2)"
      using "1.IH" by (metis (no_types, lifting) bot_nat_0.not_eq_extremum diff_less length_drop
          length_greater_0_conv nat_0_iff not_le order_trans zero_less_nat_eq)
    with False w show ?thesis by (subst WriteAll.simps) auto
  qed
qed

lemma WriteAll_stuck:
  assumes "p \<noteq> []" and "0 \<le> fd" and "os_reply os = (\<lambda>_. WOk 0)"
  shows "WriteAll fd p os = None"
proof (rule ccontr)
  assume "WriteAll fd p os \<noteq> None"
  then obtain res where "WriteAll fd p os = Some res" by blast
  then have "\<not> (p \<noteq> [] \<and> 0 \<le> fd \<and> os_reply os = (\<lambda>_. WOk 0))"
  proof (rule WriteAll.raw_induct [where P = "\<lambda>fd p os res.
        \<not> (p \<noteq> [] \<and> 0 \<le> fd \<and> os_reply os = (\<lambda>_. WOk 0))", rotated], goal_cases)
    case (1 f fd p os res)
    show ?case
    proof
      assume h: "p \<noteq> [] \<and> 0 \<le> fd \<and> os_reply os = (\<lambda>_. WOk 0)"
      then obtain os1 where "sys_write fd p os = (0, os1)" "os_reply os1 = (\<lambda>_. WOk 0)"
        by (auto simp: sys_write_def Let_def)
      with 1 h show False by fastforce
    qed
  qed
  with assms show False by blast
qed


section \<open>The bytes a session writes\<close>

definition session_prefix :: "TopicInfo list \<Rightarrow> Os \<Rightarrow> bytes" where
  "session_prefix topics os = FileHeader_layout (header_of topics os)
     @ concat (map TopicMetaEntry_layout (map meta_of topics))"

lemma snprintf_name_padded:
  "snprintf_name (replicate 32 0) s = take 31 (takeWhile (\<lambda>c. c \<noteq> 0) s)
     @ replicate (32 - length (take 31 (takeWhile (\<lambda>c. c \<noteq> 0) s))) 0"
proof -
  let ?t = "take 31 (takeWhile (\<lambda>c. c \<noteq> 0) s)"
  have "length ?t \<le> 31" by simp
  then have "32 - length ?t = Suc (31 - length ?t)" by linarith
  then have "replicate (32 - length ?t) (0::u8) = 0 # replicate (31 - length ?t) 0" by simp
  then show ?thesis by (simp add: snprintf_name_def patch_def)
qed

lemma meta_of_name:
  "tm_name (meta_of topic) = take 31 (takeWhile (\<lambda>c. c \<noteq> 0) (ti_name topic))
     @ replicate (32 - length (take 31 (takeWhile (\<lambda>c. c \<noteq> 0) (ti_name topic)))) 0"
  by (simp add: meta_of_def TopicMetaEntry_init_def snprintf_name_padded)

lemma meta_name_chars:
  "0 \<notin> set (take 31 (takeWhile (\<lambda>c. c \<noteq> 0) (s :: bytes)))" "length (take 31 (takeWhile (\<lambda>c. c \<noteq> 0) s)) < 32"
  by (auto dest: in_set_takeD set_takeWhileD)

lemma meta_of_valid: "padded_name (tm_name (meta_of topic))"
  unfolding meta_of_name by (rule c_strlen_padded(3) [OF meta_name_chars])

lemma WriteMetadata_good:
  assumes "0 \<le> fd" and "good_disk os"
  shows "\<exists>os'. WriteMetadata fd topics os = Some (True, os')
    \<and> appended os (concat (map TopicMetaEntry_layout (map meta_of topics))) os'"
  using assms(2)
proof (induction topics arbitrary: os)
  case Nil
  then show ?case by simp
next
  case (Cons topic topics)
  have ser: "TopicMetaEntry_Serialize (meta_of topic) (replicate kTopicMetaWireSize 0) 0
      = Some (TopicMetaEntry_layout (meta_of topic))"
    by (rule tm.ser_exact [OF meta_of_valid]) simp
  obtain os1 where w: "WriteAll fd (TopicMetaEntry_layout (meta_of topic)) os = Some (True, os1)"
    and a: "appended os (TopicMetaEntry_layout (meta_of topic)) os1"
    using WriteAll_good [OF assms(1) Cons.prems] by blast
  obtain os2 where "WriteMetadata fd topics os1 = Some (True, os2)"
    "appended os1 (concat (map TopicMetaEntry_layout (map meta_of topics))) os2"
    using Cons.IH [OF appended_good [OF a Cons.prems]] by blast
  with ser w appended_trans [OF a] show ?case by simp
qed

lemma WriteHeader_good:
  assumes "0 \<le> rw_bin_fd w" and "good_disk (rw_os w)"
  shows "\<exists>os'. WriteFileHeaderAndMetadata topics w = Some (True, w\<lparr>rw_os := os'\<rparr>)
    \<and> appended (rw_os w) (session_prefix topics (rw_os w)) os'"
proof -
  let ?h = "header_of topics (rw_os w)"
  have ser: "FileHeader_Serialize ?h (replicate kFileHeaderWireSize 0) 0 = Some (FileHeader_layout ?h)"
    by (rule fh.ser_exact) simp_all
  obtain os1 where w1: "WriteAll (rw_bin_fd w) (FileHeader_layout ?h) (rw_os w) = Some (True, os1)"
    and a: "appended (rw_os w) (FileHeader_layout ?h) os1"
    using WriteAll_good [OF assms] by blast
  obtain os2 where "WriteMetadata (rw_bin_fd w) topics os1 = Some (True, os2)"
    "appended os1 (concat (map TopicMetaEntry_layout (map meta_of topics))) os2"
    using WriteMetadata_good [OF assms(1) appended_good [OF a assms(2)]] by blast
  with ser w1 appended_trans [OF a] show ?thesis
    by (auto simp: WriteFileHeaderAndMetadata_def session_prefix_def)
qed

lemma WriteRecord_good:
  assumes "0 \<le> rw_bin_fd w" and "good_disk (rw_os w)" and "unat (pr_payload_len r) \<le> length (pr_payload r)"
  shows "\<exists>os'. WriteRecord r w = Some (True, w\<lparr>rw_os := os', rw_pending := rw_pending w + 1\<rparr>)
    \<and> appended (rw_os w) (record_bytes (popped_entry r)) os'"
proof -
  let ?h = "RecordHeader_init\<lparr>rh_topic_id := pr_topic_id r, rh_stamp_ns := pr_stamp_ns r, rh_seq := pr_seq r\<rparr>"
  let ?pl = "take (unat (pr_payload_len r)) (pr_payload r)"
  have h: "?h = entry_header (popped_entry r)" "?pl = entry_payload (popped_entry r)"
    by (simp_all add: entry_header_def popped_entry_def RecordHeader_init_def entry_payload_def)
  have ser: "RecordHeader_Serialize ?h (replicate kRecordHeaderWireSize 0) 0 = Some (RecordHeader_layout ?h)"
    by (rule rh.ser_exact) simp_all
  obtain os1 where w1: "WriteAll (rw_bin_fd w) (RecordHeader_layout ?h) (rw_os w) = Some (True, os1)"
    and a: "appended (rw_os w) (RecordHeader_layout ?h) os1"
    using WriteAll_good [OF assms(1,2)] by blast
  obtain os2 where w2: "WriteAll (rw_bin_fd w) ?pl os1 = Some (True, os2)" and b: "appended os1 ?pl os2"
    using WriteAll_good [OF assms(1) appended_good [OF a assms(2)]] by blast
  have "appended (rw_os w) (record_bytes (popped_entry r)) os2"
    using appended_trans [OF a b] by (simp only: record_bytes_def h)
  with ser w1 w2 assms(1,3) show ?thesis by (auto simp: WriteRecord_def mem_read_def)
qed

lemma Open_good:
  assumes "0 \<le> os_open_fd (rw_os w)" and "good_disk (rw_os w)" and "rw_thread w = None"
  shows "\<exists>w'. RecordWriter_Open base topics w = Some (True, w')
    \<and> os_file (rw_os w') = session_prefix topics (rw_os w) \<and> good_disk (rw_os w')
    \<and> rw_bin_fd w' = os_open_fd (rw_os w) \<and> rw_thread w' = Some LoopTest \<and> \<not> rw_shutdown w'
    \<and> rw_ring w' = rw_ring w \<and> rw_rec w' = PoppedRecord_init \<and> rw_pending w' = rw_pending w
    \<and> os_synced (rw_os w') = 0"
proof -
  let ?os = "(rw_os w)\<lparr>os_file := [], os_synced := 0\<rparr>"
  let ?w = "w\<lparr>rw_bin_path := base @ lit ''.bin'', rw_bin_fd := os_open_fd (rw_os w), rw_os := ?os\<rparr>"
  have "good_disk ?os" using assms(2) by (simp add: good_disk_def)
  then obtain os' where h: "WriteFileHeaderAndMetadata topics ?w = Some (True, ?w\<lparr>rw_os := os'\<rparr>)"
    and a: "appended ?os (session_prefix topics ?os) os'"
    using WriteHeader_good [of ?w topics] assms(1) by auto
  have "session_prefix topics ?os = session_prefix topics (rw_os w)"
    by (simp add: session_prefix_def header_of_def)
  then have "os_file os' = session_prefix topics (rw_os w)" "good_disk os'" "os_synced os' = 0"
    using appended_frame(1,3) [OF a] appended_good [OF a \<open>good_disk ?os\<close>] by simp_all
  with h assms show ?thesis
    by (auto simp: RecordWriter_Open_def sys_open_trunc_def steady_now_def Let_def good_disk_def)
qed

section \<open>The writer thread\<close>

definition writer_ok :: "RecordWriter \<Rightarrow> bool" where
  "writer_ok w \<longleftrightarrow> ring_wf ring_exponent (rw_ring w) \<and> out_wf (rw_rec w) \<and> 0 \<le> rw_bin_fd w \<and> good_disk (rw_os w)"

abbreviation queued :: "RecordWriter \<Rightarrow> entry list" where
  "queued w \<equiv> ring_queue ring_exponent (rw_ring w)"

abbreviation file_of :: "RecordWriter \<Rightarrow> bytes" where
  "file_of w \<equiv> os_file (rw_os w)"

lemma ring_exponent_less [simp]: "ring_exponent < 64"
  by (simp add: ring_exponent_def)

interpretation wq: bounded_fifo "ring_push ring_exponent" "ring_pop ring_exponent" "ring_queue ring_exponent"
  "ring_inv ring_exponent" "2 ^ ring_exponent" fits
  by (rule ring_is_fifo) simp

text \<open>The pop used by the thread, which reuses its local record, agrees with a pop into a fresh one.\<close>

lemma TryPop_ring_pop:
  assumes "ring_wf ring_exponent rb" and "out_wf out"
  shows "(ring_pop ring_exponent rb = None \<and> TryPop (2 ^ ring_exponent) out rb = Some (False, out, rb))
    \<or> (\<exists>e r rb'. ring_pop ring_exponent rb = Some (e, rb') \<and> TryPop (2 ^ ring_exponent) out rb = Some (True, r, rb')
        \<and> popped_entry r = e \<and> out_wf r \<and> unat (pr_payload_len r) \<le> kMaxPayloadBytes)"
  using TryPop_cases [OF ring_exponent_less assms] ring_pop_result [OF ring_exponent_less assms(1)]
  by (auto split: if_splits) (simp add: slot_entry_def)

text \<open>What one drain iteration does: nothing, or one record moved from the ring to the file.\<close>

definition moved :: "RecordWriter \<Rightarrow> entry \<Rightarrow> RecordWriter \<Rightarrow> bool" where
  "moved w e w' \<longleftrightarrow> ring_pop ring_exponent (rw_ring w) = Some (e, rw_ring w') \<and>
     file_of w' = file_of w @ record_bytes e \<and> rw_bin_fd w' = rw_bin_fd w"

definition idle :: "RecordWriter \<Rightarrow> RecordWriter \<Rightarrow> bool" where
  "idle w w' \<longleftrightarrow> rw_ring w' = rw_ring w \<and> file_of w' = file_of w \<and> rw_bin_fd w' = rw_bin_fd w"

lemma drain_step_cases:
  assumes "writer_ok w"
  obtains (miss) "drain_step w = Some (False, w)" "ring_pop ring_exponent (rw_ring w) = None"
  | (hit) e w' where "drain_step w = Some (True, w')" "moved w e w'" "writer_ok w'"
      "rw_shutdown w' = rw_shutdown w" "rw_thread w' = rw_thread w"
proof -
  have ok: "ring_wf ring_exponent (rw_ring w)" "out_wf (rw_rec w)" "0 \<le> rw_bin_fd w" "good_disk (rw_os w)"
    using assms by (simp_all add: writer_ok_def)
  from TryPop_ring_pop [OF ok(1,2)] show thesis
  proof (elim disjE exE conjE)
    assume "ring_pop ring_exponent (rw_ring w) = None"
      "TryPop (2 ^ ring_exponent) (rw_rec w) (rw_ring w) = Some (False, rw_rec w, rw_ring w)"
    then show thesis by (intro miss) (simp_all add: drain_step_def)
  next
    fix e r rb'
    assume p: "ring_pop ring_exponent (rw_ring w) = Some (e, rb')"
      "TryPop (2 ^ ring_exponent) (rw_rec w) (rw_ring w) = Some (True, r, rb')"
      and r: "popped_entry r = e" "out_wf r" "unat (pr_payload_len r) \<le> kMaxPayloadBytes"
    let ?w = "w\<lparr>rw_rec := r, rw_ring := rb'\<rparr>"
    obtain os' where wr: "WriteRecord r ?w = Some (True, ?w\<lparr>rw_os := os', rw_pending := rw_pending w + 1\<rparr>)"
      and a: "appended (rw_os w) (record_bytes e) os'"
      using WriteRecord_good [of ?w r] ok r by (auto simp: out_wf_def)
    let ?w' = "?w\<lparr>rw_os := os', rw_pending := rw_pending w + 1\<rparr>"
    have "writer_ok ?w'"
      using ok r(2) appended_good [OF a] ring_pop_wf [OF ring_exponent_less ok(1) p(1)]
      by (simp add: writer_ok_def)
    moreover have "moved w e ?w'" using p(1) appended_frame(1) [OF a] by (simp add: moved_def)
    ultimately show thesis
      using p wr by (intro hit [of ?w' e]) (simp_all add: drain_step_def)
  qed
qed

lemma MaybeFlush_frame:
  "idle w (MaybeFlush w)" "rw_shutdown (MaybeFlush w) = rw_shutdown w" "writer_ok w \<Longrightarrow> writer_ok (MaybeFlush w)"
  by (auto simp: MaybeFlush_def idle_def writer_ok_def steady_now_def sys_fsync_def good_disk_def Let_def)

lemma writer_ok_thread [simp]: "writer_ok (w\<lparr>rw_thread := t\<rparr>) = writer_ok w"
  by (simp add: writer_ok_def)

lemma writer_ok_shutdown [simp]: "writer_ok (w\<lparr>rw_shutdown := b\<rparr>) = writer_ok w"
  by (simp add: writer_ok_def)

lemma thread_step_cases:
  assumes "writer_ok w"
  obtains w' where "thread_step pc w = Some w'" "writer_ok w'" "rw_shutdown w' = rw_shutdown w"
    "idle w w' \<or> (\<exists>e. moved w e w')"
proof (cases pc)
  case (Draining d)
  from assms show thesis
  proof (cases rule: drain_step_cases)
    case miss
    with Draining assms show thesis
      by (intro that [of "w\<lparr>rw_thread := Some (AfterDrain d)\<rparr>"]) (auto simp: idle_def)
  next
    case (hit e w')
    with Draining show thesis
      by (intro that [of "w'\<lparr>rw_thread := Some (Draining True)\<rparr>"]) (auto simp: moved_def)
  qed
next
  case FinalDrain
  from assms show thesis
  proof (cases rule: drain_step_cases)
    case miss
    with FinalDrain assms show thesis
      by (intro that [of "w\<lparr>rw_thread := Some FinalFlush\<rparr>"]) (auto simp: idle_def)
  next
    case (hit e w')
    with FinalDrain show thesis
      by (intro that [of "w'\<lparr>rw_thread := Some FinalDrain\<rparr>"]) (auto simp: moved_def)
  qed
next
  case (AfterDrain d)
  with assms MaybeFlush_frame [of w] show thesis
    by (intro that [of "(if d then MaybeFlush w else w)\<lparr>rw_thread := Some LoopTest\<rparr>"])
      (auto simp: idle_def Let_def)
next
  case FinalFlush
  with assms MaybeFlush_frame [of w] show thesis
    by (intro that [of "(MaybeFlush w)\<lparr>rw_thread := Some Exited\<rparr>"]) (auto simp: idle_def)
next
  case LoopTest
  with assms show thesis
    by (intro that [of "w\<lparr>rw_thread := Some (if \<not> rw_shutdown w then Draining False else FinalDrain)\<rparr>"])
      (auto simp: idle_def)
next
  case Exited
  with assms show thesis by (intro that [of w]) (auto simp: idle_def)
qed

lemma moved_front:
  assumes "moved w e w'" and "ring_inv ring_exponent (rw_ring w)"
  shows "queued w = e # queued w'" "ring_inv ring_exponent (rw_ring w')"
proof -
  have p: "ring_pop ring_exponent (rw_ring w) = Some (e, rw_ring w')" using assms(1) by (simp add: moved_def)
  obtain x xs where q: "queued w = x # xs"
    using wq.pop_empty [OF assms(2)] p by (cases "queued w") auto
  with wq.pop_front [OF assms(2) q] p show "queued w = e # queued w'" "ring_inv ring_exponent (rw_ring w')"
    by auto
qed

section \<open>Producers, the writer thread and the shutdown request interleaved\<close>

datatype label = Accept entry | Reject entry | Tau

inductive writer_step :: "RecordWriter \<Rightarrow> label \<Rightarrow> RecordWriter \<Rightarrow> bool" where
  producer_accepted: "unat len \<le> length data \<Longrightarrow>
    RecordWriter_Push t st sq data len w = Some (True, w') \<Longrightarrow>
    writer_step w (Accept (t, st, sq, take (unat len) data)) w'"
| producer_rejected: "unat len \<le> length data \<Longrightarrow>
    RecordWriter_Push t st sq data len w = Some (False, w') \<Longrightarrow>
    writer_step w (Reject (t, st, sq, take (unat len) data)) w'"
| thread: "rw_thread w = Some pc \<Longrightarrow> thread_step pc w = Some w' \<Longrightarrow> writer_step w Tau w'"
| shutdown: "writer_step w Tau (w\<lparr>rw_shutdown := True\<rparr>)"

inductive writer_trace :: "RecordWriter \<Rightarrow> label list \<Rightarrow> RecordWriter \<Rightarrow> bool" where
  trace_start: "writer_trace w [] w"
| trace_step: "writer_trace w ls w1 \<Longrightarrow> writer_step w1 l w2 \<Longrightarrow> writer_trace w (ls @ [l]) w2"

inductive_cases trace_NilE: "writer_trace w [] w'"

inductive_cases trace_singleE: "writer_trace w [l] w'"

lemma trace_single: "writer_trace w [l] w' \<Longrightarrow> writer_step w l w'"
  by (auto elim!: trace_singleE trace_NilE simp: append_eq_Cons_conv)

fun accepted :: "label list \<Rightarrow> entry list" where
  "accepted [] = []"
| "accepted (Accept e # ls) = e # accepted ls"
| "accepted (_ # ls) = accepted ls"

fun fits_label :: "label \<Rightarrow> bool" where
  "fits_label (Reject e) = fits e"
| "fits_label _ = False"

text \<open>No push was turned away because the ring was full.\<close>

definition no_overflow :: "label list \<Rightarrow> bool" where
  "no_overflow ls \<longleftrightarrow> list_all (\<lambda>l. \<not> fits_label l) ls"

lemma accepted_append: "accepted (ls @ ls') = accepted ls @ accepted ls'"
  by (induction ls rule: accepted.induct) simp_all

text \<open>A push by a producer in terms of the ring operation on entries.\<close>

lemma TryPush_take:
  "unat len \<le> length data \<Longrightarrow> TryPush C t st sq (take (unat len) data) len rb = TryPush C t st sq data len rb"
  by (simp add: TryPush_def fill_slot_def mem_read_def Let_def)

lemma Push_ring_push:
  assumes "unat len \<le> length data" and "RecordWriter_Push t st sq data len w = Some (ok, w')"
    and "e = (t, st, sq, take (unat len) data)"
  shows "\<exists>rb'. w' = w\<lparr>rw_ring := rb'\<rparr> \<and>
    (if fits e then ring_push ring_exponent e (rw_ring w) = (ok, rb') else \<not> ok \<and> rb' = rw_ring w)"
proof -
  obtain rb' where rb': "TryPush (2 ^ ring_exponent) t st sq data len (rw_ring w) = Some (ok, rb')"
    "w' = w\<lparr>rw_ring := rb'\<rparr>"
    using assms(2) by (auto simp: RecordWriter_Push_def bind_eq_Some_conv)
  have len: "length (take (unat len) data) = unat len" using assms(1) by simp
  have "ring_push ring_exponent e (rw_ring w) = (ok, rb')" if "fits e"
    by (simp add: assms(3) ring_push_def len TryPush_take [OF assms(1)] rb' del: length_take)
  moreover have "\<not> ok \<and> rb' = rw_ring w" if "\<not> fits e"
    using that rb'(1) len by (simp add: assms(3) fits_def TryPush_def del: length_take)
  ultimately show ?thesis using rb'(2) by auto
qed

lemma Push_total:
  assumes "ring_wf ring_exponent (rw_ring w)" and "unat len \<le> length data"
  shows "\<exists>ok w'. RecordWriter_Push t st sq data len w = Some (ok, w')"
  using TryPush_cases [OF ring_exponent_less assms, of t st sq] by (auto simp: RecordWriter_Push_def)

lemma push_accepted:
  assumes "ring_inv ring_exponent (rw_ring w)" and "fits e" and "length (queued w) < 2 ^ ring_exponent"
  shows "\<exists>rb'. writer_step w (Accept e) (w\<lparr>rw_ring := rb'\<rparr>) \<and> ring_push ring_exponent e (rw_ring w) = (True, rb')"
proof -
  obtain t st sq pl where e: "e = (t, st, sq, pl)" by (cases e)
  let ?len = "word_of_nat (length pl) :: u32"
  have len: "unat ?len = length pl" using assms(2) by (simp add: e fits_def unat_len_small)
  have wf: "ring_wf ring_exponent (rw_ring w)" using assms(1) by (simp add: ring_inv_def)
  obtain ok w' where p: "RecordWriter_Push t st sq pl ?len w = Some (ok, w')"
    using Push_total [OF wf, of ?len pl t st sq] len by auto
  with Push_ring_push [of ?len pl t st sq w ok w' e] len e assms(2) wq.push_room [OF assms]
  obtain rb' where "ok" "w' = w\<lparr>rw_ring := rb'\<rparr>" "ring_push ring_exponent e (rw_ring w) = (True, rb')" by auto
  with p len show ?thesis using producer_accepted [of ?len pl t st sq w w'] by (auto simp: e)
qed

text \<open>Every step as an effect on ring and file.\<close>

lemma writer_step_effect:
  assumes "writer_step w l w'" and "writer_ok w"
  shows "writer_ok w' \<and> rw_bin_fd w' = rw_bin_fd w \<and>
    (case l of
       Accept e \<Rightarrow> fits e \<and> ring_push ring_exponent e (rw_ring w) = (True, rw_ring w') \<and> file_of w' = file_of w
     | Reject e \<Rightarrow> (if fits e then ring_push ring_exponent e (rw_ring w) = (False, rw_ring w')
                    else rw_ring w' = rw_ring w) \<and> file_of w' = file_of w
     | Tau \<Rightarrow> idle w w' \<or> (\<exists>e. moved w e w'))"
  using assms(1)
proof cases
  case (producer_accepted len data t st sq)
  let ?e = "(t, st, sq, take (unat len) data)"
  obtain rb' where rb': "w' = w\<lparr>rw_ring := rb'\<rparr>" "fits ?e" "ring_push ring_exponent ?e (rw_ring w) = (True, rb')"
    using Push_ring_push [OF producer_accepted(2,3) refl] by (auto split: if_splits)
  have "ring_wf ring_exponent rb'"
    using rb' ring_push_wf [OF ring_exponent_less, of "rw_ring w" ?e] assms(2)
    by (simp add: writer_ok_def)
  with rb' assms(2) producer_accepted(1) show ?thesis by (auto simp: writer_ok_def)
next
  case (producer_rejected len data t st sq)
  let ?e = "(t, st, sq, take (unat len) data)"
  obtain rb' where rb': "w' = w\<lparr>rw_ring := rb'\<rparr>"
    "if fits ?e then ring_push ring_exponent ?e (rw_ring w) = (False, rb') else rb' = rw_ring w"
    using Push_ring_push [OF producer_rejected(2,3) refl] by auto
  have "ring_wf ring_exponent rb'"
    using rb'(2) ring_push_wf [OF ring_exponent_less, of "rw_ring w" ?e] assms(2)
    by (auto simp: writer_ok_def split: if_splits)
  with rb' assms(2) producer_rejected(1) show ?thesis by (auto simp: writer_ok_def)
next
  case (thread pc)
  obtain w1 where "thread_step pc w = Some w1" "writer_ok w1" "idle w w1 \<or> (\<exists>e. moved w e w1)"
    using thread_step_cases [OF assms(2), of pc] by metis
  with thread show ?thesis by (auto simp: idle_def moved_def)
next
  case shutdown
  with assms(2) show ?thesis by (simp add: idle_def)
qed

lemma trace_conserves:
  assumes "writer_trace w ls w'" and "writer_ok w"
  shows "writer_ok w' \<and> rw_bin_fd w' = rw_bin_fd w \<and>
    (\<exists>written. file_of w' = file_of w @ records_bytes written \<and>
      mset (accepted ls) + ready_entries (rw_ring w) = mset written + ready_entries (rw_ring w'))"
  using assms
proof (induction rule: writer_trace.induct)
  case (trace_start w)
  then show ?case by (auto intro!: exI [of _ "[]"])
next
  case (trace_step w ls w1 l w2)
  then obtain written where ih: "writer_ok w1" "rw_bin_fd w1 = rw_bin_fd w"
    "file_of w1 = file_of w @ records_bytes written"
    "mset (accepted ls) + ready_entries (rw_ring w) = mset written + ready_entries (rw_ring w1)"
    by auto
  have wf: "ring_wf ring_exponent (rw_ring w1)" using ih(1) by (simp add: writer_ok_def)
  note eff = writer_step_effect [OF trace_step.hyps(2) ih(1)]
  show ?case
  proof (cases l)
    case (Accept e)
    with eff ih ring_push_conserves(2) [OF ring_exponent_less wf, of e True "rw_ring w2"] show ?thesis
      by (auto simp: accepted_append intro!: exI [of _ written])
  next
    case (Reject e)
    with eff ih ring_push_conserves(2) [OF ring_exponent_less wf, of e False "rw_ring w2"] show ?thesis
      by (auto simp: accepted_append intro!: exI [of _ written] split: if_splits)
  next
    case Tau
    with eff consider "idle w1 w2" | e where "moved w1 e w2" by auto
    then show ?thesis
    proof cases
      case 1
      with eff ih Tau show ?thesis by (auto simp: accepted_append idle_def intro!: exI [of _ written])
    next
      case 2
      then have "ready_entries (rw_ring w1) = add_mset e (ready_entries (rw_ring w2))"
        using ring_pop_conserves(2) [OF ring_exponent_less wf] by (simp add: moved_def)
      with 2 eff ih Tau show ?thesis
        by (auto simp: accepted_append moved_def intro!: exI [of _ "written @ [e]"])
    qed
  qed
qed

lemma trace_fifo:
  assumes "writer_trace w ls w'" and "writer_ok w" and "ring_inv ring_exponent (rw_ring w)" and "no_overflow ls"
  shows "writer_ok w' \<and> ring_inv ring_exponent (rw_ring w') \<and>
    (\<exists>written. file_of w' = file_of w @ records_bytes written \<and>
       queued w @ accepted ls = written @ queued w')"
  using assms
proof (induction rule: writer_trace.induct)
  case (trace_start w)
  then show ?case by (auto intro!: exI [of _ "[]"])
next
  case (trace_step w ls w1 l w2)
  then obtain written where ih: "writer_ok w1" "ring_inv ring_exponent (rw_ring w1)"
    "file_of w1 = file_of w @ records_bytes written" "queued w @ accepted ls = written @ queued w1"
    by (auto simp: no_overflow_def)
  note eff = writer_step_effect [OF trace_step.hyps(2) ih(1)]
  show ?case
  proof (cases l)
    case (Accept e)
    with eff have p: "fits e" "ring_push ring_exponent e (rw_ring w1) = (True, rw_ring w2)" by auto
    with wq.push_full [OF ih(2) p(1)] wq.bounded [OF ih(2)] have "length (queued w1) < 2 ^ ring_exponent"
      by force
    with wq.push_room [OF ih(2) p(1)] p(2) eff ih Accept show ?thesis
      by (auto simp: accepted_append intro!: exI [of _ written])
  next
    case (Reject e)
    with eff ih trace_step.prems(3) show ?thesis
      by (auto simp: accepted_append no_overflow_def intro!: exI [of _ written])
  next
    case Tau
    with eff consider "idle w1 w2" | e where "moved w1 e w2" by auto
    then show ?thesis
    proof cases
      case 1
      with eff ih Tau show ?thesis by (auto simp: accepted_append idle_def intro!: exI [of _ written])
    next
      case 2
      with moved_front [OF 2 ih(2)] eff ih Tau show ?thesis
        by (auto simp: accepted_append moved_def intro!: exI [of _ "written @ [e]"])
    qed
  qed
qed


text \<open>Without a thread only producers act: accepted records pile up in the ring.\<close>

lemma trace_without_thread:
  assumes "writer_trace w ls w'" and "rw_thread w = None" and "ring_wf ring_exponent (rw_ring w)"
  shows "rw_thread w' = None" "rw_bin_fd w' = rw_bin_fd w" "rw_os w' = rw_os w"
    "ready_entries (rw_ring w') = mset (accepted ls) + ready_entries (rw_ring w)"
    "rb_dropped_count (rw_ring w') = rb_dropped_count (rw_ring w) + word_of_nat (length (filter fits_label ls))"
proof -
  from assms have "rw_thread w' = None \<and> rw_bin_fd w' = rw_bin_fd w \<and> rw_os w' = rw_os w \<and> ring_wf ring_exponent (rw_ring w') \<and>
    ready_entries (rw_ring w') = mset (accepted ls) + ready_entries (rw_ring w) \<and>
    rb_dropped_count (rw_ring w') = rb_dropped_count (rw_ring w) + word_of_nat (length (filter fits_label ls))"
  proof (induction rule: writer_trace.induct)
    case (trace_step w ls w1 l w2)
    then have ih: "rw_thread w1 = None" "rw_bin_fd w1 = rw_bin_fd w" "rw_os w1 = rw_os w" "ring_wf ring_exponent (rw_ring w1)"
      "ready_entries (rw_ring w1) = mset (accepted ls) + ready_entries (rw_ring w)"
      "rb_dropped_count (rw_ring w1) = rb_dropped_count (rw_ring w) + word_of_nat (length (filter fits_label ls))" by auto
    note push = ring_push_conserves [OF ring_exponent_less ih(4)]
    from trace_step.hyps(2) show ?case
    proof cases
      case (producer_accepted len data t st sq)
      from Push_ring_push [OF producer_accepted(2,3) refl] obtain rb where "w2 = w1\<lparr>rw_ring := rb\<rparr>"
        "fits (t, st, sq, take (unat len) data)" "ring_push ring_exponent (t, st, sq, take (unat len) data) (rw_ring w1) = (True, rb)"
        by (auto split: if_splits)
      with push [OF this(2,3)] ih producer_accepted(1) show ?thesis by (simp add: accepted_append)
    next
      case (producer_rejected len data t st sq)
      let ?e = "(t, st, sq, take (unat len) data)"
      from Push_ring_push [OF producer_rejected(2,3) refl] obtain rb where rb: "w2 = w1\<lparr>rw_ring := rb\<rparr>"
        "if fits ?e then ring_push ring_exponent ?e (rw_ring w1) = (False, rb) else rb = rw_ring w1" by auto
      then show ?thesis
      proof (cases "fits ?e")
        case True
        with rb(2) have "ring_push ring_exponent ?e (rw_ring w1) = (False, rb)" by simp
        from push [OF True this] rb(1) True ih producer_rejected(1) show ?thesis by (simp add: accepted_append)
      next
        case False
        with rb ih producer_rejected(1) show ?thesis by (simp add: accepted_append)
      qed
    qed (use ih in \<open>auto simp: accepted_append\<close>)
  qed simp
  then show "rw_thread w' = None" "rw_bin_fd w' = rw_bin_fd w" "rw_os w' = rw_os w"
    "ready_entries (rw_ring w') = mset (accepted ls) + ready_entries (rw_ring w)"
    "rb_dropped_count (rw_ring w') = rb_dropped_count (rw_ring w) + word_of_nat (length (filter fits_label ls))" by blast+
qed

section \<open>The thread returns\<close>

text \<open>
  Running alone after the shutdown request the thread comes to its end: every step either takes a
  record out of the ring or gets closer to the return.
\<close>

fun rank :: "thread_pc \<Rightarrow> nat" where
  "rank (Draining d) = 5"
| "rank (AfterDrain d) = 4"
| "rank LoopTest = 3"
| "rank FinalDrain = 2"
| "rank FinalFlush = 1"
| "rank Exited = 0"

definition work :: "RecordWriter \<Rightarrow> nat" where
  "work w = 6 * size (ready_entries (rw_ring w)) + (case rw_thread w of None \<Rightarrow> 0 | Some pc \<Rightarrow> rank pc)"

text \<open>Past the final drain loop a pop finds nothing.\<close>

definition settled :: "RecordWriter \<Rightarrow> bool" where
  "settled w \<longleftrightarrow> (rw_thread w = Some FinalFlush \<or> rw_thread w = Some Exited
     \<longrightarrow> ring_pop ring_exponent (rw_ring w) = None)"

lemma moved_ready: "moved w e w' \<Longrightarrow> writer_ok w \<Longrightarrow> size (ready_entries (rw_ring w)) = Suc (size (ready_entries (rw_ring w')))"
  using ring_pop_conserves(2) [OF ring_exponent_less] by (simp add: moved_def writer_ok_def)

lemma drain_progress:
  assumes "writer_ok w" and "pc = Draining d \<or> pc = FinalDrain" and "rw_thread w = Some pc"
  obtains w' where "thread_step pc w = Some w'" "writer_ok w'" "rw_shutdown w' = rw_shutdown w"
    "work w' < work w" "settled w'"
  using assms(1)
proof (cases rule: drain_step_cases)
  case miss
  let ?w = "w\<lparr>rw_thread := Some (if pc = FinalDrain then FinalFlush else AfterDrain d)\<rparr>"
  show thesis
    using miss assms by (intro that [of ?w]) (auto simp: work_def settled_def)
next
  case (hit e w1)
  let ?w = "w1\<lparr>rw_thread := Some (if pc = FinalDrain then FinalDrain else Draining True)\<rparr>"
  show thesis
    using hit assms moved_ready [OF hit(2) assms(1)]
    by (intro that [of ?w]) (auto simp: work_def settled_def)
qed

lemma thread_progress:
  assumes "writer_ok w" and "rw_thread w = Some pc" and "pc \<noteq> Exited" and "rw_shutdown w" and "settled w"
  obtains w' where "thread_step pc w = Some w'" "writer_ok w'" "rw_shutdown w'" "work w' < work w" "settled w'"
proof (cases "(\<exists>d. pc = Draining d) \<or> pc = FinalDrain")
  case True
  then obtain d where "pc = Draining d \<or> pc = FinalDrain" by blast
  from drain_progress [OF assms(1) this assms(2)] show thesis using that assms(4) by metis
next
  case False
  note flush = MaybeFlush_frame [of w]
  have ring: "rw_ring (MaybeFlush w) = rw_ring w" using flush(1) by (simp add: idle_def)
  from False assms(3) consider "pc = LoopTest" | d where "pc = AfterDrain d" | "pc = FinalFlush"
    by (cases pc) auto
  then show thesis
  proof cases
    case 1
    with assms show thesis by (intro that [of "w\<lparr>rw_thread := Some FinalDrain\<rparr>"]) (simp_all add: work_def settled_def)
  next
    case (2 d)
    with assms flush ring show thesis
      by (intro that [of "(if d then MaybeFlush w else w)\<lparr>rw_thread := Some LoopTest\<rparr>"])
        (simp_all add: work_def settled_def Let_def)
  next
    case 3
    with assms flush ring show thesis
      by (intro that [of "(MaybeFlush w)\<lparr>rw_thread := Some Exited\<rparr>"]) (simp_all add: work_def settled_def)
  qed
qed

lemma trace_append: "writer_trace w1 ls' w2 \<Longrightarrow> writer_trace w ls w1 \<Longrightarrow> writer_trace w (ls @ ls') w2"
proof (induction rule: writer_trace.induct)
  case (trace_step w1 ls' w2 l w3)
  then show ?case using writer_trace.trace_step [of w "ls @ ls'" w2 l w3] by simp
qed simp

lemma trace_Cons: "writer_step w l w1 \<Longrightarrow> writer_trace w1 ls w2 \<Longrightarrow> writer_trace w (l # ls) w2"
  using trace_append [of w1 ls w2 w "[l]"] writer_trace.trace_step [OF writer_trace.trace_start, of w l w1] by simp

text \<open>A batch that fits into the free slots is accepted as a whole.\<close>

lemma push_all_accepted:
  assumes "ring_inv ring_exponent (rw_ring w)" and "\<forall>e \<in> set es. fits e" and "length (queued w) + length es \<le> 2 ^ ring_exponent"
  shows "\<exists>w'. writer_trace w (map Accept es) w' \<and> queued w' = queued w @ es"
  using assms
proof (induction es arbitrary: w)
  case Nil
  then show ?case using trace_start [of w] by (intro exI [of _ w]) simp
next
  case (Cons e es)
  then have fit: "fits e" "length (queued w) < 2 ^ ring_exponent" by simp_all
  from push_accepted [OF Cons.prems(1) fit] obtain rb where step: "writer_step w (Accept e) (w\<lparr>rw_ring := rb\<rparr>)"
    "ring_push ring_exponent e (rw_ring w) = (True, rb)" by blast
  with wq.push_room [OF Cons.prems(1) fit] have rb: "ring_inv ring_exponent rb" "ring_queue ring_exponent rb = queued w @ [e]"
    by auto
  with Cons.IH [of "w\<lparr>rw_ring := rb\<rparr>"] Cons.prems(2,3) obtain w' where
    "writer_trace (w\<lparr>rw_ring := rb\<rparr>) (map Accept es) w'" "queued w' = queued w @ e # es" by auto
  with trace_Cons [OF step(1)] show ?case by auto
qed

lemma thread_returns:
  assumes "writer_ok w" and "rw_thread w \<noteq> None" and "rw_shutdown w" and "settled w"
  shows "\<exists>w' n. WriterThreadMain w = Some w' \<and> writer_trace w (replicate n Tau) w' \<and>
    ring_pop ring_exponent (rw_ring w') = None"
  using assms
proof (induction "work w" arbitrary: w rule: less_induct)
  case less
  then obtain pc where pc: "rw_thread w = Some pc" by auto
  show ?case
  proof (cases "pc = Exited")
    case True
    with pc less.prems(4) show ?thesis
      by (intro exI [of _ w] exI [of _ 0]) (simp add: WriterThreadMain.simps trace_start settled_def)
  next
    case False
    from thread_progress [OF less.prems(1) pc False less.prems(3,4)] obtain w1 where
      w1: "thread_step pc w = Some w1" "writer_ok w1" "rw_shutdown w1" "work w1 < work w" "settled w1" .
    have "rw_thread w1 \<noteq> None" using w1(1) False by (cases pc) (auto simp: bind_eq_Some_conv Let_def)
    with less.hyps w1 obtain w' n where w': "WriterThreadMain w1 = Some w'" "writer_trace w1 (replicate n Tau) w'"
      "ring_pop ring_exponent (rw_ring w') = None" by metis
    have "WriterThreadMain w = Some w'" using pc False w1(1) w'(1) by (subst WriterThreadMain.simps) simp
    moreover have "writer_trace w (replicate (Suc n) Tau) w'"
      using trace_Cons [OF writer_step.thread [OF pc w1(1)] w'(2)] by simp
    ultimately show ?thesis using w'(3) by blast
  qed
qed

text \<open>The state that \<open>Close\<close> leaves after the join.\<close>

definition closed :: "RecordWriter \<Rightarrow> RecordWriter" where
  "closed w = w\<lparr>rw_thread := None, rw_os := sys_fsync (rw_bin_fd w) (rw_os w), rw_bin_fd := -1\<rparr>"

lemma closed_simps [simp]:
  "file_of (closed w) = file_of w" "rw_bin_fd (closed w) = -1" "rw_thread (closed w) = None"
  "rw_ring (closed w) = rw_ring w"
  by (simp_all add: closed_def sys_fsync_def)

lemma Close_returns:
  assumes "writer_ok w" and "rw_thread w \<noteq> None" and "settled w"
  shows "\<exists>w' n. RecordWriter_Close w = Some (closed w') \<and> writer_trace w (replicate n Tau) w' \<and>
    ring_pop ring_exponent (rw_ring w') = None \<and> os_synced (rw_os (closed w')) = length (file_of w')"
proof -
  let ?w = "w\<lparr>rw_shutdown := True\<rparr>"
  have "settled ?w" using assms(3) by (simp add: settled_def)
  then obtain w' n where w': "WriterThreadMain ?w = Some w'" "writer_trace ?w (replicate n Tau) w'"
    "ring_pop ring_exponent (rw_ring w') = None"
    using thread_returns [of ?w] assms by auto
  have "writer_trace w (replicate (Suc n) Tau) w'"
    using trace_Cons [OF writer_step.shutdown w'(2)] by simp
  moreover have "rw_bin_fd w' \<ge> 0"
    using trace_conserves [OF w'(2)] assms(1) by (simp add: writer_ok_def)
  ultimately show ?thesis
    using w' assms(2)
    by (intro exI [of _ w'] exI [of _ "Suc n"]) (simp add: RecordWriter_Close_def closed_def sys_fsync_def)
qed

text \<open>The points of \<open>WriterThreadMain\<close> before the final drain.\<close>

fun live :: "thread_pc \<Rightarrow> bool" where
  "live LoopTest = True"
| "live (Draining d) = True"
| "live (AfterDrain d) = True"
| "live _ = False"

text \<open>Until the shutdown request the thread stays in its main loop.\<close>

definition serving :: "RecordWriter \<Rightarrow> bool" where
  "serving w \<longleftrightarrow> (case rw_thread w of None \<Rightarrow> False | Some pc \<Rightarrow> rw_shutdown w \<or> live pc)"

lemma thread_step_serving:
  assumes "thread_step pc w = Some w'" and "rw_thread w = Some pc" and "serving w"
  shows "serving w'"
proof -
  have sh: "rw_shutdown w1 = rw_shutdown w" if "drain_step w = Some (got, w1)" for got w1
    using that by (auto simp: drain_step_def WriteRecord_def bind_eq_Some_conv split: if_splits prod.splits)
  from assms sh MaybeFlush_frame(2) [of w] show ?thesis
    by (cases pc) (auto simp: serving_def bind_eq_Some_conv Let_def split: prod.splits)
qed

lemma writer_step_serving: "writer_step w l w' \<Longrightarrow> serving w \<Longrightarrow> serving w'"
proof (induction rule: writer_step.induct)
  case (thread w pc w')
  then show ?case by (blast intro: thread_step_serving)
qed (auto simp: serving_def RecordWriter_Push_def bind_eq_Some_conv split: option.splits prod.splits)

lemma trace_serving: "writer_trace w ls w' \<Longrightarrow> serving w \<Longrightarrow> serving w'"
  by (induction rule: writer_trace.induct) (blast intro: writer_step_serving)+

section \<open>Whole sessions\<close>

lemma accepted_Tau [simp]: "accepted (replicate n Tau) = []"
  by (induction n) simp_all

lemma no_overflow_append [simp]: "no_overflow (ls @ ls') \<longleftrightarrow> no_overflow ls \<and> no_overflow ls'"
  by (simp add: no_overflow_def)

lemma no_overflow_Tau [simp]: "no_overflow (replicate n Tau)"
  by (induction n) (simp_all add: no_overflow_def)

text \<open>The drop counter counts the pushes that met a full ring, modulo its 64 bits.\<close>

lemma trace_dropped:
  assumes "writer_trace w ls w'" and "writer_ok w"
  shows "RecordWriter_DroppedCount w' = RecordWriter_DroppedCount w + word_of_nat (length (filter fits_label ls))"
  using assms
proof (induction rule: writer_trace.induct)
  case (trace_step w ls w1 l w2)
  then have ih: "RecordWriter_DroppedCount w1 = RecordWriter_DroppedCount w + word_of_nat (length (filter fits_label ls))"
    and ok: "writer_ok w1" using trace_conserves by blast+
  have wf: "ring_wf ring_exponent (rw_ring w1)" using ok by (simp add: writer_ok_def)
  note eff = writer_step_effect [OF trace_step.hyps(2) ok]
  note push = ring_push_conserves(3) [OF ring_exponent_less wf]
  note pop = ring_pop_conserves(3) [OF ring_exponent_less wf]
  have "rb_dropped_count (rw_ring w2) = rb_dropped_count (rw_ring w1) + (if fits_label l then 1 else 0)"
  proof (cases l)
    case (Accept e)
    then show ?thesis using eff push [of e True "rw_ring w2"] by simp
  next
    case (Reject e)
    then show ?thesis using eff push [of e False "rw_ring w2"] by (cases "fits e") simp_all
  next
    case Tau
    then show ?thesis using eff pop by (auto simp: idle_def moved_def)
  qed
  with ih show ?case by (simp add: RecordWriter_DroppedCount_def DroppedCount_def)
qed simp

lemma dropped_no_overflow:
  assumes "writer_trace w ls w'" and "writer_ok w" and "length ls < 2 ^ 64"
  shows "no_overflow ls \<longleftrightarrow> RecordWriter_DroppedCount w' = RecordWriter_DroppedCount w"
proof -
  let ?n = "length (filter fits_label ls)"
  have n: "?n < 2 ^ 64" using assms(3) by (rule le_less_trans [OF length_filter_le])
  have "RecordWriter_DroppedCount w' = RecordWriter_DroppedCount w \<longleftrightarrow> (word_of_nat ?n :: u64) = 0"
    using trace_dropped [OF assms(1,2)] by simp
  also have "\<dots> \<longleftrightarrow> ?n = 0"
    using n by (auto simp: word_of_nat_eq_0_iff dest: dvd_imp_le)
  finally show ?thesis by (simp add: no_overflow_def list_all_iff filter_empty_conv)
qed

text \<open>From a fresh or reusable writer: \<open>Open\<close>, any interleaving, then \<open>Close\<close>.\<close>

definition ready_to_open :: "RecordWriter \<Rightarrow> bool" where
  "ready_to_open w \<longleftrightarrow> 0 \<le> os_open_fd (rw_os w) \<and> good_disk (rw_os w) \<and> rw_thread w = None
     \<and> ring_inv ring_exponent (rw_ring w)"

lemma Open_session:
  assumes "ready_to_open w"
  shows "\<exists>w0. RecordWriter_Open base topics w = Some (True, w0) \<and> writer_ok w0 \<and> serving w0 \<and>
    rw_ring w0 = rw_ring w \<and> file_of w0 = session_prefix topics (rw_os w) \<and> rw_thread w0 = Some LoopTest
    \<and> \<not> rw_shutdown w0"
  using assms Open_good [of w base topics]
  by (auto simp: ready_to_open_def writer_ok_def serving_def ring_inv_def)

lemma serving_settled: "serving w \<Longrightarrow> \<not> rw_shutdown w \<Longrightarrow> settled w \<and> rw_thread w \<noteq> None"
  by (auto simp: serving_def settled_def split: option.splits)

lemma session_closes:
  assumes "writer_ok w0" and "serving w0" and "writer_trace w0 ls w1" and "\<not> rw_shutdown w1"
  obtains w2 n where "RecordWriter_Close w1 = Some (closed w2)" "writer_trace w0 (ls @ replicate n Tau) w2"
    "ring_pop ring_exponent (rw_ring w2) = None" "os_synced (rw_os (closed w2)) = length (file_of w2)"
proof -
  have "writer_ok w1" using trace_conserves [OF assms(3,1)] by blast
  with serving_settled [OF trace_serving [OF assms(3,2)] assms(4)] Close_returns [of w1]
  obtain w2 n where w2: "RecordWriter_Close w1 = Some (closed w2)" "writer_trace w1 (replicate n Tau) w2"
    "ring_pop ring_exponent (rw_ring w2) = None" "os_synced (rw_os (closed w2)) = length (file_of w2)" by blast
  from trace_append [OF w2(2) assms(3)] w2 show thesis by (intro that) simp_all
qed

lemma session_file:
  assumes "writer_ok w0" and "ring_inv ring_exponent (rw_ring w0)" and "serving w0"
    and "writer_trace w0 ls w1" and "\<not> rw_shutdown w1"
  shows "\<exists>w2. RecordWriter_Close w1 = Some w2 \<and> os_synced (rw_os w2) = length (file_of w2) \<and> rw_bin_fd w2 = -1
    \<and> rw_thread w2 = None \<and> ring_wf ring_exponent (rw_ring w2)
    \<and> (no_overflow ls \<longrightarrow> file_of w2 = file_of w0 @ records_bytes (queued w0 @ accepted ls)
         \<and> ring_inv ring_exponent (rw_ring w2) \<and> queued w2 = [])"
proof -
  obtain w2 n where w2: "RecordWriter_Close w1 = Some (closed w2)" "writer_trace w0 (ls @ replicate n Tau) w2"
    "ring_pop ring_exponent (rw_ring w2) = None" "os_synced (rw_os (closed w2)) = length (file_of w2)"
    by (rule session_closes [OF assms(1,3-5)])
  have "file_of w2 = file_of w0 @ records_bytes (queued w0 @ accepted ls) \<and> ring_inv ring_exponent (rw_ring w2) \<and> queued w2 = []"
    if no: "no_overflow ls"
  proof -
    from trace_fifo [OF w2(2) assms(1,2)] no obtain written where
      t: "ring_inv ring_exponent (rw_ring w2)" "file_of w2 = file_of w0 @ records_bytes written"
        "queued w0 @ accepted ls = written @ queued w2" by (auto simp: accepted_append)
    moreover have "queued w2 = []" using wq.pop_front [OF t(1)] w2(3) by (cases "queued w2") auto
    ultimately show ?thesis by simp
  qed
  moreover have "ring_wf ring_exponent (rw_ring w2)"
    using trace_conserves [OF w2(2) assms(1)] by (simp add: writer_ok_def)
  ultimately show ?thesis using w2 by auto
qed

lemma session_outcome:
  assumes "writer_ok w0" and "ring_inv ring_exponent (rw_ring w0)" and "serving w0"
    and "writer_trace w0 ls w1" and "\<not> rw_shutdown w1" and "length ls < 2 ^ 64"
  shows "\<exists>w2. RecordWriter_Close w1 = Some w2 \<and> os_synced (rw_os w2) = length (file_of w2) \<and> rw_bin_fd w2 = -1
    \<and> rw_thread w2 = None \<and> ring_wf ring_exponent (rw_ring w2) \<and> 0 \<le> rw_bin_fd w1
    \<and> (RecordWriter_DroppedCount w2 = RecordWriter_DroppedCount w0 \<longrightarrow>
      no_overflow ls \<and> file_of w2 = file_of w0 @ records_bytes (queued w0 @ accepted ls))"
proof -
  obtain w2 n where w2: "RecordWriter_Close w1 = Some (closed w2)" "writer_trace w0 (ls @ replicate n Tau) w2"
    "os_synced (rw_os (closed w2)) = length (file_of w2)"
    by (rule session_closes [OF assms(1,3-5)])
  have "RecordWriter_DroppedCount (closed w2) = RecordWriter_DroppedCount w1"
    using trace_dropped [OF w2(2) assms(1)] trace_dropped [OF assms(4,1)]
    by (simp add: RecordWriter_DroppedCount_def filter_empty_conv)
  moreover have "ring_wf ring_exponent (rw_ring w2)" "0 \<le> rw_bin_fd w1"
    using trace_conserves [OF w2(2) assms(1)] trace_conserves [OF assms(4,1)] by (simp_all add: writer_ok_def)
  ultimately show ?thesis using dropped_no_overflow [OF assms(4,1,6)] session_file [OF assms(1-5)] w2 by auto
qed

text \<open>All records that producers offered, accepted or not.\<close>

fun offered :: "label list \<Rightarrow> entry list" where
  "offered [] = []"
| "offered (Accept e # ls) = e # offered ls"
| "offered (Reject e # ls) = e # offered ls"
| "offered (Tau # ls) = offered ls"

lemma offered_append: "offered (ls @ ls') = offered ls @ offered ls'"
  by (induction ls rule: offered.induct) simp_all

lemma accepted_offered: "no_overflow ls \<Longrightarrow> \<forall>e \<in> set (offered ls). fits e \<Longrightarrow> accepted ls = offered ls"
  by (induction ls rule: offered.induct) (auto simp: no_overflow_def)

section \<open>A write error in the middle of a record\<close>

text \<open>The next call takes the whole header, the one after it fails, later ones succeed.\<close>

definition fails_after_header :: "Os \<Rightarrow> bool" where
  "fails_after_header os \<longleftrightarrow> (\<exists>n \<ge> kRecordHeaderWireSize. os_reply os (os_writes os) = WOk n)
     \<and> os_reply os (Suc (os_writes os)) = WErr \<and> good_disk (os\<lparr>os_writes := os_writes os + 2\<rparr>)"

lemma WriteRecord_torn:
  assumes "0 \<le> rw_bin_fd w" and "fails_after_header (rw_os w)" and "0 < unat (pr_payload_len r)"
    and "unat (pr_payload_len r) \<le> length (pr_payload r)"
  shows "\<exists>os'. WriteRecord r w = Some (False, w\<lparr>rw_os := os'\<rparr>) \<and> good_disk os' \<and>
    os_file os' = os_file (rw_os w) @ RecordHeader_layout (entry_header (popped_entry r))"
proof -
  let ?h = "RecordHeader_init\<lparr>rh_topic_id := pr_topic_id r, rh_stamp_ns := pr_stamp_ns r, rh_seq := pr_seq r\<rparr>"
  let ?os = "rw_os w" and ?hb = "RecordHeader_layout ?h"
  have h: "?h = entry_header (popped_entry r)"
    by (simp add: entry_header_def popped_entry_def RecordHeader_init_def)
  have ser: "RecordHeader_Serialize ?h (replicate kRecordHeaderWireSize 0) 0 = Some ?hb"
    by (rule rh.ser_exact) simp_all
  have len: "length ?hb = kRecordHeaderWireSize" by (simp add: rh.layout_length)
  then have ne: "?hb \<noteq> []" by (auto simp: wire_sizes)
  obtain n where n: "kRecordHeaderWireSize \<le> n" "os_reply ?os (os_writes ?os) = WOk n"
    using assms(2) by (auto simp: fails_after_header_def)
  let ?os1 = "?os\<lparr>os_writes := Suc (os_writes ?os), os_file := os_file ?os @ ?hb\<rparr>"
  have "sys_write (rw_bin_fd w) ?hb ?os = (int kRecordHeaderWireSize, ?os1)"
    using n assms(1) len by (simp add: sys_write_def Let_def min_absorb2)
  then have w1: "WriteAll (rw_bin_fd w) ?hb ?os = Some (True, ?os1)"
    using ne len by (subst WriteAll.simps) (simp add: WriteAll.simps [of _ "[]"])
  obtain pl where pl: "mem_read (pr_payload r) 0 (unat (pr_payload_len r)) = Some pl" "pl \<noteq> []"
    using assms(3,4) by (cases "pr_payload r") (auto simp: mem_read_def)
  have "WriteAll (rw_bin_fd w) pl ?os1 = Some (False, ?os1\<lparr>os_writes := Suc (Suc (os_writes ?os))\<rparr>)"
    using pl(2) assms(2) by (subst WriteAll.simps) (simp add: sys_write_def fails_after_header_def Let_def)
  with w1 ser pl(1) assms(1,2) h show ?thesis
    by (auto simp: WriteRecord_def fails_after_header_def good_disk_def)
qed

text \<open>The result of \<open>WriteRecord\<close> is ignored: when the payload write of a record fails, its header
  stays in the file and the next record is appended right behind it, in the middle of the first.\<close>

lemma drain_torn:
  assumes "ring_inv ring_exponent (rw_ring w)" and "out_wf (rw_rec w)" and "0 \<le> rw_bin_fd w"
    and "queued w = e1 # e2 # es" and "entry_payload e1 \<noteq> []" and "fails_after_header (rw_os w)"
  shows "\<exists>w1 w2. drain_step w = Some (True, w1) \<and> drain_step w1 = Some (True, w2) \<and>
    file_of w2 = file_of w @ RecordHeader_layout (entry_header e1) @ record_bytes e2 \<and> queued w2 = es"
proof -
  have wf: "ring_wf ring_exponent (rw_ring w)" using assms(1) by (simp add: ring_inv_def)
  obtain rb1 where p1: "ring_pop ring_exponent (rw_ring w) = Some (e1, rb1)" "ring_inv ring_exponent rb1"
    "ring_queue ring_exponent rb1 = e2 # es"
    using wq.pop_front [OF assms(1,4)] by blast
  with TryPop_ring_pop [OF wf assms(2)] obtain r where
    r: "TryPop (2 ^ ring_exponent) (rw_rec w) (rw_ring w) = Some (True, r, rb1)" "popped_entry r = e1" "out_wf r"
      "unat (pr_payload_len r) \<le> kMaxPayloadBytes" by auto
  let ?w = "w\<lparr>rw_rec := r, rw_ring := rb1\<rparr>"
  have "0 < unat (pr_payload_len r)" using assms(5) r(2) by (auto simp: entry_payload_def popped_entry_def)
  then obtain os' where t: "WriteRecord r ?w = Some (False, ?w\<lparr>rw_os := os'\<rparr>)" "good_disk os'"
    "os_file os' = file_of w @ RecordHeader_layout (entry_header e1)"
    using WriteRecord_torn [of ?w r] assms(3,6) r by (auto simp: out_wf_def)
  let ?w1 = "?w\<lparr>rw_os := os'\<rparr>"
  have d1: "drain_step w = Some (True, ?w1)" using r(1) t(1) by (simp add: drain_step_def)
  have "writer_ok ?w1" using p1(2) r(3) t(2) assms(3) by (simp add: writer_ok_def ring_inv_def)
  then show ?thesis
  proof (cases rule: drain_step_cases)
    case miss
    with wq.pop_front [OF p1(2,3)] show ?thesis by simp
  next
    case (hit e w2)
    with moved_front [of ?w1 e w2] p1(2,3) have "e = e2" "queued w2 = es" by auto
    with d1 hit t(3) show ?thesis by (intro exI [of _ ?w1] exI [of _ w2]) (simp add: moved_def)
  qed
qed

section \<open>Properties\<close>

text \<open>C2: A whole recording session. On a disk that keeps accepting bytes (in chunks of any size) \<open>Open\<close>
  succeeds, and whatever way producers, the writer thread and its clock interleave before \<open>Close\<close>, pushes
  turned away by a full ring included, \<open>Close\<close> returns with the file closed and synced; if no push met a full ring, the file is the
  header, the metadata table, and then exactly the accepted records in the order of their
  acceptance (records pushed before \<open>Open\<close> first).\<close>

theorem recording_session:
  assumes "ready_to_open w"
  shows "\<exists>w0. RecordWriter_Open base topics w = Some (True, w0) \<and>
    (\<forall>ls w1. writer_trace w0 ls w1 \<and> \<not> rw_shutdown w1 \<longrightarrow>
      (\<exists>w2. RecordWriter_Close w1 = Some w2 \<and> os_synced (rw_os w2) = length (file_of w2)
        \<and> rw_bin_fd w2 = -1 \<and> rw_thread w2 = None
        \<and> (no_overflow ls \<longrightarrow>
             file_of w2 = session_prefix topics (rw_os w) @ records_bytes (queued w @ accepted ls))))"
proof -
  obtain w0 where w0: "RecordWriter_Open base topics w = Some (True, w0)" "writer_ok w0" "serving w0"
    "rw_ring w0 = rw_ring w" "file_of w0 = session_prefix topics (rw_os w)"
    using Open_session [OF assms] by blast
  moreover have "ring_inv ring_exponent (rw_ring w0)" using assms w0(4) by (simp add: ready_to_open_def)
  ultimately show ?thesis using session_file [of w0] by metis
qed

text \<open>A fresh writer over a disk that takes one byte per call, for the concrete instances below.\<close>

definition slow_disk :: Os where
  "slow_disk = \<lparr>os_open_fd = 3, os_file = [], os_synced = 0, os_reply = (\<lambda>_. WOk 1), os_writes = 0,
     os_steady = (\<lambda>i. int i), os_reads = 0, os_system_ns = 1000\<rparr>"

definition fresh_writer :: RecordWriter where
  "fresh_writer = RecordWriter_init 100000000 200000 slow_disk"

lemma fresh_writer_ready: "ready_to_open fresh_writer" "queued fresh_writer = []" "rw_os fresh_writer = slow_disk"
  using ring_inv_init [of ring_exponent] ring_queue_init [of ring_exponent]
  by (simp_all add: ready_to_open_def fresh_writer_def RecordWriter_init_def slow_disk_def good_disk_def)

lemma ring_with:
  assumes "\<forall>e \<in> set es. fits e" and "length es \<le> 2 ^ ring_exponent"
  shows "\<exists>rb. ring_inv ring_exponent rb \<and> ring_queue ring_exponent rb = es"
  using wq.push_all_room [OF ring_inv_init [OF ring_exponent_less] assms(1)] assms(2)
  by (auto simp: ring_queue_init)

theorem recording_session_witness:
  "\<exists>w0 rb w2. RecordWriter_Open (lit ''session'') [] fresh_writer = Some (True, w0)
     \<and> writer_trace w0 [Accept (4, 10, 0, [7])] (w0\<lparr>rw_ring := rb\<rparr>)
     \<and> RecordWriter_Close (w0\<lparr>rw_ring := rb\<rparr>) = Some w2
     \<and> os_synced (rw_os w2) = length (file_of w2)
     \<and> file_of w2 = session_prefix [] slow_disk @ record_bytes (4, 10, 0, [7])"
proof -
  let ?e = "(4, 10, 0, [7]) :: entry"
  from recording_session [OF fresh_writer_ready(1), of "lit ''session''" "[]"] obtain w0 where
    w0: "RecordWriter_Open (lit ''session'') [] fresh_writer = Some (True, w0)"
    and all: "\<forall>ls w1. writer_trace w0 ls w1 \<and> \<not> rw_shutdown w1 \<longrightarrow>
      (\<exists>w2. RecordWriter_Close w1 = Some w2 \<and> os_synced (rw_os w2) = length (file_of w2) \<and> rw_bin_fd w2 = -1 \<and> rw_thread w2 = None
        \<and> (no_overflow ls \<longrightarrow> file_of w2 = session_prefix [] slow_disk @ records_bytes (accepted ls)))"
    unfolding fresh_writer_ready(2,3) append_Nil by blast
  have ring: "rw_ring w0 = rw_ring fresh_writer" "\<not> rw_shutdown w0"
    using Open_session [OF fresh_writer_ready(1), of "lit ''session''" "[]"] w0 by auto
  have inv: "ring_inv ring_exponent (rw_ring w0)" "length (queued w0) < 2 ^ ring_exponent" "fits ?e"
    using fresh_writer_ready(1,2) ring(1) by (simp_all add: ready_to_open_def fits_def wire_sizes)
  from push_accepted [OF inv(1,3,2)] obtain rb where
    "writer_step w0 (Accept ?e) (w0\<lparr>rw_ring := rb\<rparr>)" by blast
  then have t: "writer_trace w0 [Accept ?e] (w0\<lparr>rw_ring := rb\<rparr>)"
    using trace_Cons [OF _ trace_start] by blast
  have "no_overflow [Accept ?e]" "\<not> rw_shutdown (w0\<lparr>rw_ring := rb\<rparr>)" using ring(2) by (simp_all add: no_overflow_def)
  with all t obtain w2 where "RecordWriter_Close (w0\<lparr>rw_ring := rb\<rparr>) = Some w2"
    "os_synced (rw_os w2) = length (file_of w2)" "file_of w2 = session_prefix [] slow_disk @ records_bytes (accepted [Accept ?e])" by blast
  with t w0 show ?thesis by auto
qed

text \<open>C19: Whether or not pushes met a full ring, \<open>Close\<close> returns, and what was pushed with success is
  neither lost nor duplicated nor altered: the records in the file and those still in the ring
  are, counted with multiplicity, the accepted ones and those queued before \<open>Open\<close>. The drop counter tells
  whether any push met a full ring: over fewer than \<open>2^64\<close> steps it stands still exactly when none did.\<close>

theorem session_accounts:
  assumes "ready_to_open w" and "RecordWriter_Open base topics w = Some (True, w0)"
    and "writer_trace w0 ls w1" and "\<not> rw_shutdown w1"
  shows "\<exists>w2 written. RecordWriter_Close w1 = Some w2 \<and>
    file_of w2 = session_prefix topics (rw_os w) @ records_bytes written \<and>
    mset (accepted ls) + ready_entries (rw_ring w) = mset written + ready_entries (rw_ring w2) \<and>
    (length ls < 2 ^ 64 \<longrightarrow> (RecordWriter_DroppedCount w2 = RecordWriter_DroppedCount w \<longleftrightarrow> no_overflow ls))"
proof -
  have w0: "writer_ok w0" "serving w0" "rw_ring w0 = rw_ring w" "file_of w0 = session_prefix topics (rw_os w)"
    using Open_session [OF assms(1), of base topics] assms(2) by auto
  obtain w2 n where w2: "RecordWriter_Close w1 = Some (closed w2)" "writer_trace w0 (ls @ replicate n Tau) w2"
    by (rule session_closes [OF w0(1,2) assms(3,4)])
  from trace_conserves [OF w2(2) w0(1)] obtain written where
    wr: "file_of w2 = file_of w0 @ records_bytes written" "mset (accepted ls) + ready_entries (rw_ring w) = mset written + ready_entries (rw_ring w2)"
    by (auto simp: accepted_append w0(3))
  have "RecordWriter_DroppedCount w2 = RecordWriter_DroppedCount w \<longleftrightarrow> no_overflow ls" if "length ls < 2 ^ 64"
    using trace_dropped [OF w2(2) w0(1)] dropped_no_overflow [OF assms(3) w0(1) that] trace_dropped [OF assms(3) w0(1)] w0(3)
    by (simp add: RecordWriter_DroppedCount_def DroppedCount_def)
  with wr w2(1) w0(4) show ?thesis
    by (intro exI [of _ "closed w2"] exI [of _ written]) (simp add: RecordWriter_DroppedCount_def)
qed

theorem session_accounts_witness:
  "\<exists>w0 w2. RecordWriter_Open [] [] fresh_writer = Some (True, w0) \<and> RecordWriter_Close w0 = Some w2 \<and>
     (\<exists>written. file_of w2 = session_prefix [] slow_disk @ records_bytes written)"
proof -
  obtain w0 where w0: "RecordWriter_Open [] [] fresh_writer = Some (True, w0)" "\<not> rw_shutdown w0"
    using Open_session [OF fresh_writer_ready(1)] by blast
  from session_accounts [OF fresh_writer_ready(1) w0(1) trace_start w0(2)] w0(1) show ?thesis
    by (auto simp: fresh_writer_ready(3))
qed

text \<open>C32: \<open>WriteAll\<close> on any disk that never accepts zero bytes returns, reports success exactly
  when all bytes were appended, and after a failure the file holds a proper prefix of them. A
  descriptor whose \<open>write\<close> keeps returning zero is retried for ever: \<open>WriteAll\<close>, and with it the writer
  thread and \<open>Close\<close>, then never returns.\<close>

theorem WriteAll_contract:
  "((\<forall>i \<ge> os_writes os. os_reply os i \<noteq> WOk 0) \<longrightarrow>
      (\<exists>ok q r os'. WriteAll fd p os = Some (ok, os') \<and> p = q @ r \<and> os_file os' = os_file os @ q \<and> (ok \<longleftrightarrow> r = [])))
   \<and> (p \<noteq> [] \<and> 0 \<le> fd \<and> os_reply os = (\<lambda>_. WOk 0) \<longrightarrow> WriteAll fd p os = None)"
proof (intro conjI impI)
  assume "\<forall>i \<ge> os_writes os. os_reply os i \<noteq> WOk 0"
  from WriteAll_returns [OF this] obtain ok os' where "WriteAll fd p os = Some (ok, os')" by blast
  with WriteAll_prefix [OF this]
  show "\<exists>ok q r os'. WriteAll fd p os = Some (ok, os') \<and> p = q @ r \<and> os_file os' = os_file os @ q \<and> (ok \<longleftrightarrow> r = [])"
    by (auto simp: appended_frame)
qed (use WriteAll_stuck in blast)

theorem WriteAll_contract_witness:
  "(\<exists>ok q r os'. WriteAll 3 [1, 2, 3] slow_disk = Some (ok, os') \<and> [1, 2, 3] = q @ r \<and> os_file os' = q \<and> (ok \<longleftrightarrow> r = []))
   \<and> WriteAll 3 [1] (slow_disk\<lparr>os_reply := (\<lambda>_. WOk 0)\<rparr>) = None"
  using WriteAll_contract [of slow_disk 3 "[1, 2, 3]"] WriteAll_contract [of "slow_disk\<lparr>os_reply := (\<lambda>_. WOk 0)\<rparr>" 3 "[1]"]
  by (simp add: slow_disk_def)

text \<open>C23: What comes after \<open>Close\<close> is lost. Once \<open>Close\<close> has ended a session, a second \<open>Close\<close>, the destructor's
  included, changes nothing; whatever producers do from then on, no byte reaches the file, every record whose push
  reports success stays in the ring, the drop counter counts the refusals by a full ring only, and \<open>Close\<close> does not
  bring the records into the file. And pushes do report success: after a session in which no push met a full ring
  the next 4096 fitting ones all do.\<close>

theorem push_after_Close_lost:
  assumes "ready_to_open w" and "RecordWriter_Open base topics w = Some (True, w0)"
    and "writer_trace w0 ls w1" and "\<not> rw_shutdown w1"
  shows "\<exists>w2. RecordWriter_Close w1 = Some w2 \<and> RecordWriter_Close w2 = Some w2 \<and>
    (\<forall>ls' w3. writer_trace w2 ls' w3 \<longrightarrow> rw_os w3 = rw_os w2 \<and> RecordWriter_Close w3 = Some w3 \<and>
       ready_entries (rw_ring w3) = mset (accepted ls') + ready_entries (rw_ring w2) \<and>
       RecordWriter_DroppedCount w3 = RecordWriter_DroppedCount w2 + word_of_nat (length (filter fits_label ls'))) \<and>
    (no_overflow ls \<longrightarrow> (\<forall>es. (\<forall>e \<in> set es. fits e) \<and> length es \<le> 4096 \<longrightarrow>
       (\<exists>w3. writer_trace w2 (map Accept es) w3 \<and> queued w3 = es)))"
proof -
  have w0: "writer_ok w0" "serving w0" "ring_inv ring_exponent (rw_ring w0)"
    using Open_session [OF assms(1), of base topics] assms(1,2) by (auto simp: ready_to_open_def)
  from session_file [OF w0(1,3,2) assms(3,4)] obtain w2 where w2: "RecordWriter_Close w1 = Some w2"
    "rw_bin_fd w2 = -1" "rw_thread w2 = None" "ring_wf ring_exponent (rw_ring w2)"
    "no_overflow ls \<longrightarrow> ring_inv ring_exponent (rw_ring w2) \<and> queued w2 = []" by blast
  have again: "RecordWriter_Close v = Some v" if "rw_thread v = None" "rw_bin_fd v = -1" for v
    using that by (simp add: RecordWriter_Close_def)
  have more: "\<exists>w3. writer_trace w2 (map Accept es) w3 \<and> queued w3 = es"
    if "no_overflow ls" "\<forall>e \<in> set es. fits e" "length es \<le> 4096" for es
    using push_all_accepted [of w2 es] that w2(5) by (auto simp: ring_exponent_def)
  show ?thesis
  proof (rule exI [of _ w2], intro conjI allI impI)
    fix ls' w3
    assume "writer_trace w2 ls' w3"
    note after = trace_without_thread [OF this w2(3,4)]
    from after(1,2) w2(2) show "RecordWriter_Close w3 = Some w3" by (intro again) simp_all
    from after show "rw_os w3 = rw_os w2"
      "ready_entries (rw_ring w3) = mset (accepted ls') + ready_entries (rw_ring w2)"
      "RecordWriter_DroppedCount w3 = RecordWriter_DroppedCount w2 + word_of_nat (length (filter fits_label ls'))"
      by (simp_all add: RecordWriter_DroppedCount_def DroppedCount_def)
  qed (use w2(1-3) again more in auto)
qed

theorem push_after_Close_lost_witness:
  "\<exists>w0 w2 w3. RecordWriter_Open [] [] fresh_writer = Some (True, w0) \<and> RecordWriter_Close w0 = Some w2
     \<and> RecordWriter_Push 4 10 0 [7] 1 w2 = Some (True, w3) \<and> queued w3 = [(4, 10, 0, [7])]
     \<and> RecordWriter_DroppedCount w3 = RecordWriter_DroppedCount w2
     \<and> RecordWriter_Close w3 = Some w3 \<and> file_of w3 = file_of w2"
proof -
  let ?e = "(4, 10, 0, [7]) :: entry"
  obtain w0 where w0: "RecordWriter_Open [] [] fresh_writer = Some (True, w0)" "\<not> rw_shutdown w0"
    using Open_session [OF fresh_writer_ready(1)] by blast
  obtain w2 where w2: "RecordWriter_Close w0 = Some w2" and
    after: "\<forall>ls' w3. writer_trace w2 ls' w3 \<longrightarrow> rw_os w3 = rw_os w2 \<and> RecordWriter_Close w3 = Some w3 \<and>
       RecordWriter_DroppedCount w3 = RecordWriter_DroppedCount w2 + word_of_nat (length (filter fits_label ls'))"
    and room: "\<forall>es. (\<forall>e \<in> set es. fits e) \<and> length es \<le> 4096 \<longrightarrow>
       (\<exists>w3. writer_trace w2 (map Accept es) w3 \<and> queued w3 = es)"
    using push_after_Close_lost [OF fresh_writer_ready(1) w0(1) trace_start w0(2)] by (auto simp: no_overflow_def)
  obtain w3 where w3: "writer_trace w2 [Accept ?e] w3" "queued w3 = [?e]"
    using room [rule_format, of "[?e]"] by (auto simp: fits_def wire_sizes)
  have "writer_step w2 (Accept ?e) w3" using w3(1) by (rule trace_single)
  then obtain len data where p: "unat len \<le> length data" "take (unat len) data = [7]"
    "RecordWriter_Push 4 10 0 data len w2 = Some (True, w3)"
    by (auto elim: writer_step.cases)
  have l: "unat len = 1" using p(1) arg_cong [OF p(2), of length] by simp
  then have "len = 1" by (metis unat_1 unsigned_word_eqI)
  with p l have "RecordWriter_Push 4 10 0 [7] 1 w2 = Some (True, w3)"
    using TryPush_take [of len data "2 ^ ring_exponent" 4 10 0 "rw_ring w2"] by (simp add: RecordWriter_Push_def)
  with after w3 w0(1) w2 show ?thesis by fastforce
qed

end
