(* ===== verification/Topic_Registry.thy ===== *)
theory Topic_Registry
  imports Wire_Format
begin

text \<open>
  The schema layer: the topic ids and traits of \<open>include/chrono_cap/topic_registry.hpp\<close>, the
  payload codec of \<open>include/chrono_cap/payload_codec.hpp\<close> and the topic list of
  \<open>include/chrono_cap/topic_list.hpp\<close>. The message struct belongs to another package; modelled are
  the fields the codec reads and writes, as an extensible record whose further fields stay
  untouched. A \<open>float\<close> is its IEEE-754 bit pattern, which is what the codec copies. The codecs and
  traits that are commented out in the source have no counterpart.
\<close>

section \<open>Topic ids\<close>

datatype TopicId = Pose | Axis | Buttons | MotorState | Joy

fun TopicId_value :: "TopicId \<Rightarrow> u16" where
  "TopicId_value Pose = 0"
| "TopicId_value Axis = 1"
| "TopicId_value Buttons = 2"
| "TopicId_value MotorState = 5"
| "TopicId_value Joy = 4"

section \<open>The joystick message and its codec\<close>

record JoyMsgs =
  joy_timestamp :: u64
  joy_axis0 :: u32
  joy_axis2 :: u32
  joy_button0 :: bool
  joy_button1 :: bool
  joy_button3 :: bool
  joy_button4 :: bool
  joy_button5 :: bool
  joy_button6 :: bool

definition bool_byte :: "bool \<Rightarrow> u8" where
  "bool_byte v = (if v then 1 else 0)"

definition EncodePayload :: "'a JoyMsgs_scheme \<Rightarrow> bytes \<Rightarrow> nat \<Rightarrow> bytes option" where
  "EncodePayload v out p = do {
     out \<leftarrow> encode_u64 out (p + 0) (joy_timestamp v);
     out \<leftarrow> encode_u32 out (p + 8) (joy_axis0 v);
     out \<leftarrow> encode_u32 out (p + 12) (joy_axis2 v);
     out \<leftarrow> put_byte out (p + 16) (bool_byte (joy_button0 v));
     out \<leftarrow> put_byte out (p + 17) (bool_byte (joy_button1 v));
     out \<leftarrow> put_byte out (p + 18) (bool_byte (joy_button3 v));
     out \<leftarrow> put_byte out (p + 19) (bool_byte (joy_button4 v));
     out \<leftarrow> put_byte out (p + 20) (bool_byte (joy_button5 v));
     put_byte out (p + 21) (bool_byte (joy_button6 v)) }"

definition DecodePayload :: "bytes \<Rightarrow> nat \<Rightarrow> 'a JoyMsgs_scheme \<Rightarrow> 'a JoyMsgs_scheme option" where
  "DecodePayload b p v = do {
     ts \<leftarrow> decode_u64 b (p + 0);
     a0 \<leftarrow> decode_u32 b (p + 8);
     a2 \<leftarrow> decode_u32 b (p + 12);
     b0 \<leftarrow> get_byte b (p + 16);
     b1 \<leftarrow> get_byte b (p + 17);
     b3 \<leftarrow> get_byte b (p + 18);
     b4 \<leftarrow> get_byte b (p + 19);
     b5 \<leftarrow> get_byte b (p + 20);
     b6 \<leftarrow> get_byte b (p + 21);
     Some (v\<lparr>joy_timestamp := ts, joy_axis0 := a0, joy_axis2 := a2, joy_button0 := (b0 \<noteq> 0),
       joy_button1 := (b1 \<noteq> 0), joy_button3 := (b3 \<noteq> 0), joy_button4 := (b4 \<noteq> 0),
       joy_button5 := (b5 \<noteq> 0), joy_button6 := (b6 \<noteq> 0)\<rparr>) }"

definition JoyMsgs_init :: JoyMsgs where
  "JoyMsgs_init = \<lparr>joy_timestamp = 0, joy_axis0 = 0, joy_axis2 = 0, joy_button0 = False, joy_button1 = False,
     joy_button3 = False, joy_button4 = False, joy_button5 = False, joy_button6 = False\<rparr>"

definition joy_layout :: "'a JoyMsgs_scheme \<Rightarrow> bytes" where
  "joy_layout v = le 8 (joy_timestamp v) @ le 4 (joy_axis0 v) @ le 4 (joy_axis2 v)
     @ map bool_byte [joy_button0 v, joy_button1 v, joy_button3 v, joy_button4 v, joy_button5 v, joy_button6 v]"

lemma bool_byte_nonzero [simp]: "bool_byte b \<noteq> 0 \<longleftrightarrow> b" "bool_byte b = 0 \<longleftrightarrow> \<not> b"
  by (simp_all add: bool_byte_def)

text \<open>What decoding leaves in its out-parameter: the coded fields of \<open>v\<close>, all others as they were.\<close>

definition joy_copy :: "'a JoyMsgs_scheme \<Rightarrow> 'b JoyMsgs_scheme \<Rightarrow> 'a JoyMsgs_scheme" where
  "joy_copy dst v = dst\<lparr>joy_timestamp := joy_timestamp v, joy_axis0 := joy_axis0 v, joy_axis2 := joy_axis2 v,
     joy_button0 := joy_button0 v, joy_button1 := joy_button1 v, joy_button3 := joy_button3 v,
     joy_button4 := joy_button4 v, joy_button5 := joy_button5 v, joy_button6 := joy_button6 v\<rparr>"

lemma length_joy_layout [simp]: "length (joy_layout v) = 22"
  by (simp add: joy_layout_def)

lemma EncodePayload_patch:
  "p + 22 \<le> length b \<Longrightarrow> EncodePayload v b p = Some (patch b p (joy_layout v))"
  by (simp add: EncodePayload_def joy_layout_def codec_simps put_byte_patch patch_append)

lemma DecodePayload_located:
  assumes "located b p (joy_layout v)"
  shows "DecodePayload b p dst = Some (joy_copy dst v)"
proof -
  let ?bs = "map bool_byte [joy_button0 v, joy_button1 v, joy_button3 v, joy_button4 v, joy_button5 v, joy_button6 v]"
  have l: "located b p (le 8 (joy_timestamp v))" "located b (p + 8) (le 4 (joy_axis0 v))"
    "located b (p + 12) (le 4 (joy_axis2 v))" "located b (p + 16) ?bs"
    using assms by (auto simp: joy_layout_def located_append ac_simps)
  have "get_byte b (p + 16) = Some (bool_byte (joy_button0 v))"
    "get_byte b (p + 17) = Some (bool_byte (joy_button1 v))"
    "get_byte b (p + 18) = Some (bool_byte (joy_button3 v))"
    "get_byte b (p + 19) = Some (bool_byte (joy_button4 v))"
    "get_byte b (p + 20) = Some (bool_byte (joy_button5 v))"
    "get_byte b (p + 21) = Some (bool_byte (joy_button6 v))"
    using located_nth [OF l(4), of 0] located_nth [OF l(4), of 1] located_nth [OF l(4), of 2]
      located_nth [OF l(4), of 3] located_nth [OF l(4), of 4] located_nth [OF l(4), of 5]
    by (simp_all add: add.commute [of _ p])
  with l show ?thesis
    by (auto simp: DecodePayload_def joy_copy_def dest!: located_intros)
qed

lemma DecodePayload_total: "p + 22 \<le> length b \<Longrightarrow> \<exists>v. DecodePayload b p dst = Some v"
  using decode_u64_total [of p b] decode_u32_total [of "p + 8" b] decode_u32_total [of "p + 12" b]
  by (auto simp: DecodePayload_def get_byte_def)

lemma get_byte_local: "i < n \<Longrightarrow> p + n \<le> length b \<Longrightarrow> get_byte (take n (drop p b)) i = get_byte b (p + i)"
  by (simp add: get_byte_def)

lemma decode_local:
  assumes "p + n \<le> length b"
  shows "q + 4 \<le> n \<Longrightarrow> decode_u32 (take n (drop p b)) q = decode_u32 b (p + q)"
    and "q + 8 \<le> n \<Longrightarrow> decode_u64 (take n (drop p b)) q = decode_u64 b (p + q)"
  using assms by (simp_all add: decode_u32_def decode_u64_def decode_u64_from.simps get_byte_local ac_simps)

lemma DecodePayload_local:
  assumes "p + 22 \<le> length b"
  shows "DecodePayload (take 22 (drop p b)) 0 dst = DecodePayload b p dst"
  using decode_local [OF assms] get_byte_local [OF _ assms] by (simp add: DecodePayload_def)

lemma DecodePayload_range: "DecodePayload b p dst = Some v \<Longrightarrow> p + 22 \<le> length b"
  by (auto simp: DecodePayload_def bind_eq_Some_conv get_byte_def split: if_splits)

lemma joy_copy_init [simp]: "joy_copy JoyMsgs_init v = v"
  by (simp add: joy_copy_def JoyMsgs_init_def)

interpretation joy: range_codec EncodePayload "\<lambda>b p. DecodePayload b p JoyMsgs_init" joy_layout 22 "\<lambda>_. True"
  by unfold_locales (auto simp: EncodePayload_patch DecodePayload_total DecodePayload_located
      dest: DecodePayload_range)

section \<open>Traits and the topic list\<close>

text \<open>
  \<open>TopicTraits<T>\<close> with the codec overloads that are selected by the same type, and the value-initialised
  message \<open>T{}\<close> that a decode starts from. A parameter pack is a list of such records over one message
  type \<open>'m\<close>, the union of the pack's types.
\<close>

record 'm TopicTraits =
  tt_id :: TopicId
  tt_topicName :: bytes
  tt_wire_size :: nat
  tt_EncodePayload :: "'m \<Rightarrow> bytes \<Rightarrow> nat \<Rightarrow> bytes option"
  tt_DecodePayload :: "bytes \<Rightarrow> nat \<Rightarrow> 'm \<Rightarrow> 'm option"
  tt_value_init :: 'm

abbreviation tt_id16 :: "'m TopicTraits \<Rightarrow> u16" where
  "tt_id16 T \<equiv> TopicId_value (tt_id T)"

text \<open>The message type's own \<open>T{}\<close> is a parameter: the type is declared in another package.\<close>

definition JoyTraits :: "'a JoyMsgs_scheme \<Rightarrow> 'a JoyMsgs_scheme TopicTraits" where
  "JoyTraits v0 = \<lparr>tt_id = Joy, tt_topicName = lit ''/joy'', tt_wire_size = 22,
     tt_EncodePayload = EncodePayload, tt_DecodePayload = DecodePayload, tt_value_init = v0\<rparr>"

definition AllTopics :: "'a JoyMsgs_scheme \<Rightarrow> 'a JoyMsgs_scheme TopicTraits list" where
  "AllTopics v0 = [JoyTraits v0]"

text \<open>
  The contract between a topic's traits and the generic recorder and replayer: the name fits the
  metadata entry, the payload fits a ring slot, and the codec stays inside \<open>wire_size\<close> bytes.
  \<open>layout\<close> is the payload on disk, \<open>restored\<close> the message a replay publishes for a recorded one.
\<close>

locale recordable =
  fixes T :: "'m TopicTraits"
    and layout :: "'m \<Rightarrow> bytes"
    and restored :: "'m \<Rightarrow> 'm"
  assumes name_ok: "0 \<notin> set (tt_topicName T)" "length (tt_topicName T) < 32"
    and size_ok: "tt_wire_size T \<le> kMaxPayloadBytes"
    and layout_size: "length (layout v) = tt_wire_size T"
    and encode_layout: "p + tt_wire_size T \<le> length b \<Longrightarrow>
      tt_EncodePayload T v b p = Some (patch b p (layout v))"
    and decode_layout: "located b p (layout v) \<Longrightarrow>
      tt_DecodePayload T b p (tt_value_init T) = Some (restored v)"
    and decode_total: "p + tt_wire_size T \<le> length b \<Longrightarrow>
      \<exists>v. tt_DecodePayload T b p (tt_value_init T) = Some v"
    and decode_local: "p + tt_wire_size T \<le> length b \<Longrightarrow>
      tt_DecodePayload T (take (tt_wire_size T) (drop p b)) 0 (tt_value_init T)
        = tt_DecodePayload T b p (tt_value_init T)"
begin

lemma encode_buffer: "tt_EncodePayload T v (replicate (tt_wire_size T) 0) 0 = Some (layout v)"
  by (simp add: encode_layout patch_whole layout_size)

lemma size32: "unat (word_of_nat (tt_wire_size T) :: u32) = tt_wire_size T"
  using size_ok by (simp add: wire_sizes unsigned_of_nat take_bit_eq_mod)

lemma fits_slot: "unat (word_of_nat (tt_wire_size T) :: u32) \<le> kMaxPayloadBytes"
  using size_ok by (simp add: size32)

end

lemma JoyTraits_simps [simp]:
  "tt_id (JoyTraits v0) = Joy" "tt_topicName (JoyTraits v0) = lit ''/joy''" "tt_wire_size (JoyTraits v0) = 22"
  "tt_EncodePayload (JoyTraits v0) = EncodePayload" "tt_DecodePayload (JoyTraits v0) = DecodePayload"
  "tt_value_init (JoyTraits v0) = v0"
  by (simp_all add: JoyTraits_def)

interpretation joy_topic: recordable "JoyTraits v0" joy_layout "joy_copy v0"
  by unfold_locales (auto simp: lit_def wire_sizes EncodePayload_patch DecodePayload_located
      DecodePayload_total DecodePayload_local)

text \<open>A whole parameter pack: recordable topics under distinct ids.\<close>

locale topic_pack =
  fixes Ts :: "'m TopicTraits list"
    and layout :: "'m TopicTraits \<Rightarrow> 'm \<Rightarrow> bytes"
    and restored :: "'m TopicTraits \<Rightarrow> 'm \<Rightarrow> 'm"
  assumes each: "T \<in> set Ts \<Longrightarrow> recordable T (layout T) (restored T)"
    and distinct_ids: "distinct (map tt_id16 Ts)"
begin

lemma same_topic: "T \<in> set Ts \<Longrightarrow> U \<in> set Ts \<Longrightarrow> tt_id16 T = tt_id16 U \<Longrightarrow> T = U"
  using distinct_ids by (auto simp: distinct_map dest: inj_onD)

end

interpretation all_topics: topic_pack "AllTopics v0" "\<lambda>_. joy_layout" "\<lambda>_. joy_copy v0"
  by (rule topic_pack.intro) (simp_all add: AllTopics_def joy_topic.recordable_axioms)

section \<open>Runtime options shared by the nodes\<close>

text \<open>The one endpoint plane the nodes ask the runtime for.\<close>

datatype EndpointPlane = Local

section \<open>Properties\<close>

text \<open>C31: The joystick codec: encoding into a buffer of any content writes exactly 22 bytes; decoding them
  into any message sets the nine coded fields to the encoded values, bit for bit (floats included),
  and leaves every other field of the message as it was.\<close>

theorem joy_codec_roundtrip:
  assumes "p + 22 \<le> length b"
  shows "\<exists>b'. EncodePayload v b p = Some b' \<and> length b' = length b \<and> DecodePayload b' p dst = Some (joy_copy dst v)
    \<and> (\<forall>i. i < p \<or> p + 22 \<le> i \<longrightarrow> b' ! i = b ! i)"
proof -
  have "located (patch b p (joy_layout v)) p (joy_layout v)" using assms by (intro located_patch) simp
  then have "DecodePayload (patch b p (joy_layout v)) p dst = Some (joy_copy dst v)" by (rule DecodePayload_located)
  with assms show ?thesis
    by (auto simp: EncodePayload_patch patch_def nth_append min_absorb2)
qed

theorem joy_codec_roundtrip_witness:
  "\<exists>b'. EncodePayload (JoyMsgs_init\<lparr>joy_axis0 := 0x3F800000, joy_button3 := True\<rparr>) (replicate 22 9) 0 = Some b'
     \<and> DecodePayload b' 0 JoyMsgs_init = Some (JoyMsgs_init\<lparr>joy_axis0 := 0x3F800000, joy_button3 := True\<rparr>)"
  using joy_codec_roundtrip [of 0 "replicate 22 9" "JoyMsgs_init\<lparr>joy_axis0 := 0x3F800000, joy_button3 := True\<rparr>" JoyMsgs_init]
  by auto

end
