(* ===== verification/Logger_Config.thy ===== *)
theory Logger_Config
  imports Topic_Registry
begin

text \<open>
  The run-time configuration of \<open>include/chrono_cap/logger_config.hpp\<close>. The JSON library is a
  parameter (record \<open>JsonApi\<close>): its parser and accessors, each \<^const>\<open>None\<close> where it throws. A
  call of \<open>LoadFromFile\<close> returns a boolean or lets an exception escape; both come with the object's
  state at that moment.
\<close>

section \<open>Data\<close>

record TopicConfig =
  tc_name :: bytes
  tc_struct_id :: u16
  tc_enabled :: bool

definition TopicConfig_init :: TopicConfig where
  "TopicConfig_init = \<lparr>tc_name = [], tc_struct_id = 0, tc_enabled = True\<rparr>"

record LoggerConfig =
  lc_by_name :: "bytes \<rightharpoonup> TopicConfig"

definition LoggerConfig_init :: LoggerConfig where
  "LoggerConfig_init = \<lparr>lc_by_name = Map.empty\<rparr>"

text \<open>What the code calls of the JSON library.\<close>

record 'j JsonApi =
  js_parse :: "bytes \<Rightarrow> 'j option"  \<comment> \<open>\<open>in >> j\<close>\<close>
  js_contains :: "'j \<Rightarrow> bytes \<Rightarrow> bool"
  js_at :: "'j \<Rightarrow> bytes \<Rightarrow> 'j"  \<comment> \<open>\<open>j[key]\<close>\<close>
  js_is_array :: "'j \<Rightarrow> bool"
  js_elements :: "'j \<Rightarrow> 'j list"  \<comment> \<open>range-for over an array\<close>
  js_value_string :: "'j \<Rightarrow> bytes \<Rightarrow> bytes \<Rightarrow> bytes option"  \<comment> \<open>\<open>value(key, default)\<close>\<close>
  js_value_u16 :: "'j \<Rightarrow> bytes \<Rightarrow> u16 \<Rightarrow> u16 option"
  js_value_bool :: "'j \<Rightarrow> bytes \<Rightarrow> bool \<Rightarrow> bool option"

datatype load_result = Returns bool | Throws

section \<open>Operations\<close>

definition read_entry :: "'j JsonApi \<Rightarrow> 'j \<Rightarrow> TopicConfig option" where
  "read_entry api entry = do {
     n \<leftarrow> js_value_string api entry (lit ''name'') [];
     i \<leftarrow> js_value_u16 api entry (lit ''struct_id'') 0;
     e \<leftarrow> js_value_bool api entry (lit ''enabled'') True;
     Some (TopicConfig_init\<lparr>tc_name := n, tc_struct_id := i, tc_enabled := e\<rparr>) }"

fun load_entries :: "'j JsonApi \<Rightarrow> 'j list \<Rightarrow> LoggerConfig \<Rightarrow> load_result \<times> LoggerConfig" where
  "load_entries api [] lc = (Returns True, lc)"
| "load_entries api (entry # es) lc =
     (case read_entry api entry of
        None \<Rightarrow> (Throws, lc)
      | Some cfg \<Rightarrow>
          if tc_name cfg = [] then load_entries api es lc
          else load_entries api es (lc\<lparr>lc_by_name := (lc_by_name lc)(tc_name cfg \<mapsto> cfg)\<rparr>))"

text \<open>\<open>file\<close> is the content behind the path, \<^const>\<open>None\<close> when the stream does not open.\<close>

definition LoadFromFile :: "'j JsonApi \<Rightarrow> bytes option \<Rightarrow> LoggerConfig \<Rightarrow> load_result \<times> LoggerConfig" where
  "LoadFromFile api file lc =
     (case file of
        None \<Rightarrow> (Returns False, lc)
      | Some content \<Rightarrow>
          (case js_parse api content of
             None \<Rightarrow> (Returns False, lc)
           | Some j \<Rightarrow>
               let lc = lc\<lparr>lc_by_name := Map.empty\<rparr>
               in if \<not> js_contains api j (lit ''topics'') \<or> \<not> js_is_array api (js_at api j (lit ''topics''))
                  then (Returns False, lc)
                  else load_entries api (js_elements api (js_at api j (lit ''topics''))) lc))"

definition IsEnabled :: "'m TopicTraits \<Rightarrow> LoggerConfig \<Rightarrow> bool" where
  "IsEnabled T lc =
     (case lc_by_name lc (tt_topicName T) of
        None \<Rightarrow> True
      | Some cfg \<Rightarrow> if tc_struct_id cfg \<noteq> tt_id16 T then False else tc_enabled cfg)"

section \<open>What a load leaves behind\<close>

text \<open>The entry that counts for a name: the last one in the file.\<close>

definition last_entry :: "bytes \<Rightarrow> TopicConfig list \<Rightarrow> TopicConfig option" where
  "last_entry nm cfgs = find (\<lambda>c. tc_name c = nm) (rev cfgs)"

text \<open>The document opens and parses, and its topics are the array \<open>es\<close>.\<close>

definition document :: "'j JsonApi \<Rightarrow> bytes option \<Rightarrow> 'j list \<Rightarrow> bool" where
  "document api file es \<longleftrightarrow> (case Option.bind file (js_parse api) of
     None \<Rightarrow> False
   | Some j \<Rightarrow> js_contains api j (lit ''topics'') \<and> js_is_array api (js_at api j (lit ''topics''))
       \<and> js_elements api (js_at api j (lit ''topics'')) = es)"

text \<open>The object \<open>lc\<close> agrees with the entries \<open>cfgs\<close> on every name.\<close>

definition holds :: "TopicConfig list \<Rightarrow> LoggerConfig \<Rightarrow> bool" where
  "holds cfgs lc \<longleftrightarrow> (\<forall>nm. nm \<noteq> [] \<longrightarrow> lc_by_name lc nm = last_entry nm cfgs) \<and> lc_by_name lc [] = None"

lemma last_entry_snoc: "last_entry nm (cfgs @ [c]) = (if tc_name c = nm then Some c else last_entry nm cfgs)"
  by (simp add: last_entry_def)

lemma load_entries_prefix:
  assumes "map (read_entry api) es = map Some cfgs" and "holds done lc"
  shows "\<exists>lc'. load_entries api (es @ rest) lc = load_entries api rest lc' \<and> holds (done @ cfgs) lc'"
  using assms
proof (induction es arbitrary: cfgs "done" lc)
  case Nil
  then show ?case by auto
next
  case (Cons entry es)
  then obtain c cs where cfgs: "cfgs = c # cs" and c: "read_entry api entry = Some c"
    and cs: "map (read_entry api) es = map Some cs" by (cases cfgs) auto
  let ?lc = "if tc_name c = [] then lc else lc\<lparr>lc_by_name := (lc_by_name lc)(tc_name c \<mapsto> c)\<rparr>"
  have "holds (done @ [c]) ?lc" using Cons.prems(2) by (auto simp: holds_def last_entry_snoc)
  from Cons.IH [OF cs this] c show ?case by (auto simp: cfgs)
qed

lemma LoadFromFile_document:
  assumes "document api file es"
  shows "LoadFromFile api file lc = load_entries api es LoggerConfig_init"
  using assms by (cases lc) (auto simp: document_def LoadFromFile_def LoggerConfig_init_def Let_def
      split: option.splits Option.bind_splits)

lemma holds_init: "holds [] LoggerConfig_init"
  by (simp add: holds_def LoggerConfig_init_def last_entry_def)

lemma IsEnabled_holds:
  assumes "holds cfgs lc" and "tt_topicName T \<noteq> []"
  shows "IsEnabled T lc \<longleftrightarrow> (case last_entry (tt_topicName T) cfgs of
      None \<Rightarrow> True | Some c \<Rightarrow> tc_struct_id c = tt_id16 T \<and> tc_enabled c)"
  using assms by (auto simp: IsEnabled_def holds_def split: option.split)

section \<open>The shipped configuration\<close>

text \<open>A JSON value type with the accessors' documented behaviour, and the document
  \<open>config/logger_config.json\<close> in it: an instance of the parameter.\<close>

datatype json = JStr bytes | JNum int | JBool bool | JArr "json list" | JObj "(bytes \<times> json) list"

fun json_field :: "json \<Rightarrow> bytes \<Rightarrow> json option" where
  "json_field (JObj fs) k = map_of fs k"
| "json_field _ k = None"

fun json_is_obj :: "json \<Rightarrow> bool" where
  "json_is_obj (JObj _) = True"
| "json_is_obj _ = False"

definition json_entry :: "string \<Rightarrow> int \<Rightarrow> json" where
  "json_entry nm i = JObj [(lit ''name'', JStr (lit nm)), (lit ''struct_id'', JNum i), (lit ''enabled'', JBool True)]"

definition shipped_entries :: "json list" where
  "shipped_entries = [json_entry ''diff_drive_odometry'' 3, json_entry ''/joy'' 4, json_entry ''/motor_status'' 5]"

definition json_api :: "json list \<Rightarrow> json JsonApi" where
  "json_api es = \<lparr>
     js_parse = (\<lambda>content. if content = [] then None else Some (JObj [(lit ''topics'', JArr es)])),
     js_contains = (\<lambda>j k. json_field j k \<noteq> None),
     js_at = (\<lambda>j k. case json_field j k of Some v \<Rightarrow> v | None \<Rightarrow> JArr []),
     js_is_array = (\<lambda>j. case j of JArr _ \<Rightarrow> True | _ \<Rightarrow> False),
     js_elements = (\<lambda>j. case j of JArr es \<Rightarrow> es | _ \<Rightarrow> []),
     js_value_string = (\<lambda>j k d. if \<not> json_is_obj j then None else case json_field j k of
        None \<Rightarrow> Some d | Some (JStr s) \<Rightarrow> Some s | _ \<Rightarrow> None),
     js_value_u16 = (\<lambda>j k d. if \<not> json_is_obj j then None else case json_field j k of
        None \<Rightarrow> Some d | Some (JNum n) \<Rightarrow> Some (word_of_int n) | _ \<Rightarrow> None),
     js_value_bool = (\<lambda>j k d. if \<not> json_is_obj j then None else case json_field j k of
        None \<Rightarrow> Some d | Some (JBool b) \<Rightarrow> Some b | _ \<Rightarrow> None)\<rparr>"

definition shipped_cfgs :: "TopicConfig list" where
  "shipped_cfgs = [\<lparr>tc_name = lit ''diff_drive_odometry'', tc_struct_id = 3, tc_enabled = True\<rparr>,
     \<lparr>tc_name = lit ''/joy'', tc_struct_id = 4, tc_enabled = True\<rparr>,
     \<lparr>tc_name = lit ''/motor_status'', tc_struct_id = 5, tc_enabled = True\<rparr>]"

lemma json_document: "document (json_api es) (Some [0]) es"
  by (simp add: document_def json_api_def)

lemma shipped_reads: "map (read_entry (json_api es)) shipped_entries = map Some shipped_cfgs"
  by (simp add: shipped_entries_def shipped_cfgs_def read_entry_def json_api_def json_entry_def TopicConfig_init_def)

section \<open>Properties\<close>

text \<open>C33: Every outcome of \<open>LoadFromFile\<close>. After a load of a well-formed document the switch of a topic is decided
  by the last array entry with its name: no entry means enabled, an entry with another \<open>struct_id\<close> means disabled,
  otherwise its \<open>enabled\<close> flag counts; what the object held before does not matter. It returns false
  exactly when the file does not open, does not parse or has no \<open>topics\<close> array, and in the last case the
  previous configuration is gone. A \<open>value\<close> call that throws (an entry that is no object, a field of another
  type) lets the exception escape from \<open>LoadFromFile\<close>; the entries before it are then already in force.\<close>

theorem LoadFromFile_outcomes:
  assumes "tt_topicName T \<noteq> []"
  shows "(document api file es \<and> map (read_entry api) es = map Some cfgs \<longrightarrow>
      (\<exists>lc'. LoadFromFile api file lc = (Returns True, lc') \<and>
        (IsEnabled T lc' \<longleftrightarrow> (case last_entry (tt_topicName T) cfgs of
           None \<Rightarrow> True | Some c \<Rightarrow> tc_struct_id c = tt_id16 T \<and> tc_enabled c))))
   \<and> (document api file (es @ bad # rest) \<and> map (read_entry api) es = map Some cfgs \<and> read_entry api bad = None
      \<longrightarrow> (\<exists>lc'. LoadFromFile api file lc = (Throws, lc') \<and> holds cfgs lc'))
   \<and> (fst (LoadFromFile api file lc) = Returns False \<longleftrightarrow> (\<nexists>es. document api file es))
   \<and> (Option.bind file (js_parse api) = None \<longrightarrow> snd (LoadFromFile api file lc) = lc)
   \<and> (Option.bind file (js_parse api) \<noteq> None \<and> (\<nexists>es. document api file es)
      \<longrightarrow> snd (LoadFromFile api file lc) = LoggerConfig_init)"
proof -
  have "\<exists>lc'. LoadFromFile api file lc = (Returns True, lc') \<and> (IsEnabled T lc' \<longleftrightarrow> (case last_entry (tt_topicName T) cfgs of
      None \<Rightarrow> True | Some c \<Rightarrow> tc_struct_id c = tt_id16 T \<and> tc_enabled c))"
    if doc: "document api file es" and cfgs: "map (read_entry api) es = map Some cfgs"
  proof -
    obtain lc' where "load_entries api es LoggerConfig_init = (Returns True, lc')" "holds cfgs lc'"
      using load_entries_prefix [OF cfgs holds_init, of "[]"] by auto
    with LoadFromFile_document [OF doc] IsEnabled_holds assms show ?thesis by auto
  qed
  moreover have "\<exists>lc'. LoadFromFile api file lc = (Throws, lc') \<and> holds cfgs lc'"
    if "document api file (es @ bad # rest)" "map (read_entry api) es = map Some cfgs" "read_entry api bad = None"
    using load_entries_prefix [OF that(2) holds_init, of "bad # rest"] LoadFromFile_document [OF that(1)] that(3) by auto
  moreover have never: "fst (load_entries api es lc') \<noteq> Returns False" for es lc'
    by (induction es arbitrary: lc') (auto split: option.splits)
  have "fst (LoadFromFile api file lc) = Returns False \<longleftrightarrow> (\<nexists>es. document api file es)"
    "Option.bind file (js_parse api) = None \<longrightarrow> snd (LoadFromFile api file lc) = lc"
    "Option.bind file (js_parse api) \<noteq> None \<and> (\<nexists>es. document api file es) \<longrightarrow> snd (LoadFromFile api file lc) = LoggerConfig_init"
    using never by (cases lc; auto simp: LoadFromFile_def document_def LoggerConfig_init_def Let_def
        split: option.splits Option.bind_splits)+
  ultimately show ?thesis by blast
qed

theorem LoadFromFile_outcomes_witness:
  "(\<exists>lc'. LoadFromFile (json_api shipped_entries) (Some [0]) LoggerConfig_init = (Returns True, lc') \<and> IsEnabled (JoyTraits JoyMsgs_init) lc')
   \<and> (\<exists>lc'. LoadFromFile (json_api (shipped_entries @ JNum 1 # [])) (Some [0]) LoggerConfig_init = (Throws, lc') \<and> holds shipped_cfgs lc')
   \<and> LoadFromFile (json_api shipped_entries) None LoggerConfig_init = (Returns False, LoggerConfig_init)"
proof -
  let ?T = "JoyTraits JoyMsgs_init"
  have T: "tt_topicName ?T \<noteq> []" by (simp add: JoyTraits_def)
  note all = LoadFromFile_outcomes [OF T]
  have "\<exists>lc'. LoadFromFile (json_api shipped_entries) (Some [0]) LoggerConfig_init = (Returns True, lc') \<and> IsEnabled ?T lc'"
    using all [of "json_api shipped_entries" "Some [0]" shipped_entries shipped_cfgs LoggerConfig_init]
      json_document [of shipped_entries] shipped_reads [of shipped_entries]
    by (simp add: JoyTraits_def shipped_cfgs_def last_entry_def)
  moreover have "read_entry (json_api (shipped_entries @ [JNum 1])) (JNum 1) = None" by (simp add: read_entry_def json_api_def)
  then have "\<exists>lc'. LoadFromFile (json_api (shipped_entries @ JNum 1 # [])) (Some [0]) LoggerConfig_init = (Throws, lc') \<and> holds shipped_cfgs lc'"
    using all [of "json_api (shipped_entries @ [JNum 1])" "Some [0]" shipped_entries shipped_cfgs LoggerConfig_init "JNum 1" "[]"]
      json_document [of "shipped_entries @ [JNum 1]"] shipped_reads [of "shipped_entries @ [JNum 1]"] by simp
  moreover have "LoadFromFile (json_api shipped_entries) None LoggerConfig_init = (Returns False, LoggerConfig_init)"
    using all [of "json_api shipped_entries" None _ _ LoggerConfig_init] by (simp add: document_def prod_eq_iff)
  ultimately show ?thesis by blast
qed

end
