(* ===== verification/Generic_Recorder.thy ===== *)
theory Generic_Recorder
  imports Record_Writer Logger_Config "HOL-Library.Sublist"
begin

text \<open>
  The recorder node of \<open>include/chrono_cap/generic_recorder.hpp\<close>. The parameter pack \<open>Ts...\<close> is a
  list of traits, the fold expressions are folds over it in declaration order, and the tuple of
  subscriptions is indexed by position. The publish/subscribe runtime is a parameter: its
  \<open>subscribe\<close> takes the topic name, the callback and the options, may keep a state \<open>'w\<close> of its
  own, and answers with a subscription or a failure. The writer that the context points to is
  passed to the callback explicitly.
\<close>

section \<open>Data\<close>

record 'm Sample =
  sm_value :: 'm
  sm_stamp_ns :: u64
  sm_seq :: u64

datatype Reliability = BestEffort
datatype OverflowPolicy = DropOldest

record SubscriptionOptions =
  so_plane :: EndpointPlane
  so_reliability :: Reliability
  so_queue_depth :: nat
  so_overflow_policy :: OverflowPolicy

type_synonym 'm sample_callback = "'m Sample \<Rightarrow> RecordWriter \<Rightarrow> RecordWriter option"

type_synonym ('m, 's, 'w) subscribe_fn =
  "bytes \<Rightarrow> 'm sample_callback \<Rightarrow> SubscriptionOptions \<Rightarrow> 'w \<Rightarrow> 's option \<times> 'w"

record 's GenericRecorderSystem =
  gr_config :: LoggerConfig  \<comment> \<open>\<open>ctx_.config\<close>\<close>
  gr_subs :: "nat \<rightharpoonup> 's"
  gr_enabled_topics :: "TopicInfo list"

definition GenericRecorderSystem_init :: "LoggerConfig \<Rightarrow> 's GenericRecorderSystem" where
  "GenericRecorderSystem_init config = \<lparr>gr_config = config, gr_subs = Map.empty, gr_enabled_topics = []\<rparr>"

section \<open>Operations\<close>

text \<open>The lambda given to \<open>subscribe\<close>: encode into a local buffer and push, ignoring the result.\<close>

definition on_sample :: "'m TopicTraits \<Rightarrow> 'm sample_callback" where
  "on_sample T sample writer = do {
     buf \<leftarrow> tt_EncodePayload T (sm_value sample) (replicate (tt_wire_size T) 0) 0;
     (_, writer) \<leftarrow> RecordWriter_Push (tt_id16 T) (sm_stamp_ns sample) (sm_seq sample) buf
        (word_of_nat (tt_wire_size T)) writer;
     Some writer }"

definition topic_info :: "'m TopicTraits \<Rightarrow> TopicInfo" where
  "topic_info T = \<lparr>ti_topic_id = tt_id16 T, ti_wire_size = word_of_nat (tt_wire_size T),
     ti_name = tt_topicName T\<rparr>"

definition subscription_options :: SubscriptionOptions where
  "subscription_options = \<lparr>so_plane = Local, so_reliability = BestEffort, so_queue_depth = 64,
     so_overflow_policy = DropOldest\<rparr>"

definition SetupOne :: "('m, 's, 'w) subscribe_fn \<Rightarrow> nat \<times> 'm TopicTraits
    \<Rightarrow> bool \<times> 's GenericRecorderSystem \<times> 'w \<Rightarrow> bool \<times> 's GenericRecorderSystem \<times> 'w" where
  "SetupOne subscribe = (\<lambda>(i, T) (ok, sys, w).
     if \<not> IsEnabled T (gr_config sys) then (ok, sys, w)
     else let (sub, w) = subscribe (tt_topicName T) (on_sample T) subscription_options w
       in case sub of
            None \<Rightarrow> (False, sys, w)
          | Some sub \<Rightarrow> (ok, sys\<lparr>gr_subs := (gr_subs sys)(i \<mapsto> sub),
              gr_enabled_topics := gr_enabled_topics sys @ [topic_info T]\<rparr>, w))"

definition GenericRecorder_OnSetup :: "('m, 's, 'w) subscribe_fn \<Rightarrow> 'm TopicTraits list
    \<Rightarrow> 's GenericRecorderSystem \<Rightarrow> 'w \<Rightarrow> bool \<times> 's GenericRecorderSystem \<times> 'w" where
  "GenericRecorder_OnSetup subscribe Ts sys w = fold (SetupOne subscribe) (enumerate 0 Ts) (True, sys, w)"

definition GenericRecorder_OnTick :: "'s GenericRecorderSystem \<Rightarrow> bool \<times> 's GenericRecorderSystem" where
  "GenericRecorder_OnTick sys = (True, sys)"

definition EnabledTopics :: "'s GenericRecorderSystem \<Rightarrow> TopicInfo list" where
  "EnabledTopics sys = gr_enabled_topics sys"

section \<open>Setup\<close>

abbreviation wanted :: "LoggerConfig \<Rightarrow> 'm TopicTraits list \<Rightarrow> TopicInfo list" where
  "wanted config Ts \<equiv> map topic_info (filter (\<lambda>T. IsEnabled T config) Ts)"

lemma setup_fold:
  assumes "fold (SetupOne subscribe) (enumerate n Ts) (ok, sys, w) = (ok', sys', w')"
  shows "gr_config sys' = gr_config sys \<and> (\<exists>us. gr_enabled_topics sys' = gr_enabled_topics sys @ us \<and>
     subseq us (wanted (gr_config sys) Ts) \<and> (ok' \<longleftrightarrow> ok \<and> us = wanted (gr_config sys) Ts))"
  using assms
proof (induction Ts arbitrary: n ok sys w)
  case Nil
  then show ?case by auto
next
  case (Cons T Ts)
  obtain ok1 sys1 w1 where one: "SetupOne subscribe (n, T) (ok, sys, w) = (ok1, sys1, w1)"
    by (metis prod_cases3)
  with Cons.prems have rest: "fold (SetupOne subscribe) (enumerate (Suc n) Ts) (ok1, sys1, w1) = (ok', sys', w')"
    by simp
  from Cons.IH [OF rest] obtain us where ih: "gr_config sys' = gr_config sys1"
    "gr_enabled_topics sys' = gr_enabled_topics sys1 @ us" "subseq us (wanted (gr_config sys1) Ts)"
    "ok' \<longleftrightarrow> ok1 \<and> us = wanted (gr_config sys1) Ts" by blast
  have len: "us \<noteq> topic_info T # wanted (gr_config sys1) Ts"
    using list_emb_length [OF ih(3)] by auto
  consider (off) "\<not> IsEnabled T (gr_config sys)" "ok1 = ok" "sys1 = sys"
    | (failed) "IsEnabled T (gr_config sys)" "\<not> ok1" "sys1 = sys"
    | (added) "IsEnabled T (gr_config sys)" "ok1 = ok" "gr_config sys1 = gr_config sys"
        "gr_enabled_topics sys1 = gr_enabled_topics sys @ [topic_info T]"
    using one by (auto simp: SetupOne_def Let_def split: if_splits prod.splits option.splits)
  then show ?case
  proof cases
    case off
    with ih show ?thesis by auto
  next
    case failed
    with ih have "subseq us (wanted (gr_config sys) (T # Ts))" "\<not> ok'" "us \<noteq> wanted (gr_config sys) (T # Ts)"
      using len by auto
    with ih failed show ?thesis by (intro conjI exI [of _ us]) simp_all
  next
    case added
    with ih show ?thesis by (intro conjI exI [of _ "topic_info T # us"]) simp_all
  qed
qed

text \<open>The runtime's answers: none for a disabled topic, which is not asked for, else what \<open>subscribe\<close> returns.\<close>

fun subscribe_answers :: "LoggerConfig \<Rightarrow> ('m, 's, 'w) subscribe_fn \<Rightarrow> 'm TopicTraits list \<Rightarrow> 'w \<Rightarrow> 's option option list \<times> 'w" where
  "subscribe_answers config subscribe [] w = ([], w)"
| "subscribe_answers config subscribe (T # Ts) w =
     (if IsEnabled T config
      then let (a, w) = subscribe (tt_topicName T) (on_sample T) subscription_options w;
               (as, w) = subscribe_answers config subscribe Ts w
           in (Some a # as, w)
      else let (as, w) = subscribe_answers config subscribe Ts w in (None # as, w))"

definition granted :: "'s option option \<Rightarrow> 's option" where
  "granted a = (case a of None \<Rightarrow> None | Some s \<Rightarrow> s)"

lemma granted_simps [simp]: "granted None = None" "granted (Some s) = s"
  by (simp_all add: granted_def)

lemma setup_answers:
  assumes "fold (SetupOne subscribe) (enumerate n Ts) (ok, sys, w) = (ok', sys', w')"
    and "subscribe_answers (gr_config sys) subscribe Ts w = (answers, w1)"
  shows "w' = w1 \<and> length answers = length Ts \<and> (ok' \<longleftrightarrow> ok \<and> Some None \<notin> set answers)
    \<and> gr_enabled_topics sys' = gr_enabled_topics sys @ map (topic_info \<circ> fst) (filter (\<lambda>(T, a). granted a \<noteq> None) (zip Ts answers))
    \<and> (\<forall>i < length Ts. gr_subs sys' (n + i) = (case granted (answers ! i) of None \<Rightarrow> gr_subs sys (n + i) | Some s \<Rightarrow> Some s))
    \<and> (\<forall>j < n. gr_subs sys' j = gr_subs sys j)"
  using assms
proof (induction Ts arbitrary: n ok sys w answers)
  case Nil
  then show ?case by simp
next
  case (Cons T Ts)
  obtain ok1 sys1 v where one: "SetupOne subscribe (n, T) (ok, sys, w) = (ok1, sys1, v)" by (metis prod_cases3)
  with Cons.prems(1) have rest: "fold (SetupOne subscribe) (enumerate (Suc n) Ts) (ok1, sys1, v) = (ok', sys', w')" by simp
  have config: "gr_config sys1 = gr_config sys"
    using one by (auto simp: SetupOne_def Let_def split: if_splits prod.splits option.splits)
  have "\<exists>a as. answers = a # as \<and> subscribe_answers (gr_config sys1) subscribe Ts v = (as, w1) \<and> (ok1 \<longleftrightarrow> ok \<and> a \<noteq> Some None)
    \<and> gr_enabled_topics sys1 = gr_enabled_topics sys @ (if granted a = None then [] else [topic_info T])
    \<and> gr_subs sys1 = (gr_subs sys)(n := case granted a of None \<Rightarrow> gr_subs sys n | Some s \<Rightarrow> Some s)"
  proof (cases "IsEnabled T (gr_config sys)")
    case False
    with one have "sys1 = sys" "ok1 = ok" "v = w" by (simp_all add: SetupOne_def)
    moreover obtain as u where as: "subscribe_answers (gr_config sys) subscribe Ts w = (as, u)" by force
    then have "answers = None # as" "u = w1" using False Cons.prems(2) by simp_all
    ultimately show ?thesis using as by (intro exI [of _ None] exI [of _ as]) simp
  next
    case True
    obtain sub v' where sub: "subscribe (tt_topicName T) (on_sample T) subscription_options w = (sub, v')" by force
    obtain as u where as: "subscribe_answers (gr_config sys) subscribe Ts v' = (as, u)" by force
    have v: "answers = Some sub # as" "u = w1"
      using True Cons.prems(2) by (simp_all add: sub as)
    have "SetupOne subscribe (n, T) (ok, sys, w) = (case sub of None \<Rightarrow> (False, sys, v')
          | Some s \<Rightarrow> (ok, sys\<lparr>gr_subs := (gr_subs sys)(n \<mapsto> s), gr_enabled_topics := gr_enabled_topics sys @ [topic_info T]\<rparr>, v'))"
      using True by (simp add: SetupOne_def sub)
    then have "case sub of None \<Rightarrow> \<not> ok1 \<and> sys1 = sys \<and> v = v'
        | Some s \<Rightarrow> ok1 = ok \<and> sys1 = sys\<lparr>gr_subs := (gr_subs sys)(n \<mapsto> s), gr_enabled_topics := gr_enabled_topics sys @ [topic_info T]\<rparr> \<and> v = v'"
      unfolding one by (auto split: option.splits)
    with as v show ?thesis by (cases sub) auto
  qed
  then obtain a as where as: "answers = a # as" "subscribe_answers (gr_config sys1) subscribe Ts v = (as, w1)"
    "ok1 \<longleftrightarrow> ok \<and> a \<noteq> Some None"
    "gr_enabled_topics sys1 = gr_enabled_topics sys @ (if granted a = None then [] else [topic_info T])"
    "gr_subs sys1 = (gr_subs sys)(n := case granted a of None \<Rightarrow> gr_subs sys n | Some s \<Rightarrow> Some s)" by blast
  note ih = Cons.IH [OF rest as(2)]
  have "gr_subs sys' (n + i) = (case granted (answers ! i) of None \<Rightarrow> gr_subs sys (n + i) | Some s \<Rightarrow> Some s)"
    if "i < length (T # Ts)" for i
    using that ih as(1,5) by (cases i) (auto split: option.splits)
  moreover have "gr_subs sys' j = gr_subs sys j" if "j < n" for j using that ih as(5) by simp
  moreover have "gr_enabled_topics sys' = gr_enabled_topics sys @ map (topic_info \<circ> fst) (filter (\<lambda>(T, a). granted a \<noteq> None) (zip (T # Ts) answers))"
    using ih as(1,4) by simp
  ultimately show ?case using ih as(1,3) by auto
qed

section \<open>Samples become records\<close>

text \<open>The record that a sample of topic \<open>T\<close> with payload bytes \<open>pl\<close> turns into.\<close>

definition sample_entry :: "'m TopicTraits \<Rightarrow> 'm Sample \<Rightarrow> bytes \<Rightarrow> entry" where
  "sample_entry T s pl = (tt_id16 T, sm_stamp_ns s, sm_seq s, pl)"

context recordable
begin

lemma sample_fits: "fits (sample_entry T s (layout v))"
  using size_ok by (simp add: fits_def sample_entry_def layout_size)

lemma on_sample_push:
  "on_sample T s w = map_option snd (RecordWriter_Push (tt_id16 T) (sm_stamp_ns s) (sm_seq s)
     (layout (sm_value s)) (word_of_nat (tt_wire_size T)) w)"
  by (simp add: on_sample_def encode_buffer case_prod_unfold map_conv_bind_option comp_def)

lemma on_sample_step:
  assumes "ring_wf ring_exponent (rw_ring w)" and "e = sample_entry T s (layout (sm_value s))"
  shows "\<exists>w'. on_sample T s w = Some w' \<and>
    (if fst (ring_push ring_exponent e (rw_ring w)) then writer_step w (Accept e) w' else writer_step w (Reject e) w') \<and>
    w' = w\<lparr>rw_ring := snd (ring_push ring_exponent e (rw_ring w))\<rparr>"
proof -
  let ?len = "word_of_nat (tt_wire_size T) :: u32" and ?data = "layout (sm_value s)"
  have len: "unat ?len \<le> length ?data" "take (unat ?len) ?data = ?data"
    by (simp_all add: size32 layout_size)
  obtain ok w' where p: "RecordWriter_Push (tt_id16 T) (sm_stamp_ns s) (sm_seq s) ?data ?len w = Some (ok, w')"
    using Push_total [OF assms(1) len(1)] by blast
  have e: "e = (tt_id16 T, sm_stamp_ns s, sm_seq s, take (unat ?len) ?data)"
    by (simp add: assms(2) sample_entry_def len(2))
  have "ok = fst (ring_push ring_exponent e (rw_ring w))" "w' = w\<lparr>rw_ring := snd (ring_push ring_exponent e (rw_ring w))\<rparr>"
    using Push_ring_push [OF len(1) p e] sample_fits [of s "sm_value s"] assms(2) by auto
  moreover have "if ok then writer_step w (Accept e) w' else writer_step w (Reject e) w'"
    using producer_accepted [OF len(1), of "tt_id16 T" "sm_stamp_ns s" "sm_seq s" w w']
      producer_rejected [OF len(1), of "tt_id16 T" "sm_stamp_ns s" "sm_seq s" w w'] p e by auto
  ultimately show ?thesis using p by (auto simp: on_sample_push)
qed

end

section \<open>Properties\<close>

text \<open>C34: \<open>OnSetup\<close> asks the runtime for one subscription per topic that the configuration enables, in the order of
  the topic list, with that topic's name, callback and options. It succeeds exactly when no answer was a
  failure; the metadata table handed to the writer lists exactly the topics whose subscription was granted, in the order of
  the list, and their subscriptions, and no others, are kept. So on success the table lists all
  enabled topics, and after a failure only some of them.\<close>

theorem OnSetup_enables:
  "let (answers, w1) = subscribe_answers config subscribe Ts w;
       (ok, sys', w') = GenericRecorder_OnSetup subscribe Ts (GenericRecorderSystem_init config) w
   in w' = w1 \<and> length answers = length Ts \<and> (ok \<longleftrightarrow> Some None \<notin> set answers)
     \<and> EnabledTopics sys' = map (topic_info \<circ> fst) (filter (\<lambda>(T, a). granted a \<noteq> None) (zip Ts answers))
     \<and> (\<forall>i < length Ts. gr_subs sys' i = granted (answers ! i))
     \<and> (ok \<longleftrightarrow> EnabledTopics sys' = map topic_info (filter (\<lambda>T. IsEnabled T config) Ts))
     \<and> subseq (EnabledTopics sys') (map topic_info (filter (\<lambda>T. IsEnabled T config) Ts))"
proof -
  obtain ok sys' w' where r: "GenericRecorder_OnSetup subscribe Ts (GenericRecorderSystem_init config) w = (ok, sys', w')"
    by (metis prod_cases3)
  obtain answers w1 where a: "subscribe_answers config subscribe Ts w = (answers, w1)" by force
  note fold = r [unfolded GenericRecorder_OnSetup_def]
  have "subscribe_answers (gr_config (GenericRecorderSystem_init config)) subscribe Ts w = (answers, w1)"
    using a by (simp add: GenericRecorderSystem_init_def)
  from setup_answers [OF fold this] have new: "w' = w1" "length answers = length Ts" "ok \<longleftrightarrow> Some None \<notin> set answers"
    "EnabledTopics sys' = map (topic_info \<circ> fst) (filter (\<lambda>(T, a). granted a \<noteq> None) (zip Ts answers))"
    "\<forall>i < length Ts. gr_subs sys' i = granted (answers ! i)"
    by (auto simp: EnabledTopics_def GenericRecorderSystem_init_def split: option.splits)
  from setup_fold [OF fold] have "ok \<longleftrightarrow> EnabledTopics sys' = wanted config Ts" "subseq (EnabledTopics sys') (wanted config Ts)"
    by (auto simp: EnabledTopics_def GenericRecorderSystem_init_def)
  with new show ?thesis unfolding r a by simp
qed

text \<open>Two topics and a runtime that refuses the first subscription.\<close>

theorem OnSetup_enables_witness:
  "\<exists>sys'. GenericRecorder_OnSetup (\<lambda>_ _ _ n. (if n = 0 then None else Some n, Suc n))
         [JoyTraits JoyMsgs_init, (JoyTraits JoyMsgs_init)\<lparr>tt_topicName := lit ''/joy2''\<rparr>]
         (GenericRecorderSystem_init LoggerConfig_init) (0 :: nat) = (False, sys', 2)
     \<and> EnabledTopics sys' = [\<lparr>ti_topic_id = 4, ti_wire_size = 22, ti_name = lit ''/joy2''\<rparr>]
     \<and> gr_subs sys' 0 = None \<and> gr_subs sys' 1 = Some 1"
proof -
  let ?sub = "\<lambda>(_ :: bytes) (_ :: JoyMsgs sample_callback) (_ :: SubscriptionOptions) n. (if n = 0 then None else Some n, Suc n)"
  let ?Ts = "[JoyTraits JoyMsgs_init, (JoyTraits JoyMsgs_init)\<lparr>tt_topicName := lit ''/joy2''\<rparr>]"
  obtain ok sys' w' where r: "GenericRecorder_OnSetup ?sub ?Ts (GenericRecorderSystem_init LoggerConfig_init) (0 :: nat) = (ok, sys', w')"
    by (rule prod_cases3)
  have on: "IsEnabled T LoggerConfig_init" for T :: "JoyMsgs TopicTraits" by (simp add: IsEnabled_def LoggerConfig_init_def)
  have a: "subscribe_answers LoggerConfig_init ?sub ?Ts (0 :: nat) = ([Some None, Some (Some 1)], 2)" by (simp add: on)
  from OnSetup_enables [of LoggerConfig_init ?sub ?Ts "0 :: nat", unfolded r a]
  have s: "w' = 2" "\<not> ok" "EnabledTopics sys' = [topic_info (?Ts ! 1)]"
    "\<forall>i < length ?Ts. gr_subs sys' i = granted ([Some None, Some (Some 1)] ! i)" by simp_all
  have "gr_subs sys' 0 = None" "gr_subs sys' 1 = Some 1" using s(4) [rule_format, of 0] s(4) [rule_format, of 1] by simp_all
  moreover have "EnabledTopics sys' = [\<lparr>ti_topic_id = 4, ti_wire_size = 22, ti_name = lit ''/joy2''\<rparr>]"
    using s(3) by (simp add: topic_info_def)
  ultimately show ?thesis using r s(1,2) by (intro exI [of _ sys']) simp
qed

end
