(* ===== verification/Record_Reader.thy ===== *)
theory Record_Reader
  imports Wire_Format
begin

text \<open>
  The replay engine of \<open>include/chrono_cap/record_reader.hpp\<close> and
  \<open>src/core/record_reader.cpp\<close>. The mapped file is a byte list, offsets are \<open>size_t\<close> values with
  their wrap-around, a read outside the mapping or past an unterminated name is \<^const>\<open>None\<close>. The
  monotonic clock and \<open>clock_nanosleep\<close> answer from arbitrary scripts (record \<open>Clock\<close>), which also
  logs the deadline of every completed sleep. Callbacks and topic hooks are parameters over a state
  \<open>'w\<close> of the application. \<open>parse_records\<close> is the format's reference grammar; the walk over the
  mapping is shown to deliver exactly what it yields.
\<close>

section \<open>Clock\<close>

record Clock =
  ck_time :: "nat \<Rightarrow> u64 \<times> u64"  \<comment> \<open>successive \<open>clock_gettime\<close> results, (\<open>tv_sec\<close>, \<open>tv_nsec\<close>)\<close>
  ck_reads :: nat
  ck_nanosleep :: "nat \<Rightarrow> int"  \<comment> \<open>successive \<open>clock_nanosleep\<close> return codes\<close>
  ck_sleeps :: nat
  ck_deadlines :: "(u64 \<times> u64) list"

definition EINTR :: int where
  "EINTR = 4"

partial_function (option) sleep_retry :: "u64 \<times> u64 \<Rightarrow> Clock \<Rightarrow> Clock option" where
  "sleep_retry ts ck =
     (let rc = ck_nanosleep ck (ck_sleeps ck);
          ck' = ck\<lparr>ck_sleeps := Suc (ck_sleeps ck)\<rparr>
      in if rc = EINTR then sleep_retry ts ck'
         else Some (ck'\<lparr>ck_deadlines := ck_deadlines ck @ [ts]\<rparr>))"

definition timespec_of :: "u64 \<Rightarrow> u64 \<times> u64" where
  "timespec_of target = (target div 1000000000, target mod 1000000000)"

definition SleepUntilAbsoluteNs :: "u64 \<Rightarrow> Clock \<Rightarrow> Clock option" where
  "SleepUntilAbsoluteNs target_monotonic_ns ck = sleep_retry (timespec_of target_monotonic_ns) ck"

definition MonotonicNowNs :: "Clock \<Rightarrow> u64 \<times> Clock" where
  "MonotonicNowNs ck =
     (let (sec, nsec) = ck_time ck (ck_reads ck)
      in (sec * 1000000000 + nsec, ck\<lparr>ck_reads := Suc (ck_reads ck)\<rparr>))"

section \<open>Opening\<close>

record ResolvedTopic =
  rt_topic_id :: u16
  rt_wire_size :: u32
  rt_name :: bytes

record RecordReader =
  rr_base :: "bytes option"  \<comment> \<open>\<open>base_\<close>: the mapping, \<open>None\<close> for \<open>nullptr\<close>\<close>
  rr_file_size :: nat
  rr_records_start_offset :: nat
  rr_topics :: "ResolvedTopic list"
  rr_by_id :: "u16 \<rightharpoonup> ResolvedTopic"

definition RecordReader_init :: RecordReader where
  "RecordReader_init = \<lparr>rr_base = None, rr_file_size = 0, rr_records_start_offset = 0, rr_topics = [],
     rr_by_id = Map.empty\<rparr>"

text \<open>The reasons \<open>Open\<close> returns false, each with its own message in the source.\<close>

datatype open_error =
    OpenFailed | FstatFailed | MmapFailed | FileTooSmall | BadMagic
  | UnsupportedVersion u32 | TruncatedMetadata | HookRejected ResolvedTopic

text \<open>The file as the system calls see it.\<close>

record FileView =
  fv_open_ok :: bool
  fv_fstat_ok :: bool
  fv_content :: bytes
  fv_mmap_ok :: bool

fun parse_topics :: "nat \<Rightarrow> nat \<Rightarrow> bytes \<Rightarrow> RecordReader \<Rightarrow> (open_error option \<times> RecordReader) option" where
  "parse_topics 0 offset base r = Some (None, r\<lparr>rr_records_start_offset := offset\<rparr>)"
| "parse_topics (Suc n) offset base r =
     (if sz_add offset kTopicMetaWireSize > rr_file_size r then Some (Some TruncatedMetadata, r)
      else do {
        entry \<leftarrow> TopicMetaEntry_Deserialize base offset TopicMetaEntry_init;
        nm \<leftarrow> c_string (tm_name entry);
        let resolved = \<lparr>rt_topic_id = tm_topic_id entry, rt_wire_size = tm_struct_size entry, rt_name = nm\<rparr>
        in parse_topics n (sz_add offset kTopicMetaWireSize) base
             (r\<lparr>rr_topics := rr_topics r @ [resolved],
                rr_by_id := (rr_by_id r)(rt_topic_id resolved \<mapsto> resolved)\<rparr>) })"

definition ParseHeaderAndMetadata :: "RecordReader \<Rightarrow> (open_error option \<times> RecordReader) option" where
  "ParseHeaderAndMetadata r =
     (if rr_file_size r < kFileHeaderWireSize then Some (Some FileTooSmall, r)
      else do {
        base \<leftarrow> rr_base r;
        (ok, header) \<leftarrow> FileHeader_Deserialize base 0 FileHeader_init;
        if \<not> ok then Some (Some BadMagic, r)
        else if fh_version header \<noteq> kFormatVersion then Some (Some (UnsupportedVersion (fh_version header)), r)
        else parse_topics (unat (fh_topic_count header)) kFileHeaderWireSize base r })"

text \<open>The hook is asked about one topic after the other until it refuses one.\<close>

fun run_hook :: "(ResolvedTopic \<Rightarrow> 'w \<Rightarrow> bool \<times> 'w) \<Rightarrow> ResolvedTopic list \<Rightarrow> 'w \<Rightarrow> open_error option \<times> 'w" where
  "run_hook hook [] s = (None, s)"
| "run_hook hook (t # ts) s =
     (let (ok, s) = hook t s in if \<not> ok then (Some (HookRejected t), s) else run_hook hook ts s)"

definition RecordReader_Open :: "FileView \<Rightarrow> (ResolvedTopic \<Rightarrow> 'w \<Rightarrow> bool \<times> 'w) option \<Rightarrow> RecordReader \<Rightarrow> 'w
    \<Rightarrow> (open_error option \<times> RecordReader \<times> 'w) option" where
  "RecordReader_Open fv on_topic r s =
     (if \<not> fv_open_ok fv then Some (Some OpenFailed, r, s)
      else if \<not> fv_fstat_ok fv then Some (Some FstatFailed, r, s)
      else let r = r\<lparr>rr_file_size := length (fv_content fv)\<rparr>
        in if \<not> fv_mmap_ok fv \<or> fv_content fv = [] then Some (Some MmapFailed, r, s)
           else do {
             (err, r) \<leftarrow> ParseHeaderAndMetadata (r\<lparr>rr_base := Some (fv_content fv)\<rparr>);
             if err \<noteq> None then Some (err, r, s)
             else case on_topic of
               None \<Rightarrow> Some (None, r, s)
             | Some hook \<Rightarrow> let (err, s) = run_hook hook (rr_topics r) s in Some (err, r, s) })"

definition RecordReader_Topics :: "RecordReader \<Rightarrow> ResolvedTopic list" where
  "RecordReader_Topics r = rr_topics r"

text \<open>The destructor unmaps the file.\<close>

definition RecordReader_destroy :: "RecordReader \<Rightarrow> RecordReader" where
  "RecordReader_destroy r = (if rr_base r \<noteq> None then r\<lparr>rr_base := None\<rparr> else r)"

section \<open>Replaying\<close>

text \<open>A callback gets the payload as a pointer into the mapping; \<open>None\<close> is a fault of the callback.\<close>

type_synonym 'w RecordCallback = "u16 \<Rightarrow> u64 \<Rightarrow> u64 \<Rightarrow> bytes \<times> nat \<Rightarrow> u32 \<Rightarrow> 'w \<Rightarrow> 'w option"

datatype stop_reason = EndOfData | UnknownTopic u16 | TruncatedRecord nat | Faulted

record Timeline =
  tl_have_t0 :: bool
  tl_t0_ns :: u64
  tl_start_ns :: u64

definition Timeline_init :: Timeline where
  "Timeline_init = \<lparr>tl_have_t0 = False, tl_t0_ns = 0, tl_start_ns = 0\<rparr>"

definition anchor :: "u64 \<Rightarrow> Timeline \<Rightarrow> Clock \<Rightarrow> Timeline \<times> Clock" where
  "anchor stamp tln ck =
     (if \<not> tl_have_t0 tln
      then let (now, ck) = MonotonicNowNs ck in (\<lparr>tl_have_t0 = True, tl_t0_ns = stamp, tl_start_ns = now\<rparr>, ck)
      else (tln, ck))"

definition target_ns :: "Timeline \<Rightarrow> u64 \<Rightarrow> u64" where
  "target_ns tln stamp =
     (let elapsed = (if stamp \<ge> tl_t0_ns tln then stamp - tl_t0_ns tln else 0) in tl_start_ns tln + elapsed)"

partial_function (option) run_loop :: "bytes \<Rightarrow> nat \<Rightarrow> (u16 \<rightharpoonup> ResolvedTopic) \<Rightarrow> 'w RecordCallback
    \<Rightarrow> nat \<Rightarrow> Timeline \<Rightarrow> u64 \<Rightarrow> Clock \<Rightarrow> 'w \<Rightarrow> (stop_reason \<times> u64 \<times> Clock \<times> 'w) option" where
  "run_loop base end by_id callback offset tln played ck s =
     (if sz_add offset kRecordHeaderWireSize \<le> end
      then case RecordHeader_Deserialize base offset RecordHeader_init of
        None \<Rightarrow> Some (Faulted, played, ck, s)
      | Some hdr \<Rightarrow>
          (case by_id (rh_topic_id hdr) of
             None \<Rightarrow> Some (UnknownTopic (rh_topic_id hdr), played, ck, s)
           | Some topic \<Rightarrow>
               let payload_offset = sz_add offset kRecordHeaderWireSize
               in if sz_add payload_offset (unat (rt_wire_size topic)) > end
                  then Some (TruncatedRecord offset, played, ck, s)
                  else let (tln, ck) = anchor (rh_stamp_ns hdr) tln ck
                    in Option.bind (SleepUntilAbsoluteNs (target_ns tln (rh_stamp_ns hdr)) ck) (\<lambda>ck.
                      case callback (rh_topic_id hdr) (rh_stamp_ns hdr) (rh_seq hdr) (base, payload_offset)
                             (rt_wire_size topic) s of
                        None \<Rightarrow> Some (Faulted, played, ck, s)
                      | Some s \<Rightarrow> run_loop base end by_id callback
                          (sz_add payload_offset (unat (rt_wire_size topic))) tln (played + 1) ck s))
      else Some (EndOfData, played, ck, s))"

definition RecordReader_Run :: "'w RecordCallback \<Rightarrow> RecordReader \<Rightarrow> Clock \<Rightarrow> 'w
    \<Rightarrow> (stop_reason \<times> u64 \<times> Clock \<times> 'w) option" where
  "RecordReader_Run callback r ck s =
     run_loop (case rr_base r of None \<Rightarrow> [] | Some b \<Rightarrow> b) (rr_file_size r) (rr_by_id r) callback
       (rr_records_start_offset r) Timeline_init 0 ck s"

text \<open>\<open>Walk\<close> is the same loop with the pacing made optional.\<close>

partial_function (option) walk_loop :: "bytes \<Rightarrow> nat \<Rightarrow> (u16 \<rightharpoonup> ResolvedTopic) \<Rightarrow> 'w RecordCallback
    \<Rightarrow> bool \<Rightarrow> nat \<Rightarrow> Timeline \<Rightarrow> u64 \<Rightarrow> Clock \<Rightarrow> 'w \<Rightarrow> (stop_reason \<times> u64 \<times> Clock \<times> 'w) option" where
  "walk_loop base end by_id callback with_timing offset tln played ck s =
     (if sz_add offset kRecordHeaderWireSize \<le> end
      then case RecordHeader_Deserialize base offset RecordHeader_init of
        None \<Rightarrow> Some (Faulted, played, ck, s)
      | Some hdr \<Rightarrow>
          (case by_id (rh_topic_id hdr) of
             None \<Rightarrow> Some (UnknownTopic (rh_topic_id hdr), played, ck, s)
           | Some topic \<Rightarrow>
               let payload_offset = sz_add offset kRecordHeaderWireSize
               in if sz_add payload_offset (unat (rt_wire_size topic)) > end
                  then Some (TruncatedRecord offset, played, ck, s)
                  else let (tln, ck) = (if with_timing then anchor (rh_stamp_ns hdr) tln ck else (tln, ck))
                    in Option.bind
                         (if with_timing then SleepUntilAbsoluteNs (target_ns tln (rh_stamp_ns hdr)) ck else Some ck) (\<lambda>ck.
                      case callback (rh_topic_id hdr) (rh_stamp_ns hdr) (rh_seq hdr) (base, payload_offset)
                             (rt_wire_size topic) s of
                        None \<Rightarrow> Some (Faulted, played, ck, s)
                      | Some s \<Rightarrow> walk_loop base end by_id callback with_timing
                          (sz_add payload_offset (unat (rt_wire_size topic))) tln (played + 1) ck s))
      else Some (EndOfData, played, ck, s))"

definition RecordReader_Walk :: "'w RecordCallback \<Rightarrow> bool \<Rightarrow> RecordReader \<Rightarrow> Clock \<Rightarrow> 'w
    \<Rightarrow> (stop_reason \<times> u64 \<times> Clock \<times> 'w) option" where
  "RecordReader_Walk callback with_timing r ck s =
     walk_loop (case rr_base r of None \<Rightarrow> [] | Some b \<Rightarrow> b) (rr_file_size r) (rr_by_id r) callback with_timing
       (rr_records_start_offset r) Timeline_init 0 ck s"


section \<open>The reference grammar of the record area\<close>

function parse_records :: "(u16 \<rightharpoonup> ResolvedTopic) \<Rightarrow> nat \<Rightarrow> bytes \<Rightarrow> entry list \<times> stop_reason" where
  "parse_records by_id offset bs =
     (case RecordHeader_Deserialize bs 0 RecordHeader_init of
        None \<Rightarrow> ([], EndOfData)
      | Some h \<Rightarrow>
          (case by_id (rh_topic_id h) of
             None \<Rightarrow> ([], UnknownTopic (rh_topic_id h))
           | Some topic \<Rightarrow>
               let n = kRecordHeaderWireSize + unat (rt_wire_size topic)
               in if length bs < n then ([], TruncatedRecord offset)
                  else let (es, why) = parse_records by_id (offset + n) (drop n bs)
                    in ((rh_topic_id h, rh_stamp_ns h, rh_seq h,
                         take (unat (rt_wire_size topic)) (drop kRecordHeaderWireSize bs)) # es, why)))"
  by pat_completeness auto
termination
  by (relation "measure (\<lambda>(_, _, bs). length bs)") (auto simp: wire_sizes)

declare parse_records.simps [simp del]

section \<open>Sleeping\<close>

text \<open>Interruptions by signals do not go on for ever.\<close>

definition wakes :: "Clock \<Rightarrow> bool" where
  "wakes ck \<longleftrightarrow> (\<forall>i \<ge> ck_sleeps ck. \<exists>j \<ge> i. ck_nanosleep ck j \<noteq> EINTR)"

text \<open>A completed sleep changes nothing but the call counter and the log.\<close>

definition slept :: "(u64 \<times> u64) list \<Rightarrow> Clock \<Rightarrow> Clock \<Rightarrow> bool" where
  "slept ts ck ck' \<longleftrightarrow> (\<exists>c \<ge> ck_sleeps ck. ck' = ck\<lparr>ck_sleeps := c, ck_deadlines := ck_deadlines ck @ ts\<rparr>)"

lemma slept_wakes: "slept ts ck ck' \<Longrightarrow> wakes ck \<Longrightarrow> wakes ck'"
  by (auto simp: slept_def wakes_def)

lemma sleep_retry_returns:
  assumes "ck_sleeps ck \<le> j" and "ck_nanosleep ck j \<noteq> EINTR"
  shows "\<exists>ck'. sleep_retry ts ck = Some ck' \<and> slept [ts] ck ck'"
  using assms
proof (induction "j - ck_sleeps ck" arbitrary: ck)
  case 0
  then have "ck_nanosleep ck (ck_sleeps ck) \<noteq> EINTR" by simp
  then show ?case
    by (subst sleep_retry.simps) (auto simp: slept_def Let_def intro!: exI [of _ "Suc (ck_sleeps ck)"])
next
  case (Suc n)
  show ?case
  proof (cases "ck_nanosleep ck (ck_sleeps ck) = EINTR")
    case False
    then show ?thesis
      by (subst sleep_retry.simps) (auto simp: slept_def Let_def intro!: exI [of _ "Suc (ck_sleeps ck)"])
  next
    case True
    let ?ck = "ck\<lparr>ck_sleeps := Suc (ck_sleeps ck)\<rparr>"
    have "n = j - ck_sleeps ?ck" "ck_sleeps ?ck \<le> j" using Suc.hyps(2) by simp_all
    then obtain ck' where r: "sleep_retry ts ?ck = Some ck'" and "slept [ts] ?ck ck'"
      using Suc.hyps(1) [of ?ck] Suc.prems(2) by auto
    then obtain c where "Suc (ck_sleeps ck) \<le> c"
      "ck' = ck\<lparr>ck_sleeps := c, ck_deadlines := ck_deadlines ck @ [ts]\<rparr>"
      by (auto simp: slept_def)
    moreover have "sleep_retry ts ck = sleep_retry ts ?ck"
      by (subst sleep_retry.simps) (simp add: True Let_def)
    ultimately show ?thesis using r by (auto simp: slept_def intro!: exI [of _ c])
  qed
qed

lemma Sleep_returns:
  assumes "wakes ck"
  shows "\<exists>ck'. SleepUntilAbsoluteNs t ck = Some ck' \<and> slept [timespec_of t] ck ck' \<and> wakes ck'"
proof -
  obtain j where "j \<ge> ck_sleeps ck" "ck_nanosleep ck j \<noteq> EINTR" using assms by (auto simp: wakes_def)
  then obtain ck' where "sleep_retry (timespec_of t) ck = Some ck'" "slept [timespec_of t] ck ck'"
    using sleep_retry_returns by blast
  with slept_wakes [OF _ assms] show ?thesis by (auto simp: SleepUntilAbsoluteNs_def)
qed

section \<open>Run is Walk with pacing\<close>

lemma run_imp_walk:
  assumes "run_loop base end by_id cb offset tln played ck s = Some res"
  shows "walk_loop base end by_id cb True offset tln played ck s = Some res"
proof (rule run_loop.raw_induct [where P = "\<lambda>base end by_id cb offset tln played ck s res.
    walk_loop base end by_id cb True offset tln played ck s = Some res", OF _ assms], goal_cases)
  case (1 f base "end" by_id cb offset tln played ck s res)
  obtain why n ck' s' where "res = (why, n, ck', s')" by (cases res)
  with 1 show ?case
    by (subst walk_loop.simps)
      (auto simp: Let_def split: option.splits prod.splits if_splits Option.bind_splits)
qed

lemma walk_imp_run:
  assumes "walk_loop base end by_id cb True offset tln played ck s = Some res"
  shows "run_loop base end by_id cb offset tln played ck s = Some res"
proof -
  have "True \<longrightarrow> run_loop base end by_id cb offset tln played ck s = Some res"
  proof (rule walk_loop.raw_induct [where P = "\<lambda>base end by_id cb wt offset tln played ck s res.
      wt \<longrightarrow> run_loop base end by_id cb offset tln played ck s = Some res", OF _ assms], goal_cases)
    case (1 f base "end" by_id cb wt offset tln played ck s res)
    obtain why n ck' s' where "res = (why, n, ck', s')" by (cases res)
    with 1 show ?case
      by (subst run_loop.simps)
        (auto simp: Let_def split: option.splits prod.splits if_splits Option.bind_splits)
  qed
  then show ?thesis by simp
qed

lemma run_loop_walk_loop:
  "run_loop base end by_id cb offset tln played ck s = walk_loop base end by_id cb True offset tln played ck s"
proof (cases "walk_loop base end by_id cb True offset tln played ck s")
  case None
  then show ?thesis
    using run_imp_walk [of base "end" by_id cb offset tln played ck s]
    by (cases "run_loop base end by_id cb offset tln played ck s") auto
next
  case (Some res)
  then show ?thesis using walk_imp_run by simp
qed

section \<open>The walk delivers what the grammar yields\<close>

text \<open>
  The callback \<open>cb\<close> acts as \<open>app\<close> on every payload that lies inside the mapping and has the length
  of its topic: it does not fault there and looks at nothing but these bytes.
\<close>

definition cb_sound :: "bytes \<Rightarrow> (u16 \<rightharpoonup> ResolvedTopic) \<Rightarrow> 'w RecordCallback \<Rightarrow> (entry \<Rightarrow> 'w \<Rightarrow> 'w) \<Rightarrow> bool" where
  "cb_sound base by_id cb app \<longleftrightarrow> (\<forall>t st sq p topic s. by_id t = Some topic \<longrightarrow>
     p + unat (rt_wire_size topic) \<le> length base \<longrightarrow>
     cb t st sq (base, p) (rt_wire_size topic) s
       = Some (app (t, st, sq, take (unat (rt_wire_size topic)) (drop p base)) s))"

definition entry_stamp :: "entry \<Rightarrow> u64" where
  "entry_stamp e = fst (snd e)"

definition anchored :: "Timeline \<Rightarrow> u64 \<Rightarrow> entry list \<Rightarrow> Timeline" where
  "anchored tln now es = (if tl_have_t0 tln then tln else case es of [] \<Rightarrow> tln
     | e # _ \<Rightarrow> \<lparr>tl_have_t0 = True, tl_t0_ns = entry_stamp e, tl_start_ns = now\<rparr>)"

definition schedule :: "Timeline \<Rightarrow> entry list \<Rightarrow> (u64 \<times> u64) list" where
  "schedule tln es = map (\<lambda>e. timespec_of (target_ns tln (entry_stamp e))) es"

lemma header_drop:
  assumes "p \<le> length b"
  shows "RecordHeader_Deserialize (drop p b) 0 RecordHeader_init = RecordHeader_Deserialize b p RecordHeader_init"
proof (cases "RecordHeader_Deserialize b p RecordHeader_init")
  case None
  then have "length b < p + kRecordHeaderWireSize" by (simp only: rh.deser_None_iff)
  then have "RecordHeader_Deserialize (drop p b) 0 RecordHeader_init = None"
    using assms by (simp add: rh.deser_None_iff less_diff_conv2 add.commute)
  with None show ?thesis by simp
next
  case (Some h)
  then have "located (drop p b) 0 (RecordHeader_layout h)"
    using assms rh.deser_sound [OF Some] by (simp add: located_drop)
  then show ?thesis using Some by (simp add: rh.deser_layout)
qed

lemma anchor_effect:
  assumes "wakes ck"
  obtains ck1 where "anchor st tln ck = (anchored tln (fst (MonotonicNowNs ck)) ((t, st, sq, pl) # es), ck1)"
    "wakes ck1" "ck_deadlines ck1 = ck_deadlines ck"
proof -
  let ?ck1 = "if tl_have_t0 tln then ck else snd (MonotonicNowNs ck)"
  have "anchor st tln ck = (anchored tln (fst (MonotonicNowNs ck)) ((t, st, sq, pl) # es), ?ck1)"
    by (simp add: anchor_def anchored_def entry_stamp_def Let_def split: prod.split)
  moreover have "wakes ?ck1" "ck_deadlines ?ck1 = ck_deadlines ck"
    using assms by (simp_all add: wakes_def MonotonicNowNs_def Let_def split: prod.split)
  ultimately show thesis by (rule that)
qed

lemma anchored_again: "anchored (anchored tln now (e # es)) now' es' = anchored tln now (e # es)"
  by (simp add: anchored_def)

text \<open>One step of the grammar, on the bytes from an offset on: it stops, or it takes a record.\<close>

lemma parse_at:
  assumes "offset \<le> length base" and "RecordHeader_Deserialize base offset RecordHeader_init = Some h"
    and "by_id (rh_topic_id h) = Some topic" and "n = unat (rt_wire_size topic)"
  shows "parse_records by_id offset (drop offset base) =
    (if length base < offset + 18 + n then ([], TruncatedRecord offset)
     else let (es, why) = parse_records by_id (offset + 18 + n) (drop (offset + 18 + n) base)
       in ((rh_topic_id h, rh_stamp_ns h, rh_seq h, take n (drop (offset + 18) base)) # es, why))"
proof -
  have dd: "drop (18 + n) (drop offset base) = drop (offset + 18 + n) base"
    "drop 18 (drop offset base) = drop (offset + 18) base" "offset + (18 + n) = offset + 18 + n"
    by (simp_all add: ac_simps)
  have "length (drop offset base) < 18 + n \<longleftrightarrow> length base < offset + 18 + n" using assms(1) by auto
  with header_drop [OF assms(1)] assms(2,3) assms(4) [symmetric] show ?thesis
    by (simp add: parse_records.simps [of by_id offset] wire_sizes Let_def dd del: length_drop drop_drop)
qed

lemma walk_offsets:
  assumes "length base < 2 ^ 63" and "offset \<le> length base"
  shows "sz_add offset kRecordHeaderWireSize = offset + 18"
    and "offset + 18 \<le> length base \<Longrightarrow> sz_add (offset + 18) (unat (w :: u32)) = offset + 18 + unat w"
proof -
  show "sz_add offset kRecordHeaderWireSize = offset + 18" using assms by (simp add: wire_sizes sz_add_exact)
  have "unat w < 2 ^ 32" by (rule order_less_le_trans [OF unsigned_less]) simp
  then show "sz_add (offset + 18) (unat w) = offset + 18 + unat w" if "offset + 18 \<le> length base"
    using that assms by (intro sz_add_exact) simp
qed

lemma walk_stops:
  assumes "length base < 2 ^ 63" and off: "offset \<le> length base" and p: "parse_records by_id offset (drop offset base) = ([], why)"
  shows "walk_loop base (length base) by_id cb wt offset tln played ck s = Some (why, played, ck, s)"
proof (cases "RecordHeader_Deserialize base offset RecordHeader_init")
  case None
  then have "length base < offset + 18" by (simp add: rh.deser_None_iff wire_sizes)
  moreover have "why = EndOfData" using p None header_drop [OF off] by (simp add: parse_records.simps)
  ultimately show ?thesis by (simp add: walk_loop.simps walk_offsets(1) [OF assms(1,2)])
next
  case (Some h)
  then have r: "offset + 18 \<le> length base" using rh.deser_range [OF Some] by (simp add: wire_sizes)
  note sums = walk_offsets(1) [OF assms(1,2)] walk_offsets(2) [OF assms(1,2) r]
  show ?thesis
  proof (cases "by_id (rh_topic_id h)")
    case None
    with p Some header_drop [OF off] have "why = UnknownTopic (rh_topic_id h)" by (simp add: parse_records.simps)
    with None Some r show ?thesis by (simp add: walk_loop.simps sums)
  next
    case (Some topic)
    note h = \<open>RecordHeader_Deserialize base offset RecordHeader_init = Some h\<close>
    have "length base < offset + 18 + unat (rt_wire_size topic)" "why = TruncatedRecord offset"
      using p parse_at [OF off h, of by_id topic "unat (rt_wire_size topic)"] Some by (auto simp: Let_def split: if_splits prod.splits)
    with Some h r show ?thesis by (simp add: walk_loop.simps sums Let_def)
  qed
qed

lemma parse_takes:
  assumes off: "offset \<le> length base" and p: "parse_records by_id offset (drop offset base) = (e # es, why)"
  obtains h topic n where "RecordHeader_Deserialize base offset RecordHeader_init = Some h" "by_id (rh_topic_id h) = Some topic"
    "n = unat (rt_wire_size topic)" "offset + 18 + n \<le> length base"
    "e = (rh_topic_id h, rh_stamp_ns h, rh_seq h, take n (drop (offset + 18) base))"
    "parse_records by_id (offset + 18 + n) (drop (offset + 18 + n) base) = (es, why)"
proof -
  obtain h where h: "RecordHeader_Deserialize base offset RecordHeader_init = Some h"
    using p header_drop [OF off] by (cases "RecordHeader_Deserialize base offset RecordHeader_init") (simp_all add: parse_records.simps)
  obtain topic where t: "by_id (rh_topic_id h) = Some topic"
    using p h header_drop [OF off] by (cases "by_id (rh_topic_id h)") (simp_all add: parse_records.simps)
  show thesis
    using that [OF h t, of "unat (rt_wire_size topic)"] p parse_at [OF off h, of by_id topic "unat (rt_wire_size topic)"] t by (auto simp: Let_def split: if_splits prod.splits)
qed

text \<open>The pacing of one record: an anchor if it is the first, then the sleep.\<close>

lemma pace_record:
  assumes "wakes ck" and "tln' = (if wt then anchored tln (fst (MonotonicNowNs ck)) ((t, st, sq, pl) # es) else tln)"
  obtains ck1 ck2 where "(if wt then anchor st tln ck else (tln, ck)) = (tln', ck1)"
    "(if wt then SleepUntilAbsoluteNs (target_ns tln' st) ck1 else Some ck1) = Some ck2" "wakes ck2"
    "ck_deadlines ck2 = ck_deadlines ck @ (if wt then [timespec_of (target_ns tln' st)] else [])"
proof (cases wt)
  case True
  obtain ck1 where a: "anchor st tln ck = (tln', ck1)" "wakes ck1" "ck_deadlines ck1 = ck_deadlines ck"
    using anchor_effect [OF assms(1), of st tln t sq pl es] assms(2) True by auto
  obtain ck2 where "SleepUntilAbsoluteNs (target_ns tln' st) ck1 = Some ck2" "wakes ck2"
    "ck_deadlines ck2 = ck_deadlines ck1 @ [timespec_of (target_ns tln' st)]"
    using Sleep_returns [OF a(2), of "target_ns tln' st"] by (auto simp: slept_def)
  with that [of ck1 ck2] a True show thesis by simp
qed (use that [of ck ck] assms in simp)

text \<open>The loop takes a record, also when \<open>end\<close> lies behind the mapping.\<close>

lemma walk_record:
  assumes len: "length base \<le> end" "end < 2 ^ 63" and cb: "cb_sound base by_id cb app"
    and off: "offset \<le> length base" and ck0: "wakes ck" and p: "parse_records by_id offset (drop offset base) = (e # es, why)"
    and tl: "tln' = (if wt then anchored tln (fst (MonotonicNowNs ck)) (e # es) else tln)"
  obtains offset' ck' where "walk_loop base end by_id cb wt offset tln played ck s
      = walk_loop base end by_id cb wt offset' tln' (played + 1) ck' (app e s)"
    "offset' \<le> length base" "parse_records by_id offset' (drop offset' base) = (es, why)" "wakes ck'"
    "ck_deadlines ck' = ck_deadlines ck @ (if wt then [timespec_of (target_ns tln' (entry_stamp e))] else [])"
proof -
  obtain h topic n where h: "RecordHeader_Deserialize base offset RecordHeader_init = Some h" "by_id (rh_topic_id h) = Some topic"
    and n: "n = unat (rt_wire_size topic)" "offset + 18 + n \<le> length base"
    and e: "e = (rh_topic_id h, rh_stamp_ns h, rh_seq h, take n (drop (offset + 18) base))"
    and rest: "parse_records by_id (offset + 18 + n) (drop (offset + 18 + n) base) = (es, why)"
    using off p by (rule parse_takes)
  obtain ck1 ck2 where ck: "(if wt then anchor (rh_stamp_ns h) tln ck else (tln, ck)) = (tln', ck1)"
    "(if wt then SleepUntilAbsoluteNs (target_ns tln' (rh_stamp_ns h)) ck1 else Some ck1) = Some ck2" "wakes ck2"
    "ck_deadlines ck2 = ck_deadlines ck @ (if wt then [timespec_of (target_ns tln' (rh_stamp_ns h))] else [])"
    using pace_record [OF ck0, of tln' wt tln "rh_topic_id h" "rh_stamp_ns h" "rh_seq h" "take n (drop (offset + 18) base)" es]
    by (auto simp: e tl)
  have call: "cb (rh_topic_id h) (rh_stamp_ns h) (rh_seq h) (base, offset + 18) (rt_wire_size topic) s = Some (app e s)"
    using cb h(2) n by (simp add: cb_sound_def e)
  have "length base < 2 ^ 63" using len by simp
  from walk_offsets [OF this off] n
  have "sz_add offset kRecordHeaderWireSize = offset + 18" "sz_add (offset + 18) (unat (rt_wire_size topic)) = offset + 18 + n"
    by simp_all
  with h n len(1) ck(1,2) call have "walk_loop base end by_id cb wt offset tln played ck s
      = walk_loop base end by_id cb wt (offset + 18 + n) tln' (played + 1) ck2 (app e s)"
    by (subst walk_loop.simps) (auto simp: Let_def split: if_splits)
  with that n(2) rest ck(3,4) show thesis by (simp add: entry_stamp_def e)
qed

lemma walk_refines:
  assumes len: "length base < 2 ^ 63" and cb: "cb_sound base by_id cb app"
    and "offset \<le> length base" and "wakes ck"
    and "parse_records by_id offset (drop offset base) = (es, why)"
  shows "\<exists>ck'. walk_loop base (length base) by_id cb wt offset tln played ck s
      = Some (why, played + word_of_nat (length es), ck', fold app es s)
    \<and> ck_deadlines ck' = ck_deadlines ck
        @ (if wt then schedule (anchored tln (fst (MonotonicNowNs ck)) es) es else [])"
  using assms(3-5)
proof (induction es arbitrary: offset tln played ck s)
  case Nil
  show ?case
    using walk_stops [OF len Nil.prems(1,3), of cb wt tln played ck s] by (intro exI [of _ ck]) (simp add: schedule_def)
next
  case (Cons e es)
  let ?tln = "if wt then anchored tln (fst (MonotonicNowNs ck)) (e # es) else tln"
  obtain offset' ck2 where step: "walk_loop base (length base) by_id cb wt offset tln played ck s
      = walk_loop base (length base) by_id cb wt offset' ?tln (played + 1) ck2 (app e s)"
    "offset' \<le> length base" "parse_records by_id offset' (drop offset' base) = (es, why)" "wakes ck2"
    "ck_deadlines ck2 = ck_deadlines ck @ (if wt then [timespec_of (target_ns ?tln (entry_stamp e))] else [])"
    using walk_record [OF order_refl len cb Cons.prems refl, of wt tln played s] by blast
  from Cons.IH [OF step(2,4,3), of ?tln "played + 1" "app e s"] step(1,5) show ?case
    by (auto simp: schedule_def anchored_again algebra_simps)
qed

text \<open>With \<open>end\<close> a header or more behind the mapping, the loop takes its records and then reads past it.\<close>

lemma walk_overruns:
  assumes len: "length base + kRecordHeaderWireSize \<le> end" "end < 2 ^ 63" and cb: "cb_sound base by_id cb app"
    and "offset \<le> length base" and "wakes ck"
    and "parse_records by_id offset (drop offset base) = (es, EndOfData)"
  shows "\<exists>ck'. walk_loop base end by_id cb wt offset tln played ck s
      = Some (Faulted, played + word_of_nat (length es), ck', fold app es s)"
  using assms(4-6)
proof (induction es arbitrary: offset tln played ck s)
  case Nil
  have small: "length base < 2 ^ 63" using len by simp
  have "RecordHeader_Deserialize base offset RecordHeader_init = None"
  proof (cases "RecordHeader_Deserialize base offset RecordHeader_init")
    case (Some h)
    with Nil.prems(3) header_drop [OF Nil.prems(1)] parse_records.simps [of by_id offset "drop offset base"] show ?thesis
      by (auto simp: Let_def split: option.splits if_splits prod.splits)
  qed simp
  with walk_offsets(1) [OF small Nil.prems(1)] len(1) Nil.prems(1) show ?case
    by (subst walk_loop.simps) (simp add: wire_sizes)
next
  case (Cons e es)
  let ?tln = "if wt then anchored tln (fst (MonotonicNowNs ck)) (e # es) else tln"
  have le: "length base \<le> end" using len(1) by simp
  obtain offset' ck2 where step: "walk_loop base end by_id cb wt offset tln played ck s
      = walk_loop base end by_id cb wt offset' ?tln (played + 1) ck2 (app e s)"
    "offset' \<le> length base" "parse_records by_id offset' (drop offset' base) = (es, EndOfData)" "wakes ck2"
    using walk_record [OF le len(2) cb Cons.prems refl, of wt tln played s] by blast
  from Cons.IH [OF step(2,4,3), of ?tln "played + 1" "app e s"] step(1) show ?case by (auto simp: algebra_simps)
qed

section \<open>Reading back a well-formed record area\<close>

text \<open>Every record belongs to a known topic and has that topic's payload size.\<close>

definition conforms :: "(u16 \<rightharpoonup> ResolvedTopic) \<Rightarrow> entry \<Rightarrow> bool" where
  "conforms by_id e \<longleftrightarrow> (case e of (t, st, sq, pl) \<Rightarrow>
     (case by_id t of None \<Rightarrow> False | Some topic \<Rightarrow> length pl = unat (rt_wire_size topic)))"

lemma parse_record_step:
  assumes "conforms by_id e"
  shows "parse_records by_id offset (record_bytes e @ bs) =
    (let (es, why) = parse_records by_id (offset + length (record_bytes e)) bs in (e # es, why))"
proof -
  obtain t st sq pl where e: "e = (t, st, sq, pl)" by (cases e)
  let ?h = "\<lparr>rh_topic_id = t, rh_stamp_ns = st, rh_seq = sq\<rparr>"
  have rb: "record_bytes e = RecordHeader_layout ?h @ pl"
    by (simp add: record_bytes_def entry_header_def entry_payload_def e)
  have len: "length (RecordHeader_layout ?h) = 18" using rh.layout_length by (simp add: wire_sizes)
  have d: "RecordHeader_Deserialize (record_bytes e @ bs) 0 RecordHeader_init = Some ?h"
    by (rule rh.deser_layout) (simp_all add: rb located_def)
  obtain topic where topic: "by_id t = Some topic" "length pl = unat (rt_wire_size topic)"
    using assms by (auto simp: conforms_def e split: option.splits)
  let ?n = "unat (rt_wire_size topic)"
  have bs: "length (record_bytes e) = 18 + ?n" "take ?n (drop 18 (record_bytes e @ bs)) = pl"
    "drop (18 + ?n) (record_bytes e @ bs) = bs"
    by (simp_all add: rb len topic(2) [symmetric])
  have "\<not> length (record_bytes e @ bs) < 18 + ?n" by (simp add: bs(1))
  then show ?thesis
    by (simp add: parse_records.simps [of by_id offset] d topic(1) wire_sizes bs e [symmetric] Let_def
        del: length_append drop_append take_append)
qed

lemma parse_records_roundtrip:
  assumes "list_all (conforms by_id) es" and "length rest < kRecordHeaderWireSize"
  shows "parse_records by_id offset (records_bytes es @ rest) = (es, EndOfData)"
  using assms(1)
proof (induction es arbitrary: offset)
  case Nil
  have "RecordHeader_Deserialize rest 0 RecordHeader_init = None"
    using assms(2) by (simp add: rh.deser_None_iff)
  then show ?case by (simp add: parse_records.simps)
next
  case (Cons e es)
  then show ?case by (simp add: parse_record_step)
qed

lemma parse_records_append:
  assumes "list_all (conforms by_id) es"
  shows "fst (parse_records by_id offset (records_bytes es @ rest))
    = es @ fst (parse_records by_id (offset + length (records_bytes es)) rest)"
  using assms
proof (induction es arbitrary: offset)
  case (Cons e es)
  then show ?case by (simp add: parse_record_step case_prod_beta Let_def ac_simps)
qed simp

text \<open>A file cut off at any byte, as a crash leaves it, yields the complete records before the cut.\<close>

lemma parse_records_cut:
  assumes "list_all (conforms by_id) es"
  shows "\<exists>k \<le> length es. fst (parse_records by_id offset (take n (records_bytes es))) = take k es
    \<and> length (records_bytes (take k es)) \<le> n \<and> (k < length es \<longrightarrow> n < length (records_bytes (take (Suc k) es)))"
  using assms
proof (induction es arbitrary: offset n)
  case Nil
  have "RecordHeader_Deserialize [] 0 RecordHeader_init = None"
    by (simp add: rh.deser_None_iff wire_sizes)
  then show ?case by (simp add: parse_records.simps)
next
  case (Cons e es)
  obtain t st sq pl where e: "e = (t, st, sq, pl)" by (cases e)
  show ?case
  proof (cases "length (record_bytes e) \<le> n")
    case True
    obtain k where k: "k \<le> length es" "fst (parse_records by_id (offset + length (record_bytes e))
        (take (n - length (record_bytes e)) (records_bytes es))) = take k es"
      "length (records_bytes (take k es)) \<le> n - length (record_bytes e)"
      "k < length es \<longrightarrow> n - length (record_bytes e) < length (records_bytes (take (Suc k) es))"
      using Cons.IH [of "offset + length (record_bytes e)" "n - length (record_bytes e)"] Cons.prems by auto
    then have "fst (parse_records by_id offset (record_bytes e
        @ take (n - length (record_bytes e)) (records_bytes es))) = take (Suc k) (e # es)"
      using Cons.prems by (simp add: parse_record_step case_prod_beta Let_def)
    with True k(1,3,4) show ?thesis by (intro exI [of _ "Suc k"]) auto
  next
    case False
    let ?bs = "take n (record_bytes e)"
    let ?h = "\<lparr>rh_topic_id = t, rh_stamp_ns = st, rh_seq = sq\<rparr>"
    have len: "length ?bs < kRecordHeaderWireSize + length pl"
      using False by (simp add: length_record_bytes entry_payload_def e)
    have "fst (parse_records by_id offset ?bs) = []"
    proof (cases "RecordHeader_Deserialize ?bs 0 RecordHeader_init")
      case None
      then show ?thesis by (simp add: parse_records.simps)
    next
      case (Some h)
      then have "located ?bs 0 (RecordHeader_layout h)" by (rule rh.deser_sound) simp
      then have n: "18 \<le> n" and "take 18 ?bs = RecordHeader_layout h"
        using rh.layout_length [of h] by (auto simp: located_def wire_sizes min_def split: if_splits)
      then have "RecordHeader_layout h = RecordHeader_layout ?h"
        using rh.layout_length [of ?h] by (simp add: record_bytes_def entry_header_def e wire_sizes min_def)
      then have "h = ?h" by (intro rh.layout_inj) simp_all
      moreover obtain topic where "by_id t = Some topic" "length pl = unat (rt_wire_size topic)"
        using Cons.prems by (auto simp: conforms_def e split: option.splits)
      ultimately show ?thesis using Some len by (simp add: parse_records.simps [of by_id offset ?bs] Let_def)
    qed
    then show ?thesis using False by (intro exI [of _ 0]) auto
  qed
qed

section \<open>Reading back the header and the metadata table\<close>

definition resolve :: "TopicMetaEntry \<Rightarrow> ResolvedTopic" where
  "resolve m = \<lparr>rt_topic_id = tm_topic_id m, rt_wire_size = tm_struct_size m,
     rt_name = takeWhile (\<lambda>c. c \<noteq> 0) (tm_name m)\<rparr>"

text \<open>The index built from the table: a later entry replaces an earlier one with the same id.\<close>

definition index_topics :: "ResolvedTopic list \<Rightarrow> (u16 \<rightharpoonup> ResolvedTopic) \<Rightarrow> (u16 \<rightharpoonup> ResolvedTopic)" where
  "index_topics ts m = fold (\<lambda>t m. m(rt_topic_id t \<mapsto> t)) ts m"

lemma index_topics_distinct:
  assumes "distinct (map rt_topic_id ts)" and "t \<in> set ts"
  shows "index_topics ts m (rt_topic_id t) = Some t"
proof -
  have other: "index_topics us m' i = m' i" if "i \<notin> set (map rt_topic_id us)" for us m' i
    using that by (induction us arbitrary: m') (auto simp: index_topics_def)
  from assms show ?thesis
  proof (induction ts arbitrary: m)
    case Nil
    then show ?case by simp
  next
    case (Cons u us)
    show ?case
    proof (cases "t = u")
      case True
      with Cons.prems(1) other [of "rt_topic_id u" us "m(rt_topic_id u \<mapsto> u)"] show ?thesis
        by (simp add: index_topics_def)
    next
      case False
      with Cons show ?thesis by (simp add: index_topics_def)
    qed
  qed
qed

lemma padded_c_string: "padded_name nm \<Longrightarrow> c_string nm = Some (takeWhile (\<lambda>c. c \<noteq> 0) nm)"
  by (simp add: padded_name_def c_string_def)

lemma parse_topics_table:
  assumes "\<forall>m \<in> set ms. padded_name (tm_name m)"
    and "located base offset (concat (map TopicMetaEntry_layout ms))"
    and "rr_file_size r = length base" and "length base < 2 ^ 63"
  shows "parse_topics (length ms) offset base r = Some (None,
    r\<lparr>rr_topics := rr_topics r @ map resolve ms, rr_by_id := index_topics (map resolve ms) (rr_by_id r),
      rr_records_start_offset := offset + length ms * kTopicMetaWireSize\<rparr>)"
  using assms
proof (induction ms arbitrary: offset r)
  case Nil
  then show ?case by (simp add: index_topics_def)
next
  case (Cons m ms)
  have loc: "located base offset (TopicMetaEntry_layout m)"
    "located base (offset + kTopicMetaWireSize) (concat (map TopicMetaEntry_layout ms))"
    using Cons.prems(1,2) tm.layout_length by (simp_all add: located_append)
  have len: "length (TopicMetaEntry_layout m) = kTopicMetaWireSize"
    using Cons.prems(1) by (simp add: tm.layout_length)
  with loc(1) have range: "offset + kTopicMetaWireSize \<le> length base" by (simp add: located_def)
  then have off: "sz_add offset kTopicMetaWireSize = offset + kTopicMetaWireSize"
    using Cons.prems(4) by (intro sz_add_exact) simp
  have de: "TopicMetaEntry_Deserialize base offset TopicMetaEntry_init = Some m"
    using Cons.prems(1) loc(1) by (intro tm.deser_layout) simp_all
  let ?r = "r\<lparr>rr_topics := rr_topics r @ [resolve m],
      rr_by_id := (rr_by_id r)(rt_topic_id (resolve m) \<mapsto> resolve m)\<rparr>"
  have "parse_topics (length (m # ms)) offset base r = parse_topics (length ms) (offset + kTopicMetaWireSize) base ?r"
    using Cons.prems(1,3) range by (simp add: off de padded_c_string resolve_def Let_def)
  also have "\<dots> = Some (None, ?r\<lparr>rr_topics := rr_topics ?r @ map resolve ms,
      rr_by_id := index_topics (map resolve ms) (rr_by_id ?r),
      rr_records_start_offset := offset + kTopicMetaWireSize + length ms * kTopicMetaWireSize\<rparr>)"
    using Cons.prems loc(2) by (intro Cons.IH) simp_all
  finally show ?case by (simp add: index_topics_def add.assoc)
qed

section \<open>Opening arbitrary bytes\<close>

text \<open>A file on which no system call fails.\<close>

definition readable :: "bytes \<Rightarrow> FileView" where
  "readable c = \<lparr>fv_open_ok = True, fv_fstat_ok = True, fv_content = c, fv_mmap_ok = True\<rparr>"

lemma readable_simps [simp]:
  "fv_open_ok (readable c)" "fv_fstat_ok (readable c)" "fv_content (readable c) = c" "fv_mmap_ok (readable c)"
  by (simp_all add: readable_def)

text \<open>The state after a successful pass over a metadata table of \<open>n\<close> entries at \<open>offset\<close>.\<close>

definition table_read :: "nat \<Rightarrow> nat \<Rightarrow> bytes \<Rightarrow> RecordReader \<Rightarrow> RecordReader \<Rightarrow> bool" where
  "table_read n offset base r r' \<longleftrightarrow> (\<exists>ts. length ts = n \<and> offset + n * kTopicMetaWireSize \<le> length base \<and>
     r' = r\<lparr>rr_topics := rr_topics r @ ts, rr_by_id := index_topics ts (rr_by_id r),
       rr_records_start_offset := offset + n * kTopicMetaWireSize\<rparr>)"

lemma parse_topics_inv:
  assumes "parse_topics n offset base r = Some (None, r')" and "rr_file_size r = length base"
    and "length base < 2 ^ 63" and "offset \<le> length base"
  shows "table_read n offset base r r'"
  using assms
proof (induction n arbitrary: offset r)
  case 0
  then show ?case by (auto simp: table_read_def index_topics_def)
next
  case (Suc n)
  have off: "sz_add offset kTopicMetaWireSize = offset + kTopicMetaWireSize"
    using Suc.prems(3,4) by (intro sz_add_exact) (simp add: wire_sizes)
  have fit: "offset + kTopicMetaWireSize \<le> length base"
    using Suc.prems(1,2) off by (auto split: if_splits)
  obtain entry nm where de: "TopicMetaEntry_Deserialize base offset TopicMetaEntry_init = Some entry"
    "c_string (tm_name entry) = Some nm"
    using Suc.prems(1,2) fit off by (auto simp: bind_eq_Some_conv)
  let ?t = "\<lparr>rt_topic_id = tm_topic_id entry, rt_wire_size = tm_struct_size entry, rt_name = nm\<rparr>"
  have rest: "parse_topics n (offset + kTopicMetaWireSize) base
      (r\<lparr>rr_topics := rr_topics r @ [?t], rr_by_id := (rr_by_id r)(tm_topic_id entry \<mapsto> ?t)\<rparr>) = Some (None, r')"
    using Suc.prems(1,2) fit off de by (simp add: Let_def)
  from Suc.IH [OF rest _ Suc.prems(3) fit] Suc.prems(2) obtain ts where
    "length ts = n" "offset + kTopicMetaWireSize + n * kTopicMetaWireSize \<le> length base"
    "r' = r\<lparr>rr_topics := rr_topics r @ ?t # ts, rr_by_id := index_topics (?t # ts) (rr_by_id r),
       rr_records_start_offset := offset + kTopicMetaWireSize + n * kTopicMetaWireSize\<rparr>"
    by (auto simp: table_read_def index_topics_def)
  then show ?case by (auto simp: table_read_def ac_simps intro!: exI [of _ "?t # ts"])
qed

text \<open>Every name array of the table that lies inside the file is terminated.\<close>

definition names_terminated :: "nat \<Rightarrow> nat \<Rightarrow> bytes \<Rightarrow> bool" where
  "names_terminated n offset base \<longleftrightarrow> (\<forall>i < n. offset + i * kTopicMetaWireSize + kTopicMetaWireSize \<le> length base
     \<longrightarrow> 0 \<in> set (take 32 (drop (offset + i * kTopicMetaWireSize + 6) base)))"

lemma meta_name_bytes:
  assumes "TopicMetaEntry_Deserialize base offset TopicMetaEntry_init = Some m"
  shows "tm_name m = take 32 (drop (offset + 6) base)"
  using assms by (auto simp: TopicMetaEntry_Deserialize_def bind_eq_Some_conv mem_read_def mem_write_def
      patch_whole TopicMetaEntry_init_def split: if_splits)

lemma names_terminated_Suc:
  "names_terminated (Suc n) offset base \<Longrightarrow> names_terminated n (offset + kTopicMetaWireSize) base"
  unfolding names_terminated_def
proof (intro allI impI)
  fix i
  assume all: "\<forall>i < Suc n. offset + i * kTopicMetaWireSize + kTopicMetaWireSize \<le> length base
     \<longrightarrow> 0 \<in> set (take 32 (drop (offset + i * kTopicMetaWireSize + 6) base))"
    and "i < n" "offset + kTopicMetaWireSize + i * kTopicMetaWireSize + kTopicMetaWireSize \<le> length base"
  with spec [OF all, of "Suc i"]
  show "0 \<in> set (take 32 (drop (offset + kTopicMetaWireSize + i * kTopicMetaWireSize + 6) base))"
    by (simp add: add.assoc)
qed

lemma parse_topics_total:
  assumes "names_terminated n offset base" and "rr_file_size r = length base"
    and "length base < 2 ^ 63" and "offset \<le> length base"
  shows "\<exists>err r'. parse_topics n offset base r = Some (err, r')"
  using assms
proof (induction n arbitrary: offset r)
  case 0
  then show ?case by simp
next
  case (Suc n)
  have off: "sz_add offset kTopicMetaWireSize = offset + kTopicMetaWireSize"
    using Suc.prems(3,4) by (intro sz_add_exact) (simp add: wire_sizes)
  show ?case
  proof (cases "length base < offset + kTopicMetaWireSize")
    case True
    with Suc.prems(2) show ?thesis by (simp add: off)
  next
    case False
    then obtain m where m: "TopicMetaEntry_Deserialize base offset TopicMetaEntry_init = Some m"
      using tm.deser_total [of offset base] by auto
    have "0 \<in> set (tm_name m)"
      using Suc.prems(1) False meta_name_bytes [OF m] by (auto simp: names_terminated_def dest: spec [of _ 0])
    then obtain nm where nm: "c_string (tm_name m) = Some nm" by (simp add: c_string_def)
    have rest: "\<exists>err r'. parse_topics n (offset + kTopicMetaWireSize) base q = Some (err, r')"
      if "rr_file_size q = length base" for q
      using Suc.IH [OF names_terminated_Suc [OF Suc.prems(1)] that Suc.prems(3)] False by simp
    from False Suc.prems(2) show ?thesis by (simp add: off m nm Let_def rest)
  qed
qed

text \<open>An unterminated name is read past its array.\<close>

lemma parse_topics_overrun:
  assumes "rr_file_size r = length base" and "length base < 2 ^ 63" and "offset + kTopicMetaWireSize \<le> length base"
    and "0 \<notin> set (take 32 (drop (offset + 6) base))"
  shows "parse_topics (Suc n) offset base r = None"
proof -
  have off: "sz_add offset kTopicMetaWireSize = offset + kTopicMetaWireSize"
    using assms(2,3) by (intro sz_add_exact) simp
  obtain m where m: "TopicMetaEntry_Deserialize base offset TopicMetaEntry_init = Some m"
    using tm.deser_total [OF assms(3)] by auto
  with meta_name_bytes [OF m] assms(4) have "c_string (tm_name m) = None" by (simp add: c_string_def)
  with m assms(1,3) show ?thesis by (simp add: off)
qed

lemma parse_records_no_fault: "snd (parse_records by_id offset bs) \<noteq> Faulted"
proof (induction by_id offset bs rule: parse_records.induct)
  case (1 by_id offset bs)
  show ?case
  proof (cases "RecordHeader_Deserialize bs 0 RecordHeader_init")
    case None
    then show ?thesis by (simp add: parse_records.simps)
  next
    case (Some h)
    then show ?thesis
    proof (cases "by_id (rh_topic_id h)")
      case None
      with Some show ?thesis by (simp add: parse_records.simps)
    next
      case topic: (Some topic)
      let ?n = "kRecordHeaderWireSize + unat (rt_wire_size topic)"
      show ?thesis
      proof (cases "length bs < ?n")
        case True
        with Some topic show ?thesis by (simp add: parse_records.simps)
      next
        case False
        with 1 [OF Some topic refl] have "snd (parse_records by_id (offset + ?n) (drop ?n bs)) \<noteq> Faulted" .
        with Some topic False show ?thesis
          by (subst parse_records.simps) (simp add: case_prod_unfold Let_def)
      qed
    qed
  qed
qed

text \<open>A table that is cut short is reported as such.\<close>

lemma parse_topics_cut:
  assumes "\<forall>m \<in> set ms. padded_name (tm_name m)" and "k < length ms"
    and "located base offset (concat (map TopicMetaEntry_layout (take k ms)))"
    and "length base < offset + Suc k * kTopicMetaWireSize"
    and "rr_file_size r = length base" and "length base < 2 ^ 63"
  shows "\<exists>r'. parse_topics (length ms) offset base r = Some (Some TruncatedMetadata, r')"
  using assms
proof (induction ms arbitrary: k offset r)
  case Nil
  then show ?case by simp
next
  case (Cons m ms)
  show ?case
  proof (cases k)
    case 0
    have "offset \<le> length base" using Cons.prems(3) 0 by (simp add: located_def)
    then have "sz_add offset kTopicMetaWireSize = offset + kTopicMetaWireSize"
      using Cons.prems(6) by (intro sz_add_exact) (simp add: wire_sizes)
    with 0 Cons.prems(4,5) show ?thesis by simp
  next
    case (Suc j)
    have len: "length (TopicMetaEntry_layout m) = kTopicMetaWireSize"
      using Cons.prems(1) by (simp add: tm.layout_length)
    have loc: "located base offset (TopicMetaEntry_layout m)"
      "located base (offset + kTopicMetaWireSize) (concat (map TopicMetaEntry_layout (take j ms)))"
      using Cons.prems(3) len by (simp_all add: Suc located_append)
    have range: "offset + kTopicMetaWireSize \<le> length base" using loc(1) len by (simp add: located_def)
    then have off: "sz_add offset kTopicMetaWireSize = offset + kTopicMetaWireSize"
      using Cons.prems(6) by (intro sz_add_exact) simp
    have de: "TopicMetaEntry_Deserialize base offset TopicMetaEntry_init = Some m"
      using Cons.prems(1) loc(1) by (intro tm.deser_layout) simp_all
    have "length base < offset + kTopicMetaWireSize + Suc j * kTopicMetaWireSize" using Cons.prems(4) Suc by simp
    from Cons.IH [OF _ _ loc(2) this _ Cons.prems(6)] Cons.prems Suc
    have rest: "\<exists>r'. parse_topics (length ms) (offset + kTopicMetaWireSize) base q = Some (Some TruncatedMetadata, r')"
      if "rr_file_size q = length base" for q using that by simp
    from Cons.prems(1,5) range show ?thesis
      by (simp add: off de padded_c_string Let_def rest)
  qed
qed

lemma FileHeader_total:
  assumes "kFileHeaderWireSize \<le> length c"
  shows "\<exists>ok h. FileHeader_Deserialize c 0 FileHeader_init = Some (ok, h)"
proof -
  obtain v n t where "decode_u32 c 8 = Some v" "decode_u32 c 12 = Some n" "decode_u64 c 16 = Some t"
    using decode_u32_total [of 8 c] decode_u32_total [of 12 c] decode_u64_total [of 16 c] assms
    by (auto simp: wire_sizes)
  with assms show ?thesis
    by (cases "take 8 c = kMagic") (auto simp: FileHeader_Deserialize_def mem_read_def wire_sizes)
qed

lemma parse_header_total:
  assumes "\<forall>n. names_terminated n kFileHeaderWireSize c" and "length c < 2 ^ 63"
    and "rr_base r = Some c" and "rr_file_size r = length c"
  shows "\<exists>err r'. ParseHeaderAndMetadata r = Some (err, r') \<and> (err = None \<longrightarrow> (\<exists>n. table_read n kFileHeaderWireSize c r r'))"
proof (cases "length c < kFileHeaderWireSize")
  case True
  then show ?thesis using assms(4) by (simp add: ParseHeaderAndMetadata_def)
next
  case False
  then obtain ok h where h: "FileHeader_Deserialize c 0 FileHeader_init = Some (ok, h)"
    using FileHeader_total [of c] by auto
  let ?n = "unat (fh_topic_count h)"
  obtain err r' where p: "parse_topics ?n kFileHeaderWireSize c r = Some (err, r')"
    using parse_topics_total [of ?n kFileHeaderWireSize c r] assms False by auto
  have "table_read ?n kFileHeaderWireSize c r r'" if "err = None"
    using parse_topics_inv [of ?n kFileHeaderWireSize c r r'] p that assms(2,4) False by simp
  with h p False assms(3,4) show ?thesis by (auto simp: ParseHeaderAndMetadata_def)
qed

section \<open>Pacing\<close>

definition timespec_ns :: "u64 \<times> u64 \<Rightarrow> nat" where
  "timespec_ns ts = unat (fst ts) * 1000000000 + unat (snd ts)"

lemma timespec_ns_of: "timespec_ns (timespec_of t) = unat t" "unat (snd (timespec_of t)) < 1000000000"
proof -
  have "unat (t div 1000000000) = unat t div 1000000000" "unat (t mod 1000000000) = unat t mod 1000000000"
    by (simp_all add: unat_div unat_mod)
  then show "timespec_ns (timespec_of t) = unat t" "unat (snd (timespec_of t)) < 1000000000"
    by (simp_all add: timespec_ns_def timespec_of_def)
qed

lemma unat_target_ns:
  assumes "unat (tl_start_ns tln) + (unat stamp - unat (tl_t0_ns tln)) < 2 ^ 64"
  shows "unat (target_ns tln stamp) = unat (tl_start_ns tln) + (unat stamp - unat (tl_t0_ns tln))"
proof (cases "tl_t0_ns tln \<le> stamp")
  case True
  then have "unat (stamp - tl_t0_ns tln) = unat stamp - unat (tl_t0_ns tln)" by (rule unat_sub)
  with True assms show ?thesis by (simp add: target_ns_def unat_word_ariths)
next
  case False
  then have "unat stamp < unat (tl_t0_ns tln)" by (simp add: word_le_nat_alt)
  with False show ?thesis by (simp add: target_ns_def)
qed

text \<open>\<open>Open\<close> on arbitrary contents: it returns, and what it says about files that are not recordings.\<close>

lemma Open_returns:
  assumes "\<forall>n. names_terminated n kFileHeaderWireSize (fv_content fv)" and "length (fv_content fv) < 2 ^ 63"
  shows "\<exists>err r' s'. RecordReader_Open fv on_topic r s = Some (err, r', s') \<and>
    (err = None \<longrightarrow> rr_base r' = Some (fv_content fv) \<and> rr_file_size r' = length (fv_content fv)
       \<and> rr_records_start_offset r' \<le> length (fv_content fv))"
proof -
  let ?c = "fv_content fv"
  let ?r = "r\<lparr>rr_file_size := length ?c, rr_base := Some ?c\<rparr>"
  obtain err r' where e: "ParseHeaderAndMetadata ?r = Some (err, r')"
    "err = None \<longrightarrow> (\<exists>n. table_read n kFileHeaderWireSize ?c ?r r')"
    using parse_header_total [of ?c ?r] assms by auto
  show ?thesis
  proof (cases "fv_open_ok fv \<and> fv_fstat_ok fv \<and> fv_mmap_ok fv \<and> ?c \<noteq> []")
    case True
    have "err = None \<longrightarrow> rr_base r' = Some ?c \<and> rr_file_size r' = length ?c \<and> rr_records_start_offset r' \<le> length ?c"
      using e(2) by (auto simp: table_read_def)
    with True e(1) show ?thesis
      by (cases on_topic) (auto simp: RecordReader_Open_def Let_def split: prod.splits)
  next
    case False
    then show ?thesis by (auto simp: RecordReader_Open_def Let_def)
  qed
qed

lemma Open_diagnosis:
  assumes "fv_open_ok fv" and "fv_fstat_ok fv" and "fv_mmap_ok fv" and "fv_content fv \<noteq> []"
  shows "(length (fv_content fv) < 32 \<longrightarrow> (\<exists>r'. RecordReader_Open fv on_topic r s = Some (Some FileTooSmall, r', s)))
   \<and> (32 \<le> length (fv_content fv) \<and> take 8 (fv_content fv) \<noteq> kMagic \<longrightarrow>
        (\<exists>r'. RecordReader_Open fv on_topic r s = Some (Some BadMagic, r', s)))
   \<and> (\<forall>h. located (fv_content fv) 0 (FileHeader_layout h) \<and> fh_version h \<noteq> 1 \<longrightarrow>
        (\<exists>r'. RecordReader_Open fv on_topic r s = Some (Some (UnsupportedVersion (fh_version h)), r', s)))"
proof (intro conjI impI allI)
  let ?c = "fv_content fv"
  show "\<exists>r'. RecordReader_Open fv on_topic r s = Some (Some FileTooSmall, r', s)" if "length ?c < 32"
    using assms that by (simp add: RecordReader_Open_def ParseHeaderAndMetadata_def wire_sizes)
  show "\<exists>r'. RecordReader_Open fv on_topic r s = Some (Some BadMagic, r', s)" if "32 \<le> length ?c \<and> take 8 ?c \<noteq> kMagic"
  proof -
    have "FileHeader_Deserialize ?c 0 FileHeader_init = Some (False, FileHeader_init)"
      using that by (simp add: FileHeader_Deserialize_def mem_read_def)
    with assms that show ?thesis by (simp add: RecordReader_Open_def ParseHeaderAndMetadata_def wire_sizes)
  qed
  fix h assume h: "located ?c 0 (FileHeader_layout h) \<and> fh_version h \<noteq> 1"
  then have len: "32 \<le> length ?c" using fh.layout_length [of h] by (simp add: located_def wire_sizes)
  have "FileHeader_accept ?c 0 = Some h" using h by (intro fh.deser_layout [OF TrueI]) simp
  then have "FileHeader_Deserialize ?c 0 FileHeader_init = Some (True, h)"
    by (auto simp: FileHeader_accept_def split: option.splits bool.splits)
  with assms len h show "\<exists>r'. RecordReader_Open fv on_topic r s = Some (Some (UnsupportedVersion (fh_version h)), r', s)"
    by (simp add: RecordReader_Open_def ParseHeaderAndMetadata_def wire_sizes kFormatVersion_def)
qed

section \<open>Properties\<close>

text \<open>C3: Replay delivers exactly what the record grammar yields. For any mapped bytes, any topic index and
  any callback that stays inside the records it is given, \<open>Run\<close> returns; it has called the
  callback once for every record of the reference parse, in file order, stopped for the reason the
  parse gives, and slept once per record, until the deadline that the record's stamp has
  relative to the first one.\<close>

theorem Run_delivers:
  assumes "rr_base r = Some base" and "rr_file_size r = length base" and "length base < 2 ^ 63"
    and "rr_records_start_offset r \<le> length base" and "cb_sound base (rr_by_id r) cb app" and "wakes ck"
    and "parse_records (rr_by_id r) (rr_records_start_offset r) (drop (rr_records_start_offset r) base) = (es, why)"
  shows "\<exists>ck'. RecordReader_Run cb r ck s = Some (why, word_of_nat (length es), ck', fold app es s)
    \<and> ck_deadlines ck' = ck_deadlines ck @ schedule (anchored Timeline_init (fst (MonotonicNowNs ck)) es) es"
  using walk_refines [OF assms(3,5,4,6,7), of True Timeline_init 0 s] assms(1,2)
  by (simp add: RecordReader_Run_def run_loop_walk_loop)

text \<open>A clock that is interrupted once per sleep, for the concrete instances below.\<close>

definition jumpy_clock :: Clock where
  "jumpy_clock = \<lparr>ck_time = (\<lambda>i. (5, 7)), ck_reads = 0, ck_nanosleep = (\<lambda>i. if even i then 4 else 0), ck_sleeps = 0,
     ck_deadlines = []\<rparr>"

lemma jumpy_clock_wakes: "wakes jumpy_clock"
proof -
  have "\<exists>j \<ge> i. odd j" for i :: nat by (cases "even i") (auto intro: exI [of _ "Suc i"])
  then show ?thesis by (auto simp: wakes_def jumpy_clock_def EINTR_def)
qed

definition one_topic :: "u16 \<rightharpoonup> ResolvedTopic" where
  "one_topic = [4 \<mapsto> \<lparr>rt_topic_id = 4, rt_wire_size = 1, rt_name = []\<rparr>]"

lemma one_topic_conforms: "list_all (conforms one_topic) [(4, 10, 0, [7]), (4, 12, 1, [8])]"
  by (simp add: conforms_def one_topic_def)

lemma first_byte_sound:
  "cb_sound b one_topic (\<lambda>t st sq (b, p) len s. Some (s @ [b ! p])) (\<lambda>(t, st, sq, pl) s. s @ [hd pl])"
  by (auto simp: cb_sound_def one_topic_def hd_drop_conv_nth hd_take split: if_splits)

theorem Run_delivers_witness:
  "\<exists>ck'. RecordReader_Run (\<lambda>t st sq (b, p) len s. Some (s @ [b ! p]))
      \<lparr>rr_base = Some (records_bytes [(4, 10, 0, [7]), (4, 12, 1, [8])]), rr_file_size = 38, rr_records_start_offset = 0,
       rr_topics = [], rr_by_id = one_topic\<rparr> jumpy_clock []
    = Some (EndOfData, 2, ck', [7, 8]) \<and> ck_deadlines ck' = [(5, 7), (5, 9)]"
proof -
  let ?es = "[(4, 10, 0, [7]), (4, 12, 1, [8])] :: entry list"
  let ?b = "records_bytes ?es"
  let ?cb = "\<lambda>t st sq (b, p) len s. Some (s @ [b ! p])" and ?app = "\<lambda>(t, st, sq, pl) s. s @ [hd pl]"
  let ?r = "\<lparr>rr_base = Some ?b, rr_file_size = 38, rr_records_start_offset = 0, rr_topics = [], rr_by_id = one_topic\<rparr>"
  have len: "length ?b = 38" by (simp add: length_record_bytes entry_payload_def wire_sizes)
  have "parse_records one_topic 0 ?b = (?es, EndOfData)"
    using parse_records_roundtrip [OF one_topic_conforms, of "[]" 0] by (simp add: wire_sizes)
  then have "\<exists>ck'. RecordReader_Run ?cb ?r jumpy_clock [] = Some (EndOfData, word_of_nat (length ?es), ck', fold ?app ?es [])
    \<and> ck_deadlines ck' = ck_deadlines jumpy_clock
        @ schedule (anchored Timeline_init (fst (MonotonicNowNs jumpy_clock)) ?es) ?es"
    using Run_delivers [of ?r ?b ?cb ?app jumpy_clock ?es EndOfData "[]"] jumpy_clock_wakes len first_byte_sound [of ?b]
    by (simp del: list.map concat.simps)
  then show ?thesis
    by (simp add: schedule_def anchored_def Timeline_init_def entry_stamp_def timespec_of_def target_ns_def
        MonotonicNowNs_def jumpy_clock_def)
qed

text \<open>C38: \<open>Run\<close> and the more general \<open>Walk\<close> with pacing switched on are the same function, for every
  reader state (well-formed or not), callback, clock and application state; neither returns when
  the other does not.\<close>

theorem Run_is_Walk: "RecordReader_Run cb r ck s = RecordReader_Walk cb True r ck s"
  by (simp add: RecordReader_Run_def RecordReader_Walk_def run_loop_walk_loop)

text \<open>C27: Pacing does not drift and does not underflow. The deadline of a record is the start of the replay plus
  the distance of its stamp from the first record's stamp, exactly, as long as that sum fits 64
  bits; a stamp before the first one is due at once; the nanosecond part is always below \<open>10^9\<close>. The
  sleep that waits for it, interrupted by signals finitely often, returns with exactly this deadline: the retries
  do not shift it.\<close>

theorem pacing_exact:
  assumes "tln = anchored Timeline_init now (e0 # es)" and "e \<in> set (e0 # es)"
    and "unat now + (unat (entry_stamp e) - unat (entry_stamp e0)) < 2 ^ 64" and "wakes ck"
  shows "\<exists>ck' ts. SleepUntilAbsoluteNs (target_ns tln (entry_stamp e)) ck = Some ck' \<and> ck_deadlines ck' = ck_deadlines ck @ [ts]
    \<and> ck_time ck' = ck_time ck \<and> ck_reads ck' = ck_reads ck
    \<and> timespec_ns ts = unat now + (unat (entry_stamp e) - unat (entry_stamp e0)) \<and> unat (snd ts) < 1000000000"
proof -
  let ?ts = "timespec_of (target_ns tln (entry_stamp e))"
  have "timespec_ns ?ts = unat now + (unat (entry_stamp e) - unat (entry_stamp e0)) \<and> unat (snd ?ts) < 1000000000"
    using unat_target_ns [of tln "entry_stamp e"] assms(1-3) timespec_ns_of by (simp add: anchored_def Timeline_init_def)
  moreover obtain c where "SleepUntilAbsoluteNs (target_ns tln (entry_stamp e)) ck
      = Some (ck\<lparr>ck_sleeps := c, ck_deadlines := ck_deadlines ck @ [?ts]\<rparr>)"
    using Sleep_returns [OF assms(4), of "target_ns tln (entry_stamp e)"] by (auto simp: slept_def)
  ultimately show ?thesis by (intro exI [of _ "ck\<lparr>ck_sleeps := c, ck_deadlines := ck_deadlines ck @ [?ts]\<rparr>"] exI [of _ ?ts]) simp
qed

theorem pacing_exact_witness:
  "\<exists>ck' ts. SleepUntilAbsoluteNs (target_ns (anchored Timeline_init 5000000007 [(4, 10, 0, []), (4, 3000000012, 1, [])]) 3000000012) jumpy_clock
     = Some ck' \<and> ck_deadlines ck' = [ts] \<and> timespec_ns ts = 8000000009"
proof -
  let ?first = "(4, 10, 0, []) :: entry" and ?e = "(4, 3000000012, 1, []) :: entry"
  have "?e \<in> set (?first # [?e])" "unat (5000000007 :: u64) + (unat (entry_stamp ?e) - unat (entry_stamp ?first)) < 2 ^ 64"
    by (simp_all add: entry_stamp_def)
  from pacing_exact [of _ 5000000007 ?first "[?e]" ?e, OF refl this jumpy_clock_wakes] show ?thesis by (auto simp: entry_stamp_def jumpy_clock_def)
qed

text \<open>C28: \<open>Open\<close> on arbitrary file contents. When every name array of the table that lies in the file holds a
  terminator, \<open>Open\<close> stays inside the mapping and returns; and if it succeeds, the record area
  starts inside the file, right behind the table. Files that are not recordings are refused with the right diagnosis, and the
  topic hook is not asked: fewer than 32 bytes, other magic bytes, another format version.\<close>

theorem Open_total:
  assumes "\<forall>n. names_terminated n kFileHeaderWireSize (fv_content fv)" and "length (fv_content fv) < 2 ^ 63"
  shows "\<exists>err r' s'. RecordReader_Open fv on_topic r s = Some (err, r', s') \<and>
    (err = None \<longrightarrow> rr_base r' = Some (fv_content fv) \<and> rr_file_size r' = length (fv_content fv)
       \<and> rr_records_start_offset r' \<le> length (fv_content fv)) \<and>
    (fv_open_ok fv \<and> fv_fstat_ok fv \<and> fv_mmap_ok fv \<and> fv_content fv \<noteq> [] \<longrightarrow>
       (length (fv_content fv) < 32 \<longrightarrow> err = Some FileTooSmall \<and> s' = s)
       \<and> (32 \<le> length (fv_content fv) \<and> take 8 (fv_content fv) \<noteq> kMagic \<longrightarrow> err = Some BadMagic \<and> s' = s)
       \<and> (\<forall>h. located (fv_content fv) 0 (FileHeader_layout h) \<and> fh_version h \<noteq> 1 \<longrightarrow>
            err = Some (UnsupportedVersion (fh_version h)) \<and> s' = s))"
proof -
  obtain err r' s' where o: "RecordReader_Open fv on_topic r s = Some (err, r', s')"
    and n: "err = None \<longrightarrow> rr_base r' = Some (fv_content fv) \<and> rr_file_size r' = length (fv_content fv)
      \<and> rr_records_start_offset r' \<le> length (fv_content fv)"
    using Open_returns [OF assms, of on_topic r s] by (elim exE conjE)
  have "(length (fv_content fv) < 32 \<longrightarrow> err = Some FileTooSmall \<and> s' = s)
      \<and> (32 \<le> length (fv_content fv) \<and> take 8 (fv_content fv) \<noteq> kMagic \<longrightarrow> err = Some BadMagic \<and> s' = s)
      \<and> (\<forall>h. located (fv_content fv) 0 (FileHeader_layout h) \<and> fh_version h \<noteq> 1 \<longrightarrow>
           err = Some (UnsupportedVersion (fh_version h)) \<and> s' = s)"
    if "fv_open_ok fv" "fv_fstat_ok fv" "fv_mmap_ok fv" "fv_content fv \<noteq> []"
    using Open_diagnosis [OF that, of on_topic r s] unfolding o by simp
  with o n show ?thesis by (intro exI [of _ err] exI [of _ r'] exI [of _ s'] conjI impI; blast)
qed

theorem Open_total_witness:
  "\<exists>r'. RecordReader_Open (readable (replicate 31 0)) None RecordReader_init () = Some (Some FileTooSmall, r', ())"
proof -
  have "\<forall>n. names_terminated n kFileHeaderWireSize (fv_content (readable (replicate 31 0)))" by (simp add: names_terminated_def wire_sizes)
  from Open_total [OF this, of None RecordReader_init "()"] show ?thesis by auto
qed

text \<open>C40: A well-formed header followed by a metadata entry whose 32 name bytes contain no terminator makes
  \<open>Open\<close> read past the end of the name array.\<close>

theorem Open_overruns_name:
  assumes "fv_open_ok fv" and "fv_fstat_ok fv" and "fv_mmap_ok fv" and "length (fv_content fv) < 2 ^ 63"
    and "located (fv_content fv) 0 (FileHeader_layout h)" and "fh_version h = kFormatVersion"
    and "0 < unat (fh_topic_count h)" and "kFileHeaderWireSize + kTopicMetaWireSize \<le> length (fv_content fv)"
    and "0 \<notin> set (take 32 (drop (kFileHeaderWireSize + 6) (fv_content fv)))"
  shows "RecordReader_Open fv on_topic r s = None"
proof -
  let ?c = "fv_content fv"
  have "FileHeader_accept ?c 0 = Some h" using assms(5) by (rule fh.deser_layout [OF TrueI])
  then have h: "FileHeader_Deserialize ?c 0 FileHeader_init = Some (True, h)"
    by (auto simp: FileHeader_accept_def split: option.splits bool.splits)
  obtain n where n: "unat (fh_topic_count h) = Suc n" using assms(7) by (cases "unat (fh_topic_count h)") auto
  have "parse_topics (Suc n) kFileHeaderWireSize ?c (r\<lparr>rr_file_size := length ?c, rr_base := Some ?c\<rparr>) = None"
    using assms by (intro parse_topics_overrun) simp_all
  with assms h n show ?thesis
    by (auto simp: RecordReader_Open_def ParseHeaderAndMetadata_def Let_def wire_sizes)
qed

theorem Open_overruns_name_witness:
  "RecordReader_Open (readable (FileHeader_layout (FileHeader_init\<lparr>fh_topic_count := 1\<rparr>) @ replicate 38 65))
     None RecordReader_init () = None"
proof -
  let ?h = "FileHeader_init\<lparr>fh_topic_count := 1\<rparr>"
  have "length (FileHeader_layout ?h) = 32" using fh.layout_length [of ?h] by (simp add: wire_sizes)
  then show ?thesis
    by (intro Open_overruns_name [where h = ?h])
      (simp_all add: wire_sizes FileHeader_init_def located_append located_def)
qed

end
