(* ===== verification/Generic_Replayer.thy ===== *)
theory Generic_Replayer
  imports Record_Reader Topic_Registry
begin

text \<open>
  The replayer node of \<open>include/chrono_cap/generic_replayer.hpp\<close>. As in the recorder the parameter
  pack is a list of traits and the tuple of publishers is indexed by position; the runtime's
  \<open>advertise\<close> and \<open>publish\<close> are parameters over a state \<open>'w\<close>. A payload pointer is the mapping with an
  offset, so a decode that leaves the mapping is \<^const>\<open>None\<close>. The node does not look at the length
  it is given; that it stays in bounds all the same follows from \<open>OnTopicFound\<close> having compared
  the sizes.
\<close>

section \<open>Data\<close>

record PublisherOptions =
  po_plane :: EndpointPlane

type_synonym ('p, 'w) advertise_fn = "bytes \<Rightarrow> PublisherOptions \<Rightarrow> 'w \<Rightarrow> 'p option \<times> 'w"

type_synonym ('m, 'p, 'w) publish_fn = "'p \<Rightarrow> 'm \<Rightarrow> u64 \<Rightarrow> 'w \<Rightarrow> 'w"

record 'p GenericReplayerSystem =
  gp_pubs :: "nat \<Rightarrow> 'p"  \<comment> \<open>\<open>std::tuple<i2w::Publisher<Ts>...> pubs_\<close>\<close>

section \<open>Operations\<close>

definition TryAdvertise :: "('p, 'w) advertise_fn \<Rightarrow> ResolvedTopic \<Rightarrow> nat \<times> 'm TopicTraits
    \<Rightarrow> bool \<times> 'p GenericReplayerSystem \<times> 'w \<Rightarrow> bool \<times> 'p GenericReplayerSystem \<times> 'w" where
  "TryAdvertise advertise topic = (\<lambda>(i, T) (found, sys, w).
     if rt_topic_id topic \<noteq> tt_id16 T then (found, sys, w)
     else if unat (rt_wire_size topic) \<noteq> tt_wire_size T then (found, sys, w)
     else let (pub, w) = advertise (tt_topicName T) \<lparr>po_plane = Local\<rparr> w
       in case pub of
            None \<Rightarrow> (found, sys, w)
          | Some pub \<Rightarrow> (True, sys\<lparr>gp_pubs := (gp_pubs sys)(i := pub)\<rparr>, w))"

definition OnTopicFound :: "('p, 'w) advertise_fn \<Rightarrow> 'm TopicTraits list \<Rightarrow> ResolvedTopic
    \<Rightarrow> 'p GenericReplayerSystem \<times> 'w \<Rightarrow> bool \<times> 'p GenericReplayerSystem \<times> 'w" where
  "OnTopicFound advertise Ts topic = (\<lambda>(sys, w).
     fold (TryAdvertise advertise topic) (enumerate 0 Ts) (False, sys, w))"

definition DispatchOne :: "('m, 'p, 'w) publish_fn \<Rightarrow> u16 \<Rightarrow> u64 \<Rightarrow> bytes \<times> nat \<Rightarrow> nat \<times> 'm TopicTraits
    \<Rightarrow> 'p GenericReplayerSystem \<times> 'w \<Rightarrow> ('p GenericReplayerSystem \<times> 'w) option" where
  "DispatchOne publish topic_id stamp_ns payload = (\<lambda>(i, T) (sys, w).
     if topic_id \<noteq> tt_id16 T then Some (sys, w)
     else do {
       v \<leftarrow> tt_DecodePayload T (fst payload) (snd payload) (tt_value_init T);
       Some (sys, publish (gp_pubs sys i) v stamp_ns w) })"

fun dispatch_all :: "('m, 'p, 'w) publish_fn \<Rightarrow> u16 \<Rightarrow> u64 \<Rightarrow> bytes \<times> nat \<Rightarrow> (nat \<times> 'm TopicTraits) list
    \<Rightarrow> 'p GenericReplayerSystem \<times> 'w \<Rightarrow> ('p GenericReplayerSystem \<times> 'w) option" where
  "dispatch_all publish topic_id stamp_ns payload [] s = Some s"
| "dispatch_all publish topic_id stamp_ns payload (T # Ts) s =
     Option.bind (DispatchOne publish topic_id stamp_ns payload T s)
       (dispatch_all publish topic_id stamp_ns payload Ts)"

definition OnRecord :: "('m, 'p, 'w) publish_fn \<Rightarrow> 'm TopicTraits list
    \<Rightarrow> ('p GenericReplayerSystem \<times> 'w) RecordCallback" where
  "OnRecord publish Ts topic_id stamp_ns seq payload len s =
     dispatch_all publish topic_id stamp_ns payload (enumerate 0 Ts) s"

definition GenericReplayer_OnSetup :: "'p GenericReplayerSystem \<Rightarrow> bool \<times> 'p GenericReplayerSystem" where
  "GenericReplayer_OnSetup sys = (True, sys)"

definition GenericReplayer_OnTick :: "'p GenericReplayerSystem \<Rightarrow> bool \<times> 'p GenericReplayerSystem" where
  "GenericReplayer_OnTick sys = (True, sys)"

section \<open>Which topics are accepted\<close>

text \<open>This build knows the topic and agrees on its payload size.\<close>

definition known :: "'m TopicTraits list \<Rightarrow> ResolvedTopic \<Rightarrow> bool" where
  "known Ts topic \<longleftrightarrow> (\<exists>T \<in> set Ts. rt_topic_id topic = tt_id16 T \<and> unat (rt_wire_size topic) = tt_wire_size T)"

lemma advertise_fold_found:
  assumes "fold (TryAdvertise advertise topic) (enumerate n Ts) (found, sys, w) = (found', s')"
    and "found'" and "\<not> found"
  shows "known Ts topic"
  using assms(1,3)
proof (induction Ts arbitrary: n found sys w)
  case Nil
  with assms(2) show ?case by simp
next
  case (Cons T Ts)
  obtain f1 sys1 w1 where one: "TryAdvertise advertise topic (n, T) (found, sys, w) = (f1, sys1, w1)"
    by (metis prod_cases3)
  with Cons.prems(1) have rest: "fold (TryAdvertise advertise topic) (enumerate (Suc n) Ts) (f1, sys1, w1) = (found', s')"
    by simp
  show ?case
  proof (cases f1)
    case True
    with one Cons.prems(2) have "rt_topic_id topic = tt_id16 T \<and> unat (rt_wire_size topic) = tt_wire_size T"
      by (auto simp: TryAdvertise_def split: if_splits)
    then show ?thesis by (auto simp: known_def)
  next
    case False
    with Cons.IH [OF rest] show ?thesis by (auto simp: known_def)
  qed
qed

lemma OnTopicFound_known: "OnTopicFound advertise Ts topic s = (True, s') \<Longrightarrow> known Ts topic"
  using advertise_fold_found [of advertise topic 0 Ts False "fst s" "snd s" True s']
  by (simp add: OnTopicFound_def case_prod_unfold)

lemma run_hook_known:
  "run_hook (OnTopicFound advertise Ts) topics s = (None, s') \<Longrightarrow> \<forall>t \<in> set topics. known Ts t"
proof (induction topics arbitrary: s)
  case Nil
  then show ?case by simp
next
  case (Cons t ts)
  obtain ok s1 where one: "OnTopicFound advertise Ts t s = (ok, s1)" by (metis surj_pair)
  with Cons.prems have "ok" "run_hook (OnTopicFound advertise Ts) ts s1 = (None, s')"
    by (auto split: if_splits)
  with Cons.IH one show ?case by (auto dest: OnTopicFound_known)
qed

section \<open>Dispatch stays inside the record\<close>

text \<open>The effect of a record as a function of its contents alone.\<close>

definition republish :: "('m, 'p, 'w) publish_fn \<Rightarrow> 'm TopicTraits list \<Rightarrow> entry
    \<Rightarrow> 'p GenericReplayerSystem \<times> 'w \<Rightarrow> 'p GenericReplayerSystem \<times> 'w" where
  "republish publish Ts e s = (case e of (t, st, sq, pl) \<Rightarrow>
     (case OnRecord publish Ts t st sq (pl, 0) (word_of_nat (length pl)) s of Some s' \<Rightarrow> s' | None \<Rightarrow> s))"

lemma dispatch_none:
  "t \<notin> set (map tt_id16 Us) \<Longrightarrow> dispatch_all publish t st pl (enumerate n Us) s = Some s"
  by (induction Us arbitrary: n) (auto simp: DispatchOne_def)

lemma dispatch_hit:
  assumes "i < length Us" and "distinct (map tt_id16 Us)"
    and "tt_DecodePayload (Us ! i) (fst pl) (snd pl) (tt_value_init (Us ! i)) = Some v"
  shows "dispatch_all publish (tt_id16 (Us ! i)) st pl (enumerate n Us) (sys, w)
    = Some (sys, publish (gp_pubs sys (n + i)) v st w)"
  using assms
proof (induction Us arbitrary: i n)
  case Nil
  then show ?case by simp
next
  case (Cons U Us)
  show ?case
  proof (cases i)
    case 0
    with Cons.prems show ?thesis by (simp add: DispatchOne_def dispatch_none)
  next
    case (Suc j)
    with Cons.prems(1) have "tt_id16 (Us ! j) \<in> set (map tt_id16 Us)"
      unfolding set_map by (intro imageI nth_mem) simp
    with Cons.prems(2) have "tt_id16 (Us ! j) \<noteq> tt_id16 U" by (metis distinct.simps(2) list.simps(9))
    with Cons.prems Suc Cons.IH [of j "Suc n"] show ?thesis by (simp add: DispatchOne_def)
  qed
qed

context topic_pack
begin

lemma dispatch_local:
  assumes "set (map snd iTs) \<subseteq> set Ts" and "\<And>T. T \<in> set Ts \<Longrightarrow> tt_id16 T = t \<Longrightarrow> tt_wire_size T = n"
    and "p + n \<le> length base"
  shows "\<exists>s'. dispatch_all publish t st (base, p) iTs s = Some s' \<and>
    dispatch_all publish t st (take n (drop p base), 0) iTs s = Some s'"
  using assms(1)
proof (induction iTs arbitrary: s)
  case Nil
  then show ?case by simp
next
  case (Cons iT iTs)
  obtain i T where iT: "iT = (i, T)" by force
  obtain sys w where s: "s = (sys, w)" by force
  show ?case
  proof (cases "t = tt_id16 T")
    case False
    with Cons iT s show ?thesis by (simp add: DispatchOne_def)
  next
    case True
    have T: "T \<in> set Ts" using Cons.prems iT by simp
    with True assms(2) have n: "tt_wire_size T = n" by simp
    note dec = recordable.decode_total [OF each [OF T], of p base]
      recordable.decode_local [OF each [OF T], of p base]
    obtain v where v: "tt_DecodePayload T base p (tt_value_init T) = Some v"
      "tt_DecodePayload T (take n (drop p base)) 0 (tt_value_init T) = Some v"
      using dec assms(3) n by auto
    with Cons iT s True show ?thesis by (simp add: DispatchOne_def)
  qed
qed

lemma OnRecord_sound:
  assumes "\<And>t topic. by_id t = Some topic \<Longrightarrow> known Ts topic \<and> rt_topic_id topic = t"
  shows "cb_sound base by_id (OnRecord publish Ts) (republish publish Ts)"
  unfolding cb_sound_def
proof (intro allI impI)
  fix t st sq p topic s
  assume topic: "by_id t = Some topic" and range: "p + unat (rt_wire_size topic) \<le> length base"
  obtain U where U: "U \<in> set Ts" "t = tt_id16 U" "unat (rt_wire_size topic) = tt_wire_size U"
    using assms [OF topic] by (auto simp: known_def)
  have "tt_wire_size T = unat (rt_wire_size topic)" if "T \<in> set Ts" "tt_id16 T = t" for T
    using same_topic [OF that(1) U(1)] that(2) U(2,3) by simp
  then have "\<exists>s'. dispatch_all publish t st (base, p) (enumerate 0 Ts) s = Some s' \<and>
      dispatch_all publish t st (take (unat (rt_wire_size topic)) (drop p base), 0) (enumerate 0 Ts) s = Some s'"
    by (intro dispatch_local) (simp_all add: range)
  then show "OnRecord publish Ts t st sq (base, p) (rt_wire_size topic) s
      = Some (republish publish Ts (t, st, sq, take (unat (rt_wire_size topic)) (drop p base)) s)"
    by (auto simp: OnRecord_def republish_def)
qed

lemma republish_sample:
  assumes "i < length Ts"
  shows "republish publish Ts (tt_id16 (Ts ! i), st, sq, layout (Ts ! i) v) (sys, w)
    = (sys, publish (gp_pubs sys i) (restored (Ts ! i) v) st w)"
proof -
  have "located (layout (Ts ! i) v) 0 (layout (Ts ! i) v)" by (simp add: located_def)
  from recordable.decode_layout [OF each [OF nth_mem [OF assms]] this]
  have "tt_DecodePayload (Ts ! i) (layout (Ts ! i) v) 0 (tt_value_init (Ts ! i)) = Some (restored (Ts ! i) v)" .
  with dispatch_hit [OF assms distinct_ids, of "(layout (Ts ! i) v, 0)" "restored (Ts ! i) v" publish st 0 sys w]
  show ?thesis by (simp add: republish_def OnRecord_def)
qed

end

section \<open>What OnTopicFound does\<close>

lemma advertise_skip:
  "\<forall>T \<in> set Ts. rt_topic_id topic = tt_id16 T \<longrightarrow> unat (rt_wire_size topic) \<noteq> tt_wire_size T
    \<Longrightarrow> fold (TryAdvertise advertise topic) (enumerate n Ts) st = st"
  by (induction Ts arbitrary: n) (auto simp: TryAdvertise_def split: prod.splits)

lemma advertise_hit:
  assumes "i < length Ts" and "distinct (map tt_id16 Ts)" and "rt_topic_id topic = tt_id16 (Ts ! i)"
  shows "fold (TryAdvertise advertise topic) (enumerate n Ts) st = TryAdvertise advertise topic (n + i, Ts ! i) st"
  using assms
proof (induction Ts arbitrary: i n st)
  case Nil
  then show ?case by simp
next
  case (Cons T Ts)
  show ?case
  proof (cases i)
    case 0
    with Cons.prems have "\<forall>U \<in> set Ts. rt_topic_id topic \<noteq> tt_id16 U" by auto
    with 0 show ?thesis by (simp add: advertise_skip)
  next
    case (Suc j)
    with Cons.prems(1,3) have "rt_topic_id topic \<in> tt_id16 ` set Ts" by simp
    with Cons.prems(2) have "rt_topic_id topic \<noteq> tt_id16 T" by auto
    then have "TryAdvertise advertise topic (n, T) st = st" by (simp add: TryAdvertise_def split: prod.splits)
    with Cons.IH [of j "Suc n" st] Cons.prems Suc show ?thesis by simp
  qed
qed

section \<open>Properties\<close>

text \<open>C35: \<open>OnTopicFound\<close> for a build whose types have distinct ids. For a topic of the file whose id and payload size
  are those of the build's type number \<open>i\<close> it asks the runtime once, for a local publisher under that type's name: if that is granted the
  publisher goes to slot \<open>i\<close> and the topic is accepted, and if it fails the topic is refused and no publisher
  changes. For every other topic, an unknown id or another payload size, it refuses without asking.\<close>

theorem OnTopicFound_decides:
  assumes "distinct (map tt_id16 Ts)"
  shows "(\<forall>i < length Ts. rt_topic_id topic = tt_id16 (Ts ! i) \<and> unat (rt_wire_size topic) = tt_wire_size (Ts ! i) \<longrightarrow>
      OnTopicFound advertise Ts topic (sys, w) =
        (case advertise (tt_topicName (Ts ! i)) \<lparr>po_plane = Local\<rparr> w of
           (None, w') \<Rightarrow> (False, sys, w')
         | (Some pub, w') \<Rightarrow> (True, sys\<lparr>gp_pubs := (gp_pubs sys)(i := pub)\<rparr>, w')))
    \<and> ((\<forall>i < length Ts. rt_topic_id topic = tt_id16 (Ts ! i) \<longrightarrow> unat (rt_wire_size topic) \<noteq> tt_wire_size (Ts ! i)) \<longrightarrow>
      OnTopicFound advertise Ts topic (sys, w) = (False, sys, w))"
proof (intro conjI allI impI)
  fix i
  assume "i < length Ts" "rt_topic_id topic = tt_id16 (Ts ! i) \<and> unat (rt_wire_size topic) = tt_wire_size (Ts ! i)"
  with advertise_hit [OF _ assms, of i topic advertise 0 "(False, sys, w)"]
  show "OnTopicFound advertise Ts topic (sys, w) =
        (case advertise (tt_topicName (Ts ! i)) \<lparr>po_plane = Local\<rparr> w of
           (None, w') \<Rightarrow> (False, sys, w')
         | (Some pub, w') \<Rightarrow> (True, sys\<lparr>gp_pubs := (gp_pubs sys)(i := pub)\<rparr>, w'))"
    by (simp add: OnTopicFound_def TryAdvertise_def split: prod.splits option.splits)
next
  assume "\<forall>i < length Ts. rt_topic_id topic = tt_id16 (Ts ! i) \<longrightarrow> unat (rt_wire_size topic) \<noteq> tt_wire_size (Ts ! i)"
  then have "\<forall>T \<in> set Ts. rt_topic_id topic = tt_id16 T \<longrightarrow> unat (rt_wire_size topic) \<noteq> tt_wire_size T"
    by (metis in_set_conv_nth)
  then show "OnTopicFound advertise Ts topic (sys, w) = (False, sys, w)" by (simp add: OnTopicFound_def advertise_skip)
qed

text \<open>A runtime that grants one publisher, then refuses, and a topic with another payload size.\<close>

theorem OnTopicFound_decides_witness:
  "let once = (\<lambda>_ _ n. (if n = 0 then Some n else None, Suc n));
       joy = (\<lambda>size. \<lparr>rt_topic_id = 4, rt_wire_size = size, rt_name = []\<rparr>);
       sys = \<lparr>gp_pubs = (\<lambda>_. 7 :: nat)\<rparr>
   in OnTopicFound once (AllTopics JoyMsgs_init) (joy 22) (sys, 0) = (True, \<lparr>gp_pubs = (\<lambda>_. 7)(0 := 0)\<rparr>, 1)
     \<and> OnTopicFound once (AllTopics JoyMsgs_init) (joy 22) (sys, 1) = (False, sys, 2)
     \<and> OnTopicFound once (AllTopics JoyMsgs_init) (joy 21) (sys, 0) = (False, sys, 0)"
proof -
  let ?once = "\<lambda>(_ :: bytes) (_ :: PublisherOptions) n. (if n = 0 then Some n else None, Suc n)"
  have "distinct (map tt_id16 (AllTopics JoyMsgs_init))" by (simp add: AllTopics_def)
  from OnTopicFound_decides [OF this, of _ ?once] show ?thesis by (simp add: AllTopics_def)
qed

end
