(* ===== verification/Writer_Reuse.thy ===== *)
theory Writer_Reuse
  imports Record_Writer
begin

text \<open>
  \<open>RecordWriter::Open\<close> on every disk and in every state of the writer: what each failure leaves behind and
  how \<open>Close\<close> clears it, and what a second \<open>Open\<close> does to a session that is being recorded.
\<close>

section \<open>Opening on any disk\<close>

text \<open>A disk that never answers a \<open>write\<close> with zero bytes; it may fail at any call.\<close>

definition no_stall :: "Os \<Rightarrow> bool" where
  "no_stall os \<longleftrightarrow> (\<forall>i \<ge> os_writes os. os_reply os i \<noteq> WOk 0)"

lemma no_stall_appended: "appended os q os' \<Longrightarrow> no_stall os \<Longrightarrow> no_stall os'"
  by (auto simp: appended_def no_stall_def)

text \<open>Writing a byte string in pieces: what is on disk is a prefix, all of it exactly on success.\<close>

definition partly_written :: "Os \<Rightarrow> bytes \<Rightarrow> bool \<Rightarrow> Os \<Rightarrow> bool" where
  "partly_written os p ok os' \<longleftrightarrow> (\<exists>q r. p = q @ r \<and> appended os q os' \<and> (ok \<longleftrightarrow> r = []))"

lemma partly_then:
  assumes "partly_written os p True os1" and "partly_written os1 q ok os2"
  shows "partly_written os (p @ q) ok os2"
proof -
  obtain q1 r where "q = q1 @ r" "appended os1 q1 os2" "ok \<longleftrightarrow> r = []" using assms(2) by (auto simp: partly_written_def)
  moreover have "appended os p os1" using assms(1) by (auto simp: partly_written_def)
  ultimately show ?thesis using appended_trans [of os p os1 q1 os2] unfolding partly_written_def by (metis append.assoc)
qed

lemma partly_failed: "partly_written os p False os1 \<Longrightarrow> partly_written os (p @ q) False os1"
  unfolding partly_written_def by (metis append.assoc append_is_Nil_conv)

lemma partly_no_stall: "partly_written os p ok os' \<Longrightarrow> no_stall os \<Longrightarrow> no_stall os'"
  using no_stall_appended by (auto simp: partly_written_def)

lemma WriteAll_partly:
  assumes "no_stall os"
  shows "\<exists>ok os'. WriteAll fd p os = Some (ok, os') \<and> partly_written os p ok os'"
  using WriteAll_returns [of os fd p] WriteAll_prefix [of fd p os] assms
  unfolding no_stall_def partly_written_def by blast

lemma WriteMetadata_partly:
  assumes "no_stall os"
  shows "\<exists>ok os'. WriteMetadata fd topics os = Some (ok, os')
    \<and> partly_written os (concat (map TopicMetaEntry_layout (map meta_of topics))) ok os'"
  using assms
proof (induction topics arbitrary: os)
  case Nil
  then show ?case by (auto simp: partly_written_def intro: appended_refl)
next
  case (Cons topic topics)
  have ser: "TopicMetaEntry_Serialize (meta_of topic) (replicate kTopicMetaWireSize 0) 0 = Some (TopicMetaEntry_layout (meta_of topic))"
    by (rule tm.ser_exact [OF meta_of_valid]) simp
  obtain ok os1 where w: "WriteAll fd (TopicMetaEntry_layout (meta_of topic)) os = Some (ok, os1)"
    "partly_written os (TopicMetaEntry_layout (meta_of topic)) ok os1" using WriteAll_partly [OF Cons.prems] by blast
  show ?case
  proof (cases ok)
    case True
    with Cons.IH [OF partly_no_stall [OF w(2) Cons.prems]] obtain ok' os2 where
      "WriteMetadata fd topics os1 = Some (ok', os2)"
      "partly_written os1 (concat (map TopicMetaEntry_layout (map meta_of topics))) ok' os2" by blast
    with ser w True partly_then [of os _ os1] show ?thesis by auto
  next
    case False
    with ser w partly_failed [of os _ os1] show ?thesis by auto
  qed
qed

lemma WriteHeader_partly:
  assumes "no_stall (rw_os w)"
  shows "\<exists>ok os'. WriteFileHeaderAndMetadata topics w = Some (ok, w\<lparr>rw_os := os'\<rparr>)
    \<and> partly_written (rw_os w) (session_prefix topics (rw_os w)) ok os'"
proof -
  let ?h = "header_of topics (rw_os w)"
  have ser: "FileHeader_Serialize ?h (replicate kFileHeaderWireSize 0) 0 = Some (FileHeader_layout ?h)"
    by (rule fh.ser_exact) simp_all
  obtain ok os1 where w1: "WriteAll (rw_bin_fd w) (FileHeader_layout ?h) (rw_os w) = Some (ok, os1)"
    "partly_written (rw_os w) (FileHeader_layout ?h) ok os1" using WriteAll_partly [OF assms] by blast
  show ?thesis
  proof (cases ok)
    case True
    obtain ok' os2 where "WriteMetadata (rw_bin_fd w) topics os1 = Some (ok', os2)"
      "partly_written os1 (concat (map TopicMetaEntry_layout (map meta_of topics))) ok' os2"
      using WriteMetadata_partly [OF partly_no_stall [OF w1(2) assms]] by blast
    with ser w1 True partly_then [of "rw_os w" _ os1] show ?thesis
      by (auto simp: WriteFileHeaderAndMetadata_def session_prefix_def)
  next
    case False
    with ser w1 partly_failed [of "rw_os w" _ os1] show ?thesis
      by (auto simp: WriteFileHeaderAndMetadata_def session_prefix_def)
  qed
qed

lemma Open_no_file:
  assumes "os_open_fd (rw_os w) < 0"
  shows "RecordWriter_Open base topics w = Some (False, w\<lparr>rw_bin_path := base @ lit ''.bin'', rw_bin_fd := os_open_fd (rw_os w)\<rparr>)"
  using assms by (simp add: RecordWriter_Open_def sys_open_trunc_def Let_def)

text \<open>The same of every call that has returned, whatever the disk answered.\<close>

lemma WriteAll_result: "WriteAll fd p os = Some (ok, os') \<Longrightarrow> partly_written os p ok os'"
  using WriteAll_prefix unfolding partly_written_def by blast

lemma WriteMetadata_result:
  "WriteMetadata fd topics os = Some (ok, os') \<Longrightarrow> partly_written os (concat (map TopicMetaEntry_layout (map meta_of topics))) ok os'"
proof (induction topics arbitrary: os)
  case Nil
  then show ?case by (auto simp: partly_written_def intro: appended_refl)
next
  case (Cons topic topics)
  have ser: "TopicMetaEntry_Serialize (meta_of topic) (replicate kTopicMetaWireSize 0) 0 = Some (TopicMetaEntry_layout (meta_of topic))"
    by (rule tm.ser_exact [OF meta_of_valid]) simp
  from Cons.prems obtain ok1 os1 where w: "WriteAll fd (TopicMetaEntry_layout (meta_of topic)) os = Some (ok1, os1)"
    and rest: "if \<not> ok1 then (ok, os') = (False, os1) else WriteMetadata fd topics os1 = Some (ok, os')"
    by (auto simp: ser bind_eq_Some_conv split: if_splits)
  show ?case
  proof (cases ok1)
    case True
    with rest Cons.IH WriteAll_result [OF w] partly_then [of os _ os1] show ?thesis by simp
  next
    case False
    with rest WriteAll_result [OF w] partly_failed [of os _ os1] show ?thesis by simp
  qed
qed

lemma WriteHeader_result:
  assumes "WriteFileHeaderAndMetadata topics w = Some (ok, w')"
  shows "\<exists>os'. w' = w\<lparr>rw_os := os'\<rparr> \<and> partly_written (rw_os w) (session_prefix topics (rw_os w)) ok os'"
proof -
  let ?h = "header_of topics (rw_os w)"
  have ser: "FileHeader_Serialize ?h (replicate kFileHeaderWireSize 0) 0 = Some (FileHeader_layout ?h)"
    by (rule fh.ser_exact) simp_all
  from assms obtain ok1 os1 where w: "WriteAll (rw_bin_fd w) (FileHeader_layout ?h) (rw_os w) = Some (ok1, os1)"
    and rest: "if \<not> ok1 then (ok, w') = (False, w\<lparr>rw_os := os1\<rparr>)
      else \<exists>os2. WriteMetadata (rw_bin_fd w) topics os1 = Some (ok, os2) \<and> w' = w\<lparr>rw_os := os2\<rparr>"
    by (auto simp: WriteFileHeaderAndMetadata_def ser bind_eq_Some_conv split: if_splits)
  show ?thesis
  proof (cases ok1)
    case True
    with rest obtain os2 where "WriteMetadata (rw_bin_fd w) topics os1 = Some (ok, os2)" "w' = w\<lparr>rw_os := os2\<rparr>" by auto
    with True WriteAll_result [OF w] partly_then [of "rw_os w" _ os1] WriteMetadata_result show ?thesis
      by (auto simp: session_prefix_def)
  next
    case False
    with rest WriteAll_result [OF w] partly_failed [of "rw_os w" _ os1] show ?thesis by (auto simp: session_prefix_def)
  qed
qed

lemma Open_header_failed:
  assumes "RecordWriter_Open base topics w = Some (False, w')" and "0 \<le> os_open_fd (rw_os w)"
  shows "\<exists>q r. session_prefix topics (rw_os w) = q @ r \<and> r \<noteq> [] \<and> file_of w' = q \<and> 0 \<le> rw_bin_fd w'
    \<and> rw_thread w' = rw_thread w \<and> rw_ring w' = rw_ring w"
proof -
  let ?os = "(rw_os w)\<lparr>os_file := [], os_synced := 0\<rparr>"
  let ?w = "w\<lparr>rw_bin_path := base @ lit ''.bin'', rw_bin_fd := os_open_fd (rw_os w), rw_os := ?os\<rparr>"
  have "WriteFileHeaderAndMetadata topics ?w = Some (False, w')"
    using assms by (auto simp: RecordWriter_Open_def sys_open_trunc_def steady_now_def Let_def bind_eq_Some_conv split: if_splits)
  from WriteHeader_result [OF this] obtain os' where os': "w' = ?w\<lparr>rw_os := os'\<rparr>"
    "partly_written ?os (session_prefix topics ?os) False os'" by auto
  have same: "session_prefix topics ?os = session_prefix topics (rw_os w)" by (simp add: session_prefix_def header_of_def)
  obtain q r where q: "session_prefix topics (rw_os w) = q @ r" "appended ?os q os'" "r \<noteq> []"
    using os'(2) unfolding same partly_written_def by blast
  then show ?thesis using appended_frame(1) [OF q(2)] os'(1) assms(2) by auto
qed

text \<open>A disk on which every \<open>write\<close> fails.\<close>

lemma Open_full_disk:
  assumes "os_reply (rw_os w) = (\<lambda>_. WErr)" and "0 \<le> os_open_fd (rw_os w)"
  shows "\<exists>w'. RecordWriter_Open base topics w = Some (False, w')"
proof -
  have fails: "WriteAll fd p os' = Some (False, os'\<lparr>os_writes := Suc (os_writes os')\<rparr>)"
    if "p \<noteq> []" "os_reply os' = (\<lambda>_. WErr)" for fd p os'
    using that by (subst WriteAll.simps) (simp add: sys_write_def Let_def)
  have ser: "FileHeader_Serialize h (replicate kFileHeaderWireSize 0) 0 = Some (FileHeader_layout h)" for h
    by (rule fh.ser_exact) simp_all
  have "FileHeader_layout h \<noteq> []" for h using fh.layout_length [of h] by (auto simp: wire_sizes)
  with assms show ?thesis
    by (simp add: RecordWriter_Open_def sys_open_trunc_def WriteFileHeaderAndMetadata_def ser fails Let_def)
qed

section \<open>A writer without a descriptor\<close>

text \<open>With \<open>bin_fd_\<close> negative nothing the thread does reaches the file.\<close>

definition detached :: "RecordWriter \<Rightarrow> RecordWriter \<Rightarrow> bool" where
  "detached w w' \<longleftrightarrow> rw_bin_fd w' < 0 \<and> file_of w' = file_of w \<and> os_synced (rw_os w') = os_synced (rw_os w)"

lemma detached_drain:
  assumes "drain_step w' = Some (got, w'')" and "detached w w'"
  shows "detached w w''"
  using assms by (auto simp: drain_step_def WriteRecord_def detached_def bind_eq_Some_conv split: if_splits)

lemma detached_step: "writer_step w' l w'' \<Longrightarrow> detached w w' \<Longrightarrow> detached w w''"
proof (induction rule: writer_step.induct)
  case (thread w' pc w'')
  have "detached w (MaybeFlush w')" using thread(3) by (auto simp: detached_def MaybeFlush_def steady_now_def Let_def)
  with thread(2,3) detached_drain [of w' _ _ w] show ?case
    by (cases pc) (auto simp: bind_eq_Some_conv Let_def detached_def split: if_splits)
qed (auto simp: detached_def RecordWriter_Push_def bind_eq_Some_conv)

lemma detached_trace: "writer_trace w' ls w'' \<Longrightarrow> detached w w' \<Longrightarrow> detached w w''"
  by (induction rule: writer_trace.induct) (simp_all add: detached_step)

section \<open>Properties\<close>

text \<open>C20: Every outcome of \<open>Open\<close>, in any state of the writer, on any disk that answers no \<open>write\<close> with zero bytes.
  If the file cannot be opened it returns false and nothing but the path and the descriptor changed. Otherwise
  the file is truncated and holds a prefix of header and table: a proper one means that \<open>Open\<close> returned false
  without starting a thread, and, when none was running, \<open>Close\<close> then syncs and closes the fragment; all of it means that the thread was
  started, or, when one was already running, that the program terminates.\<close>

theorem writer_Open_outcomes:
  assumes "\<forall>i \<ge> os_writes (rw_os w). os_reply (rw_os w) i \<noteq> WOk 0"
  shows "if os_open_fd (rw_os w) < 0
    then \<exists>w'. RecordWriter_Open base topics w = Some (False, w') \<and> rw_bin_fd w' < 0 \<and> rw_os w' = rw_os w
      \<and> rw_thread w' = rw_thread w \<and> rw_ring w' = rw_ring w
    else \<exists>q r. session_prefix topics (rw_os w) = q @ r \<and>
      (if r \<noteq> []
       then \<exists>w'. RecordWriter_Open base topics w = Some (False, w') \<and> file_of w' = q
         \<and> rw_thread w' = rw_thread w \<and> rw_ring w' = rw_ring w
         \<and> (rw_thread w = None \<longrightarrow> (\<exists>w2. RecordWriter_Close w' = Some w2 \<and> file_of w2 = q \<and> os_synced (rw_os w2) = length q \<and> rw_bin_fd w2 = -1))
       else if rw_thread w \<noteq> None then RecordWriter_Open base topics w = None
       else \<exists>w'. RecordWriter_Open base topics w = Some (True, w') \<and> file_of w' = q
         \<and> rw_thread w' = Some LoopTest \<and> \<not> rw_shutdown w' \<and> rw_ring w' = rw_ring w)"
proof (cases "os_open_fd (rw_os w) < 0")
  case True
  then show ?thesis by (simp add: Open_no_file)
next
  case False
  let ?os = "(rw_os w)\<lparr>os_file := [], os_synced := 0\<rparr>"
  let ?w = "w\<lparr>rw_bin_path := base @ lit ''.bin'', rw_bin_fd := os_open_fd (rw_os w), rw_os := ?os\<rparr>"
  have "no_stall (rw_os ?w)" using assms by (simp add: no_stall_def)
  from WriteHeader_partly [OF this, of topics] obtain ok os' where
    h: "WriteFileHeaderAndMetadata topics ?w = Some (ok, ?w\<lparr>rw_os := os'\<rparr>)" "partly_written ?os (session_prefix topics ?os) ok os'" by auto
  have same: "session_prefix topics ?os = session_prefix topics (rw_os w)" by (simp add: session_prefix_def header_of_def)
  obtain q r where q: "session_prefix topics (rw_os w) = q @ r" "appended ?os q os'" "ok \<longleftrightarrow> r = []"
    using h(2) unfolding same partly_written_def by blast
  have f: "os_file os' = q" using appended_frame(1) [OF q(2)] by simp
  let ?out = "\<lambda>ok. if \<not> ok
       then \<exists>w'. RecordWriter_Open base topics w = Some (False, w') \<and> file_of w' = q
         \<and> rw_thread w' = rw_thread w \<and> rw_ring w' = rw_ring w
         \<and> (rw_thread w = None \<longrightarrow> (\<exists>w2. RecordWriter_Close w' = Some w2 \<and> file_of w2 = q \<and> os_synced (rw_os w2) = length q \<and> rw_bin_fd w2 = -1))
       else if rw_thread w \<noteq> None then RecordWriter_Open base topics w = None
       else \<exists>w'. RecordWriter_Open base topics w = Some (True, w') \<and> file_of w' = q
         \<and> rw_thread w' = Some LoopTest \<and> \<not> rw_shutdown w' \<and> rw_ring w' = rw_ring w"
  have "?out ok"
    using False h(1) f
    by (auto simp: RecordWriter_Open_def sys_open_trunc_def steady_now_def Let_def RecordWriter_Close_def sys_fsync_def)
  then have "?out (r = [])" by (simp only: q(3))
  with q(1) show ?thesis unfolding if_not_P [OF False] by blast
qed

theorem writer_Open_outcomes_witness:
  "\<exists>q r w'. session_prefix [] (slow_disk\<lparr>os_reply := (\<lambda>_. WErr)\<rparr>) = q @ r \<and> r \<noteq> []
     \<and> RecordWriter_Open [] [] (RecordWriter_init 100 10 (slow_disk\<lparr>os_reply := (\<lambda>_. WErr)\<rparr>)) = Some (False, w')
     \<and> file_of w' = q \<and> rw_thread w' = None"
proof -
  let ?os = "slow_disk\<lparr>os_reply := (\<lambda>_. WErr)\<rparr>"
  let ?w = "RecordWriter_init 100 10 ?os"
  have os: "rw_os ?w = ?os" "rw_thread ?w = None" by (simp_all add: RecordWriter_init_def)
  have no: "RecordWriter_Open [] [] ?w \<noteq> Some (True, w')" for w'
    using Open_full_disk [of ?w "[]" "[]", unfolded os] by (auto simp: slow_disk_def)
  have fd: "\<not> os_open_fd ?os < 0" by (simp add: slow_disk_def)
  have "\<forall>i \<ge> os_writes (rw_os ?w). os_reply (rw_os ?w) i \<noteq> WOk 0" by (simp add: os)
  from writer_Open_outcomes [OF this, of "[]" "[]"] obtain q r where qr: "session_prefix [] ?os = q @ r"
    "if r \<noteq> [] then \<exists>w'. RecordWriter_Open [] [] ?w = Some (False, w') \<and> file_of w' = q \<and> rw_thread w' = None else False"
    using no unfolding os if_not_P [OF fd] by (auto split: if_splits)
  then show ?thesis by (auto split: if_splits)
qed

text \<open>C24: A second \<open>Open\<close> that cannot open its file cuts the running session off. It returns false and has overwritten the
  descriptor of the session that is being recorded: whatever producers, thread and shutdown do afterwards, no
  record accepted from then on reaches the file, which is neither synced nor closed, not even by \<open>Close\<close>.\<close>

theorem failed_reopen_discards:
  assumes "os_open_fd (rw_os w) < 0" and "RecordWriter_Open base topics w = Some (ok, w')" and "writer_trace w' ls w1"
  shows "\<not> ok \<and> rw_thread w' = rw_thread w \<and> file_of w1 = file_of w \<and> os_synced (rw_os w1) = os_synced (rw_os w)
    \<and> (rw_thread w1 = Some Exited \<longrightarrow> (\<exists>w2. RecordWriter_Close w1 = Some w2 \<and> file_of w2 = file_of w \<and> os_synced (rw_os w2) = os_synced (rw_os w)))"
proof -
  have w': "\<not> ok" "w' = w\<lparr>rw_bin_path := base @ lit ''.bin'', rw_bin_fd := os_open_fd (rw_os w)\<rparr>"
    using assms(1,2) by (simp_all add: Open_no_file)
  then have "detached w w1" using detached_trace [OF assms(3), of w] assms(1) by (simp add: detached_def)
  moreover from this have "\<exists>w2. RecordWriter_Close w1 = Some w2 \<and> rw_os w2 = rw_os w1" if "rw_thread w1 = Some Exited"
    using that by (simp add: RecordWriter_Close_def WriterThreadMain.simps [of "w1\<lparr>rw_shutdown := True\<rparr>"] detached_def)
  ultimately show ?thesis using w' by (auto simp: detached_def)
qed

theorem failed_reopen_discards_witness:
  "\<exists>w0 w' w1. RecordWriter_Open [] [] fresh_writer = Some (True, w0)
     \<and> RecordWriter_Open [] [] (w0\<lparr>rw_os := (rw_os w0)\<lparr>os_open_fd := -1\<rparr>\<rparr>) = Some (False, w')
     \<and> writer_trace w' [Accept (4, 10, 0, [7])] w1 \<and> file_of w1 = session_prefix [] slow_disk"
proof -
  let ?e = "(4, 10, 0, [7]) :: entry"
  obtain w0 where w0: "RecordWriter_Open [] [] fresh_writer = Some (True, w0)" "rw_ring w0 = rw_ring fresh_writer"
    "file_of w0 = session_prefix [] slow_disk"
    using Open_session [OF fresh_writer_ready(1), of "[]" "[]"] fresh_writer_ready(3) by auto
  let ?w = "w0\<lparr>rw_os := (rw_os w0)\<lparr>os_open_fd := -1\<rparr>\<rparr>"
  let ?w' = "?w\<lparr>rw_bin_path := [] @ lit ''.bin'', rw_bin_fd := -1\<rparr>"
  have again: "RecordWriter_Open [] [] ?w = Some (False, ?w')" using Open_no_file [of ?w "[]" "[]"] by simp
  have "ring_inv ring_exponent (rw_ring ?w')" "fits ?e" "length (queued ?w') < 2 ^ ring_exponent"
    using fresh_writer_ready(1,2) w0(2) by (simp_all add: ready_to_open_def fits_def wire_sizes)
  from push_accepted [OF this] obtain rb where "writer_step ?w' (Accept ?e) (?w'\<lparr>rw_ring := rb\<rparr>)" by blast
  then have t: "writer_trace ?w' [Accept ?e] (?w'\<lparr>rw_ring := rb\<rparr>)" using trace_Cons [OF _ trace_start] by blast
  have "os_open_fd (rw_os ?w) < 0" by simp
  from failed_reopen_discards [OF this again t] w0(1,3) again t show ?thesis by auto
qed

end
