(* ===== verification/I2w_Nodes.thy ===== *)
theory I2w_Nodes
  imports Session_Files Generic_Recorder Generic_Replayer Writer_Reuse
begin

text \<open>
  The two executables, \<open>src/i2wRecorder.cpp\<close> and \<open>src/i2wReplayer.cpp\<close>. What happens around the
  recorder's main loop (samples arriving on the runtime's threads, steps of the writer thread,
  \<open>SIGINT\<close>, the outcome of each \<open>Tick\<close>) is a list of events; a run is a function of that list. The handler is installed for
  \<open>SIGINT\<close> only; any other signal keeps its default action and is not an event of a run. Samples
  may also arrive before \<open>Open\<close> and after \<open>Close\<close>: the subscriptions live from \<open>Setup\<close> to the end of
  \<open>main\<close>. Of the printed messages only the drop counts that \<open>Close\<close> prints are kept. \<^const>\<open>None\<close> means that
  \<open>main\<close> has not returned, or ran into undefined behaviour (\<open>HOME\<close> unset).
\<close>

section \<open>The recorder\<close>

definition SIGINT :: int where
  "SIGINT = 2"

definition SignalHandler :: "int \<Rightarrow> bool \<Rightarrow> bool" where
  "SignalHandler signal g_running = (if signal = SIGINT then False else g_running)"

datatype 'm event = Sample "'m TopicTraits" "'m Sample" | WriterThread | Interrupt | LoopIteration bool

fun recorder_loop :: "'m event list \<Rightarrow> bool \<Rightarrow> RecordWriter \<Rightarrow> RecordWriter option" where
  "recorder_loop [] g_running w = None"
| "recorder_loop (Sample T s # es) g_running w = do { w \<leftarrow> on_sample T s w; recorder_loop es g_running w }"
| "recorder_loop (WriterThread # es) g_running w =
     (case rw_thread w of
        None \<Rightarrow> recorder_loop es g_running w
      | Some pc \<Rightarrow> do { w \<leftarrow> thread_step pc w; recorder_loop es g_running w })"
| "recorder_loop (Interrupt # es) g_running w = recorder_loop es (SignalHandler SIGINT g_running) w"
| "recorder_loop (LoopIteration tick_ok # es) g_running w =
     (if \<not> g_running then Some w else if \<not> tick_ok then Some w else recorder_loop es g_running w)"

text \<open>Samples that arrive outside the main loop, between \<open>Setup\<close> and \<open>Open\<close> or after \<open>Close\<close>.\<close>

fun deliver :: "('m TopicTraits \<times> 'm Sample) list \<Rightarrow> RecordWriter \<Rightarrow> RecordWriter option" where
  "deliver [] w = Some w"
| "deliver ((T, s) # es) w = do { w \<leftarrow> on_sample T s w; deliver es w }"

text \<open>\<open>Close\<close> and the drop count it prints when the file is open.\<close>

definition close_printing :: "RecordWriter \<Rightarrow> (u64 list \<times> RecordWriter) option" where
  "close_printing w = do {
     w' \<leftarrow> RecordWriter_Close w;
     Some (if 0 \<le> rw_bin_fd w then [RecordWriter_DroppedCount w'] else [], w') }"

text \<open>The exit code, the drop counts printed and the writer as its destructor leaves it; or an uncaught
  exception.\<close>

datatype main_outcome = Exit int "u64 list" "RecordWriter option" | Terminated

record ('m, 'w) RecorderEnv =
  re_home :: "bytes option"  \<comment> \<open>\<open>getenv("HOME")\<close>\<close>
  re_localtime :: "int \<Rightarrow> Tm"  \<comment> \<open>the time zone data behind \<open>localtime\<close>\<close>
  re_log_now :: int  \<comment> \<open>what \<open>configerLogger\<close> reads from \<open>system_clock\<close>, in nanoseconds\<close>
  re_create_directories :: "bytes \<Rightarrow> bool"
  re_config :: "bytes option"  \<comment> \<open>content of \<open>logger_config.json\<close>\<close>
  re_setup_ok :: bool  \<comment> \<open>the runtime's own part of \<open>Setup\<close>\<close>
  re_start_time :: int  \<comment> \<open>what \<open>MakeSessionBaseName\<close> gets from \<open>std::time\<close>\<close>
  re_os :: Os
  re_early :: "('m TopicTraits \<times> 'm Sample) list"
  re_events :: "'m event list"
  re_late :: "('m TopicTraits \<times> 'm Sample) list"
  re_runtime :: 'w

definition recorder_main :: "'j JsonApi \<Rightarrow> ('m, 's, 'w) subscribe_fn \<Rightarrow> 'm TopicTraits list
    \<Rightarrow> ('m, 'w) RecorderEnv \<Rightarrow> main_outcome option" where
  "recorder_main api subscribe Ts env =
     (case configerLogger (re_home env) (re_localtime env) (re_log_now env) (re_create_directories env) of
        NullHome \<Rightarrow> None
      | DirectoryError \<Rightarrow> Some Terminated
      | LogFile _ \<Rightarrow>
     (case LoadFromFile api (re_config env) LoggerConfig_init of
        (Throws, _) \<Rightarrow> Some Terminated
      | (Returns False, _) \<Rightarrow> Some (Exit 1 [] None)
      | (Returns True, config) \<Rightarrow>
          let writer = RecordWriter_init 100000000 200000 (re_os env);
              (ok, system, _) = GenericRecorder_OnSetup subscribe Ts
                (GenericRecorderSystem_init config :: 's GenericRecorderSystem) (re_runtime env)
          in if \<not> (re_setup_ok env \<and> ok)
             then do { (out, w) \<leftarrow> close_printing writer; Some (Exit 1 out (Some w)) }
             else do {
               writer \<leftarrow> deliver (re_early env) writer;
               (opened, writer) \<leftarrow> RecordWriter_Open (MakeSessionBaseName (re_localtime env) (re_start_time env)) (EnabledTopics system) writer;
               if \<not> opened then do { (out, w) \<leftarrow> close_printing writer; Some (Exit 1 out (Some w)) }
               else do {
                 writer \<leftarrow> recorder_loop (re_events env) True writer;
                 (out, writer) \<leftarrow> close_printing writer;
                 writer \<leftarrow> deliver (re_late env) writer;
                 (out', writer) \<leftarrow> close_printing writer;
                 Some (Exit 0 (out @ out') (Some writer)) } }))"

section \<open>The replayer\<close>

text \<open>\<open>args\<close> are the arguments after the program name, \<open>fs\<close> the file system.\<close>

definition replayer_main :: "('p, 'w) advertise_fn \<Rightarrow> ('m, 'p, 'w) publish_fn \<Rightarrow> 'm TopicTraits list
    \<Rightarrow> bool \<Rightarrow> (bytes \<Rightarrow> FileView) \<Rightarrow> bytes list \<Rightarrow> Clock \<Rightarrow> 'p GenericReplayerSystem \<Rightarrow> 'w
    \<Rightarrow> (int \<times> 'p GenericReplayerSystem \<times> 'w) option" where
  "replayer_main advertise publish Ts setup_ok fs args ck system w =
     (case args of
        [] \<Rightarrow> Some (1, system, w)
      | path # _ \<Rightarrow>
          let (ok, system) = GenericReplayer_OnSetup system
          in if \<not> (setup_ok \<and> ok) then Some (1, system, w)
             else do {
               (err, reader, s) \<leftarrow> RecordReader_Open (fs path) (Some (OnTopicFound advertise Ts))
                  RecordReader_init (system, w);
               if err \<noteq> None then Some (1, s)
               else if RecordReader_Topics reader = [] then Some (0, s)
               else do {
                 (why, played, ck, s) \<leftarrow> RecordReader_Run (OnRecord publish Ts) reader ck s;
                 if why = Faulted then None else Some (0, s) } })"

section \<open>The main loop as a trace of the writer\<close>

text \<open>After \<open>Close\<close> the file is out of reach: another \<open>Close\<close> does nothing.\<close>

lemma close_printing_closed: "rw_thread w = None \<Longrightarrow> rw_bin_fd w < 0 \<Longrightarrow> close_printing w = Some ([], w)"
  by (simp add: close_printing_def RecordWriter_Close_def)


text \<open>The samples handled before the loop is left, and whether it is left at all.\<close>

fun loop_samples :: "'m event list \<Rightarrow> bool \<Rightarrow> ('m TopicTraits \<times> 'm Sample) list" where
  "loop_samples [] g_running = []"
| "loop_samples (Sample T s # es) g_running = (T, s) # loop_samples es g_running"
| "loop_samples (WriterThread # es) g_running = loop_samples es g_running"
| "loop_samples (Interrupt # es) g_running = loop_samples es False"
| "loop_samples (LoopIteration ok # es) g_running = (if g_running \<and> ok then loop_samples es g_running else [])"

fun loop_leaves :: "'m event list \<Rightarrow> bool \<Rightarrow> bool" where
  "loop_leaves [] g_running = False"
| "loop_leaves (Interrupt # es) g_running = loop_leaves es False"
| "loop_leaves (LoopIteration ok # es) g_running = (if g_running \<and> ok then loop_leaves es g_running else True)"
| "loop_leaves (_ # es) g_running = loop_leaves es g_running"

context topic_pack
begin

abbreviation entry_of :: "'m TopicTraits \<times> 'm Sample \<Rightarrow> entry" where
  "entry_of \<equiv> \<lambda>(T, s). sample_entry T s (layout T (sm_value s))"

lemma entries_fit: "\<forall>(T, s) \<in> set ss. T \<in> set Ts \<Longrightarrow> \<forall>e \<in> set (map entry_of ss). fits e"
  using recordable.sample_fits [OF each] by auto

lemma sample_trace:
  assumes "T \<in> set Ts" and "ring_wf ring_exponent (rw_ring w)"
  shows "\<exists>w' l. on_sample T s w = Some w' \<and> writer_step w l w' \<and> offered [l] = [entry_of (T, s)]
    \<and> rw_shutdown w' = rw_shutdown w \<and> rw_thread w' = rw_thread w"
proof -
  let ?e = "entry_of (T, s)"
  obtain w' where w': "on_sample T s w = Some w'" "writer_step w (Accept ?e) w' \<or> writer_step w (Reject ?e) w'"
    using recordable.on_sample_step [OF each [OF assms(1)] assms(2) refl, of s] by (auto split: if_splits)
  have "rw_shutdown w' = rw_shutdown w \<and> rw_thread w' = rw_thread w"
    using w'(1) by (auto simp: on_sample_def RecordWriter_Push_def bind_eq_Some_conv)
  with w' show ?thesis by (elim disjE) (force intro: exI [of _ "Accept ?e"] exI [of _ "Reject ?e"])+
qed

lemma loop_trace:
  assumes "writer_ok w" and "loop_leaves es g_running" and "\<forall>(T, s) \<in> set (loop_samples es g_running). T \<in> set Ts"
  shows "\<exists>w' ls. recorder_loop es g_running w = Some w' \<and> writer_trace w ls w' \<and> rw_shutdown w' = rw_shutdown w
    \<and> offered ls = map entry_of (loop_samples es g_running) \<and> length ls \<le> length es"
  using assms
proof (induction es g_running w rule: recorder_loop.induct)
  case (1 g_running w)
  then show ?case by simp
next
  case (2 T s es g_running w)
  then have T: "T \<in> set Ts" and wf: "ring_wf ring_exponent (rw_ring w)" by (simp_all add: writer_ok_def)
  obtain w1 l where w1: "on_sample T s w = Some w1" "writer_step w l w1" "offered [l] = [entry_of (T, s)]"
    "rw_shutdown w1 = rw_shutdown w"
    using sample_trace [OF T wf] by blast
  have "writer_ok w1" using writer_step_effect [OF w1(2) "2.prems"(1)] by simp
  from "2.IH" [OF w1(1) this] "2.prems"(2,3) obtain w' ls where
    w': "recorder_loop es g_running w1 = Some w'" "writer_trace w1 ls w'" "rw_shutdown w' = rw_shutdown w1"
      "offered ls = map entry_of (loop_samples es g_running)" "length ls \<le> length es" by auto
  have "offered (l # ls) = entry_of (T, s) # offered ls" using offered_append [of "[l]" ls] w1(3) by simp
  with w' w1 trace_Cons [OF w1(2) w'(2)] show ?case by (intro exI [of _ w'] exI [of _ "l # ls"]) simp
next
  case (3 es g_running w)
  show ?case
  proof (cases "rw_thread w")
    case None
    with "3.IH"(1) [OF None "3.prems"(1)] "3.prems"(2,3) show ?thesis by fastforce
  next
    case (Some pc)
    obtain w1 where w1: "thread_step pc w = Some w1" "writer_ok w1" "rw_shutdown w1 = rw_shutdown w"
      using thread_step_cases [OF "3.prems"(1), of pc] by metis
    from "3.IH"(2) [OF Some w1(1,2)] "3.prems"(2,3) obtain w' ls where
      w': "recorder_loop es g_running w1 = Some w'" "writer_trace w1 ls w'" "rw_shutdown w' = rw_shutdown w1"
        "offered ls = map entry_of (loop_samples es g_running)" "length ls \<le> length es" by auto
    with Some w1 trace_Cons [OF writer_step.thread [OF Some w1(1)] w'(2)] show ?thesis
      by (intro exI [of _ w'] exI [of _ "Tau # ls"]) simp
  qed
next
  case (4 es g_running w)
  then show ?case by (fastforce simp: SignalHandler_def)
next
  case (5 ok es g_running w)
  show ?case
  proof (cases "g_running \<and> ok")
    case True
    with 5 show ?thesis by fastforce
  next
    case False
    then show ?thesis by (intro exI [of _ w] exI [of _ "[]"]) (auto simp: trace_start)
  qed
qed

lemma deliver_room:
  assumes "ring_inv ring_exponent (rw_ring w)" and "length (queued w) + length ss \<le> 2 ^ ring_exponent"
    and "\<forall>(T, s) \<in> set ss. T \<in> set Ts"
  shows "\<exists>rb. deliver ss w = Some (w\<lparr>rw_ring := rb\<rparr>) \<and> ring_inv ring_exponent rb
    \<and> ring_queue ring_exponent rb = queued w @ map entry_of ss \<and> rb_dropped_count rb = rb_dropped_count (rw_ring w)"
  using assms
proof (induction ss arbitrary: w)
  case Nil
  then show ?case by (intro exI [of _ "rw_ring w"]) simp
next
  case (Cons Ts0 ss)
  obtain T s where Ts0: "Ts0 = (T, s)" by force
  with Cons.prems(3) have T: "recordable T (layout T) (restored T)" using each by simp
  let ?e = "entry_of (T, s)"
  have wf: "ring_wf ring_exponent (rw_ring w)" using Cons.prems(1) by (simp add: ring_inv_def)
  have fit: "fits ?e" using recordable.sample_fits [OF T] by simp
  obtain rb where rb: "ring_push ring_exponent ?e (rw_ring w) = (True, rb)" "ring_inv ring_exponent rb"
    "ring_queue ring_exponent rb = queued w @ [?e]"
    using wq.push_room [OF Cons.prems(1) fit] Cons.prems(2) by auto
  have "rb_dropped_count rb = rb_dropped_count (rw_ring w)"
    using ring_push_conserves(3) [OF ring_exponent_less wf fit rb(1)] by simp
  moreover have "on_sample T s w = Some (w\<lparr>rw_ring := rb\<rparr>)"
    using recordable.on_sample_step [OF T wf refl, of s] rb(1) by auto
  ultimately show ?case
    using Cons.IH [of "w\<lparr>rw_ring := rb\<rparr>"] Cons.prems rb Ts0 by auto
qed

lemma deliver_keeps:
  assumes "ring_wf ring_exponent (rw_ring w)" and "\<forall>(T, s) \<in> set ss. T \<in> set Ts"
  shows "\<exists>rb. deliver ss w = Some (w\<lparr>rw_ring := rb\<rparr>) \<and> ring_wf ring_exponent rb"
  using assms
proof (induction ss arbitrary: w)
  case Nil
  then show ?case by (intro exI [of _ "rw_ring w"]) simp
next
  case (Cons Ts0 ss)
  obtain T s where Ts0: "Ts0 = (T, s)" by force
  with Cons.prems(2) have T: "recordable T (layout T) (restored T)" using each by simp
  let ?e = "entry_of (T, s)" let ?rb = "snd (ring_push ring_exponent ?e (rw_ring w))"
  have "ring_wf ring_exponent ?rb"
    by (rule ring_push_wf [OF ring_exponent_less Cons.prems(1)]) (use recordable.sample_fits [OF T] in simp)
  moreover have "on_sample T s w = Some (w\<lparr>rw_ring := ?rb\<rparr>)"
    using recordable.on_sample_step [OF T Cons.prems(1) refl, of s] by auto
  ultimately show ?case using Cons.IH [of "w\<lparr>rw_ring := ?rb\<rparr>"] Cons.prems(2) Ts0 by auto
qed

lemma recorder_session:
  assumes "ready_to_open (RecordWriter_init fi ii os)" and "length ss \<le> 2 ^ ring_exponent"
    and "\<forall>(T, s) \<in> set ss \<union> set (loop_samples es True) \<union> set late. T \<in> set Ts"
    and "loop_leaves es True" and "length es < 2 ^ 64"
  shows "\<exists>w1 w2 w3 w4 w5 n. deliver ss (RecordWriter_init fi ii os) = Some w1
    \<and> RecordWriter_Open nm topics w1 = Some (True, w2) \<and> recorder_loop es True w2 = Some w3
    \<and> close_printing w3 = Some ([n], w4) \<and> deliver late w4 = Some w5 \<and> close_printing w5 = Some ([], w5)
    \<and> rw_bin_fd w5 = -1 \<and> os_synced (rw_os w5) = length (file_of w5)
    \<and> (n = 0 \<longrightarrow> file_of w5 = session_prefix topics os @ records_bytes (map entry_of (ss @ loop_samples es True)))"
proof -
  let ?w = "RecordWriter_init fi ii os"
  have inv: "ring_inv ring_exponent (rw_ring ?w)" "queued ?w = []" "rb_dropped_count (rw_ring ?w) = 0" "rw_os ?w = os"
    using ring_inv_init [of ring_exponent] ring_queue_init [of ring_exponent]
    by (simp_all add: RecordWriter_init_def) (simp add: MpscRingBuffer_init_def)
  obtain rb where rb: "deliver ss ?w = Some (?w\<lparr>rw_ring := rb\<rparr>)" "ring_inv ring_exponent rb"
    "ring_queue ring_exponent rb = map entry_of ss" "rb_dropped_count rb = 0"
    using deliver_room [OF inv(1), of ss] inv assms(2,3) by auto
  have "ready_to_open (?w\<lparr>rw_ring := rb\<rparr>)" using assms(1) rb(2) by (simp add: ready_to_open_def)
  from Open_session [OF this, of nm topics] obtain w2 where
    w2: "RecordWriter_Open nm topics (?w\<lparr>rw_ring := rb\<rparr>) = Some (True, w2)" "writer_ok w2" "serving w2"
      "rw_ring w2 = rb" "file_of w2 = session_prefix topics os" "\<not> rw_shutdown w2" using inv(4) by auto
  obtain w3 ls where w3: "recorder_loop es True w2 = Some w3" "writer_trace w2 ls w3" "\<not> rw_shutdown w3"
    "offered ls = map entry_of (loop_samples es True)" "length ls \<le> length es"
    using loop_trace [OF w2(2) assms(4)] assms(3) w2(6) by auto
  have "\<forall>e \<in> set (offered ls). fits e" using entries_fit [of "loop_samples es True"] assms(3) w3(4) by auto
  then have acc: "no_overflow ls \<Longrightarrow> accepted ls = offered ls" by (simp add: accepted_offered)
  have inv2: "ring_inv ring_exponent (rw_ring w2)" using rb(2) w2(4) by simp
  have len: "length ls < 2 ^ 64" using w3(5) assms(5) by simp
  from session_outcome [OF w2(2) inv2 w2(3) w3(2,3) len] obtain w4 where
    w4: "RecordWriter_Close w3 = Some w4" "os_synced (rw_os w4) = length (file_of w4)" "rw_bin_fd w4 = -1"
      "rw_thread w4 = None" "ring_wf ring_exponent (rw_ring w4)" "0 \<le> rw_bin_fd w3"
      "RecordWriter_DroppedCount w4 = RecordWriter_DroppedCount w2 \<Longrightarrow>
        no_overflow ls \<and> file_of w4 = file_of w2 @ records_bytes (queued w2 @ accepted ls)" by blast
  have "RecordWriter_DroppedCount w2 = 0" using rb(4) w2(4) by (simp add: RecordWriter_DroppedCount_def DroppedCount_def)
  then have content: "RecordWriter_DroppedCount w4 = 0 \<longrightarrow>
      file_of w4 = session_prefix topics os @ records_bytes (map entry_of (ss @ loop_samples es True))"
    using w4(7) acc rb(3) w2(4,5) w3(4) by simp
  obtain rb' where late: "deliver late w4 = Some (w4\<lparr>rw_ring := rb'\<rparr>)" using deliver_keeps [OF w4(5)] assms(3) by blast
  have "close_printing w3 = Some ([RecordWriter_DroppedCount w4], w4)" using w4(1,6) by (simp add: close_printing_def)
  moreover have "close_printing (w4\<lparr>rw_ring := rb'\<rparr>) = Some ([], w4\<lparr>rw_ring := rb'\<rparr>)"
    using w4(3,4) by (intro close_printing_closed) simp_all
  ultimately show ?thesis using late rb(1) w2(1) w3(1) w4(2,3) content
    by (intro exI [of _ "?w\<lparr>rw_ring := rb\<rparr>"] exI [of _ w2] exI [of _ w3] exI [of _ w4] exI [of _ "w4\<lparr>rw_ring := rb'\<rparr>"]
        exI [of _ "RecordWriter_DroppedCount w4"]) simp
qed

end

section \<open>The recorder's run\<close>

lemma recorder_main_run:
  assumes "configerLogger (re_home env) (re_localtime env) (re_log_now env) (re_create_directories env) = LogFile f"
    and "LoadFromFile api (re_config env) LoggerConfig_init = (Returns True, config)"
    and "GenericRecorder_OnSetup subscribe (AllTopics v0) (GenericRecorderSystem_init config) (re_runtime env)
      = (True, system, rt)"
    and "re_setup_ok env" and "0 \<le> os_open_fd (re_os env)" and "good_disk (re_os env)"
    and "length (re_early env) \<le> 4096" and "loop_leaves (re_events env) True" and "length (re_events env) < 2 ^ 64"
    and "\<forall>(T, s) \<in> set (re_early env) \<union> set (loop_samples (re_events env) True) \<union> set (re_late env). T \<in> set (AllTopics v0)"
  shows "\<exists>w n. recorder_main api subscribe (AllTopics v0) env = Some (Exit 0 [n] (Some w)) \<and> rw_bin_fd w = -1
    \<and> os_synced (rw_os w) = length (file_of w)
    \<and> (n = 0 \<longrightarrow>
        file_of w = session_prefix (EnabledTopics system) (re_os env) @ records_bytes
          (map (\<lambda>(T, s). sample_entry T s (joy_layout (sm_value s)))
             (re_early env @ loop_samples (re_events env) True)))"
proof -
  have ready: "ready_to_open (RecordWriter_init 100000000 200000 (re_os env))"
    using assms(5,6) ring_inv_init [of ring_exponent] by (simp add: ready_to_open_def RecordWriter_init_def)
  have early: "length (re_early env) \<le> 2 ^ ring_exponent" using assms(7) by (simp add: ring_exponent_def)
  from all_topics.recorder_session [OF ready early assms(10,8,9)] obtain w1 w2 w3 w4 w5 n where
    run: "deliver (re_early env) (RecordWriter_init 100000000 200000 (re_os env)) = Some w1"
      "RecordWriter_Open (MakeSessionBaseName (re_localtime env) (re_start_time env)) (EnabledTopics system) w1 = Some (True, w2)"
      "recorder_loop (re_events env) True w2 = Some w3" "close_printing w3 = Some ([n], w4)"
      "deliver (re_late env) w4 = Some w5" "close_printing w5 = Some ([], w5)"
    and res: "rw_bin_fd w5 = -1" "os_synced (rw_os w5) = length (file_of w5)"
      "n = 0 \<Longrightarrow> file_of w5 = session_prefix (EnabledTopics system) (re_os env)
         @ records_bytes (map (\<lambda>(T, s). sample_entry T s (joy_layout (sm_value s)))
             (re_early env @ loop_samples (re_events env) True))"
    by blast
  have "recorder_main api subscribe (AllTopics v0) env = Some (Exit 0 [n] (Some w5))"
    using run assms(1-4) by (simp add: recorder_main_def)
  with res show ?thesis by blast
qed

lemma close_unopened: "close_printing (RecordWriter_init fi ii os) = Some ([], RecordWriter_init fi ii os)"
  by (rule close_printing_closed) (simp_all add: RecordWriter_init_def)

lemma open_refused:
  assumes "rw_thread w = None" and "os_open_fd (rw_os w) < 0"
  shows "\<exists>w'. RecordWriter_Open nm topics w = Some (False, w') \<and> close_printing w' = Some ([], w') \<and> rw_os w' = rw_os w"
  using assms by (simp add: RecordWriter_Open_def Let_def sys_open_trunc_def close_printing_closed)

section \<open>Properties\<close>

text \<open>C6: The recorder from start to exit. With a log directory that can be made, a configuration that loads,
  subscriptions that succeed and a disk that keeps accepting bytes, \<open>main\<close> returns 0 once the loop is
  left (after SIGINT or a failed tick), with the file synced and closed. It prints one drop count; if
  that is 0, the file is the header, the table of the enabled topics, and one record per sample in
  arrival order, the samples that came between \<open>Setup\<close> and \<open>Open\<close> included. Samples that
  arrive after \<open>Close\<close>, while the subscriptions are still alive, are in no case written or counted.\<close>

theorem recorder_main_records:
  assumes "configerLogger (re_home env) (re_localtime env) (re_log_now env) (re_create_directories env) = LogFile f"
    and "LoadFromFile api (re_config env) LoggerConfig_init = (Returns True, config)"
    and "GenericRecorder_OnSetup subscribe (AllTopics v0) (GenericRecorderSystem_init config) (re_runtime env)
      = (True, system, rt)"
    and "re_setup_ok env" and "0 \<le> os_open_fd (re_os env)" and "good_disk (re_os env)"
    and "length (re_early env) \<le> 4096" and "loop_leaves (re_events env) True" and "length (re_events env) < 2 ^ 64"
    and "\<forall>(T, s) \<in> set (re_early env) \<union> set (loop_samples (re_events env) True) \<union> set (re_late env). T \<in> set (AllTopics v0)"
  shows "\<exists>w n. recorder_main api subscribe (AllTopics v0) env = Some (Exit 0 [n] (Some w)) \<and> rw_bin_fd w = -1
    \<and> os_synced (rw_os w) = length (file_of w)
    \<and> (n = 0 \<longrightarrow>
        file_of w = session_prefix (EnabledTopics system) (re_os env) @ records_bytes
          (map (\<lambda>(T, s). sample_entry T s (joy_layout (sm_value s)))
             (re_early env @ loop_samples (re_events env) True)))"
  by (rule recorder_main_run) (rule assms)+

definition demo_sample :: "JoyMsgs Sample" where
  "demo_sample = \<lparr>sm_value = JoyMsgs_init\<lparr>joy_axis0 := 0x3F800000, joy_button1 := True\<rparr>, sm_stamp_ns = 1000, sm_seq = 0\<rparr>"

definition demo_env :: "(JoyMsgs, unit) RecorderEnv" where
  "demo_env = \<lparr>re_home = Some (lit ''/home/pi''),
     re_localtime = autumn_clock, re_log_now = 1792888200000000000,
     re_create_directories = (\<lambda>_. True), re_config = Some [0], re_setup_ok = True,
     re_start_time = 1792888200,
     re_os = slow_disk, re_early = [],
     re_events = [Sample (JoyTraits JoyMsgs_init) demo_sample, WriterThread, LoopIteration True, Interrupt, LoopIteration True],
     re_late = [(JoyTraits JoyMsgs_init, demo_sample)], re_runtime = ()\<rparr>"

lemma slow_disk_good: "good_disk slow_disk" "0 \<le> os_open_fd slow_disk"
  by (simp_all add: slow_disk_def good_disk_def)

lemma demo_log: "\<exists>f. configerLogger (re_home demo_env) (re_localtime demo_env) (re_log_now demo_env) (re_create_directories demo_env) = LogFile f"
  by (simp add: demo_env_def configerLogger_def Let_def)

lemma demo_env_simps:
  "re_config demo_env = Some [0]" "re_setup_ok demo_env" "re_os demo_env = slow_disk" "re_early demo_env = []"
  "re_late demo_env = [(JoyTraits JoyMsgs_init, demo_sample)]"
  "loop_leaves (re_events demo_env) True" "length (re_events demo_env) = 5"
  "loop_samples (re_events demo_env) True = [(JoyTraits JoyMsgs_init, demo_sample)]" "re_runtime demo_env = ()"
  by (simp_all add: demo_env_def SIGINT_def)

lemma demo_setup:
  "\<exists>config sy. LoadFromFile (json_api shipped_entries) (Some [0]) LoggerConfig_init = (Returns True, config)
     \<and> GenericRecorder_OnSetup (\<lambda>_ _ _ rt. (Some (), rt)) (AllTopics JoyMsgs_init) (GenericRecorderSystem_init config) () = (True, sy, ())
     \<and> EnabledTopics sy = [\<lparr>ti_topic_id = 4, ti_wire_size = 22, ti_name = lit ''/joy''\<rparr>]"
proof -
  let ?config = "snd (LoadFromFile (json_api shipped_entries) (Some [0]) LoggerConfig_init)"
  have load: "LoadFromFile (json_api shipped_entries) (Some [0]) LoggerConfig_init = (Returns True, ?config)"
    "holds shipped_cfgs ?config"
    using load_entries_prefix [OF shipped_reads holds_init, of shipped_entries "[]"]
      LoadFromFile_document [OF json_document, of shipped_entries LoggerConfig_init] by auto
  have "IsEnabled (JoyTraits JoyMsgs_init) ?config"
    using IsEnabled_holds [OF load(2), of "JoyTraits JoyMsgs_init"] by (simp add: shipped_cfgs_def last_entry_def)
  then have "\<exists>sy. GenericRecorder_OnSetup (\<lambda>_ _ _ rt. (Some (), rt)) (AllTopics JoyMsgs_init) (GenericRecorderSystem_init ?config) () = (True, sy, ())
     \<and> EnabledTopics sy = [\<lparr>ti_topic_id = 4, ti_wire_size = 22, ti_name = lit ''/joy''\<rparr>]"
    by (simp add: GenericRecorder_OnSetup_def AllTopics_def SetupOne_def GenericRecorderSystem_init_def
        EnabledTopics_def topic_info_def)
  with load(1) show ?thesis by blast
qed

theorem recorder_main_records_witness:
  "\<exists>w n. recorder_main (json_api shipped_entries) (\<lambda>_ _ _ rt. (Some (), rt)) (AllTopics JoyMsgs_init) demo_env
     = Some (Exit 0 [n] (Some w)) \<and> (n = 0 \<longrightarrow>
       file_of w = session_prefix [\<lparr>ti_topic_id = 4, ti_wire_size = 22, ti_name = lit ''/joy''\<rparr>] slow_disk
         @ record_bytes (4, 1000, 0, joy_layout (sm_value demo_sample)))"
proof -
  let ?sub = "\<lambda>_ _ _ rt. (Some (), rt)"
  obtain config sy where load: "LoadFromFile (json_api shipped_entries) (Some [0]) LoggerConfig_init = (Returns True, config)"
    and su: "GenericRecorder_OnSetup ?sub (AllTopics JoyMsgs_init) (GenericRecorderSystem_init config) () = (True, sy, ())"
      "EnabledTopics sy = [\<lparr>ti_topic_id = 4, ti_wire_size = 22, ti_name = lit ''/joy''\<rparr>]"
    using demo_setup by blast
  obtain f where log: "configerLogger (re_home demo_env) (re_localtime demo_env) (re_log_now demo_env) (re_create_directories demo_env) = LogFile f"
    using demo_log by blast
  have "\<exists>w n. recorder_main (json_api shipped_entries) ?sub (AllTopics JoyMsgs_init) demo_env = Some (Exit 0 [n] (Some w))
    \<and> rw_bin_fd w = -1 \<and> os_synced (rw_os w) = length (file_of w)
    \<and> (n = 0 \<longrightarrow>
        file_of w = session_prefix (EnabledTopics sy) (re_os demo_env) @ records_bytes
          (map (\<lambda>(T, s). sample_entry T s (joy_layout (sm_value s)))
             (re_early demo_env @ loop_samples (re_events demo_env) True)))"
    by (rule recorder_main_records [of _ f _ config _ _ sy "()"])
      (use log load su(1) in \<open>simp_all add: demo_env_simps slow_disk_good AllTopics_def\<close>)
  then show ?thesis
    by (simp add: demo_env_simps su(2) sample_entry_def) (auto simp: demo_sample_def)
qed

text \<open>C22: Every way in which the recorder gives up before recording. Without \<open>HOME\<close> the log set-up builds
  a string from a null pointer, before the configuration is even looked at; a log directory that
  cannot be made, or a wrongly typed configuration entry, ends the process by an uncaught exception; a
  missing or malformed configuration, a failed subscription and an output file that cannot be
  opened give exit code 1. In all of these nothing is written to the output file. When the file was opened but
  header or table could not be written, the exit code is 1 as well, and the file, truncated before, is left with a proper prefix of
  them, synced and closed. Only an \<open>Open\<close> that succeeds leads on: then \<open>main\<close> does not give up any more, it returns 0 or does not return.\<close>

theorem recorder_early_exits:
  assumes "\<forall>(T, s) \<in> set (re_early env). T \<in> set (AllTopics v0)"
    and "run = recorder_main api (subscribe :: ('a JoyMsgs_scheme, 's, 'w) subscribe_fn) (AllTopics v0) env"
    and "log = configerLogger (re_home env) (re_localtime env) (re_log_now env) (re_create_directories env)"
    and "load = LoadFromFile api (re_config env) LoggerConfig_init"
    and "setup_result = GenericRecorder_OnSetup subscribe (AllTopics v0) (GenericRecorderSystem_init (snd load)) (re_runtime env)"
    and "topics = EnabledTopics (fst (snd setup_result))"
    and "deliver (re_early env) (RecordWriter_init 100000000 200000 (re_os env)) = Some writer"
    and "opened = RecordWriter_Open (MakeSessionBaseName (re_localtime env) (re_start_time env)) topics writer"
  shows "(re_home env = None \<longrightarrow> run = None) \<and> (log = DirectoryError \<longrightarrow> run = Some Terminated) \<and>
    (\<forall>f. log = LogFile f \<longrightarrow>
      (fst load = Throws \<longrightarrow> run = Some Terminated) \<and> (fst load = Returns False \<longrightarrow> run = Some (Exit 1 [] None)) \<and>
      (fst load = Returns True \<and> \<not> (re_setup_ok env \<and> fst setup_result) \<longrightarrow>
         (\<exists>w. run = Some (Exit 1 [] (Some w)) \<and> rw_os w = re_os env)) \<and>
      (fst load = Returns True \<and> re_setup_ok env \<and> fst setup_result \<and> os_open_fd (re_os env) < 0 \<longrightarrow>
         (\<exists>w. run = Some (Exit 1 [] (Some w)) \<and> rw_os w = re_os env)) \<and>
      (fst load = Returns True \<and> re_setup_ok env \<and> fst setup_result \<and> 0 \<le> os_open_fd (re_os env) \<longrightarrow>
         (case opened of
            None \<Rightarrow> run = None
          | Some (False, _) \<Rightarrow> \<exists>w n q r. run = Some (Exit 1 [n] (Some w)) \<and> session_prefix topics (re_os env) = q @ r \<and> r \<noteq> []
              \<and> file_of w = q \<and> os_synced (rw_os w) = length q \<and> rw_bin_fd w = -1
          | Some (True, _) \<Rightarrow> run = None \<or> (\<exists>out w. run = Some (Exit 0 out (Some w))))))"
proof -
  let ?w = "RecordWriter_init 100000000 200000 (re_os env)"
  have "ring_wf ring_exponent (rw_ring ?w)" using ring_wf_init [of ring_exponent] by (simp add: RecordWriter_init_def)
  then obtain rb where rb: "writer = ?w\<lparr>rw_ring := rb\<rparr>"
    using all_topics.deliver_keeps [of ?w "re_early env" v0] assms(1,7) by auto
  have w: "rw_thread writer = None" "rw_os writer = re_os env" "rw_os ?w = re_os env"
    by (simp_all add: RecordWriter_init_def rb)
  obtain r config where load: "load = (r, config)" by force
  obtain ok system rt where st: "setup_result = (ok, system, rt)" by (metis prod_cases3)
  have run: "run = Option.bind opened (\<lambda>(opened, writer).
      if \<not> opened then Option.bind (close_printing writer) (\<lambda>(out, w). Some (Exit 1 out (Some w)))
      else Option.bind (recorder_loop (re_events env) True writer) (\<lambda>writer.
        Option.bind (close_printing writer) (\<lambda>(out, writer). Option.bind (deliver (re_late env) writer) (\<lambda>writer.
        Option.bind (close_printing writer) (\<lambda>(out', writer). Some (Exit 0 (out @ out') (Some writer)))))))"
    if c: "log = LogFile f" "r = Returns True" "re_setup_ok env" "ok" for f
    using c load st assms(2-8) by (simp add: recorder_main_def)
  have no_file: "\<exists>w. run = Some (Exit 1 [] (Some w)) \<and> rw_os w = re_os env"
    if c: "log = LogFile f" "r = Returns True" "re_setup_ok env" "ok" "os_open_fd (re_os env) < 0" for f
    using run [OF c(1-4)] open_refused [OF w(1), of "MakeSessionBaseName (re_localtime env) (re_start_time env)" topics] w(2) c(5) assms(8)
    by auto
  have reached: "case opened of None \<Rightarrow> run = None
      | Some (False, _) \<Rightarrow> \<exists>w n q r. run = Some (Exit 1 [n] (Some w)) \<and> session_prefix topics (re_os env) = q @ r \<and> r \<noteq> []
          \<and> file_of w = q \<and> os_synced (rw_os w) = length q \<and> rw_bin_fd w = -1
      | Some (True, _) \<Rightarrow> run = None \<or> (\<exists>out w. run = Some (Exit 0 out (Some w)))"
    if c: "log = LogFile f" "r = Returns True" "re_setup_ok env" "ok" "0 \<le> os_open_fd (re_os env)" for f
  proof (cases opened)
    case None
    with run [OF c(1-4)] show ?thesis by simp
  next
    case (Some res)
    obtain good w' where res: "res = (good, w')" by force
    show ?thesis
    proof (cases good)
      case True
      with run [OF c(1-4)] Some res show ?thesis by (auto split: option.splits Option.bind_splits)
    next
      case False
      with Some res assms(8) have "RecordWriter_Open (MakeSessionBaseName (re_localtime env) (re_start_time env)) topics writer = Some (False, w')" by simp
      from Open_header_failed [OF this] w c(5) obtain q r' where q: "session_prefix topics (re_os env) = q @ r'" "r' \<noteq> []"
        "file_of w' = q" "0 \<le> rw_bin_fd w'" "rw_thread w' = None" by auto
      then have "\<exists>n w2. close_printing w' = Some ([n], w2) \<and> file_of w2 = q \<and> os_synced (rw_os w2) = length q \<and> rw_bin_fd w2 = -1"
        by (simp add: close_printing_def RecordWriter_Close_def sys_fsync_def)
      with run [OF c(1-4)] Some res False q(1,2) show ?thesis by auto
    qed
  qed
  have "re_home env = None \<longrightarrow> log = NullHome" using assms(3) by (simp add: configerLogger_def Let_def)
  then have "(re_home env = None \<longrightarrow> run = None) \<and> (log = DirectoryError \<longrightarrow> run = Some Terminated)"
    using assms(2,3) by (auto simp: recorder_main_def)
  moreover have "(fst load = Throws \<longrightarrow> run = Some Terminated) \<and> (fst load = Returns False \<longrightarrow> run = Some (Exit 1 [] None)) \<and>
      (fst load = Returns True \<and> \<not> (re_setup_ok env \<and> fst setup_result) \<longrightarrow>
         (\<exists>w. run = Some (Exit 1 [] (Some w)) \<and> rw_os w = re_os env))" if "log = LogFile f" for f
    using that load st assms(2-5) w(3) by (auto simp: recorder_main_def close_unopened)
  ultimately show ?thesis using no_file reached load st by auto
qed

theorem recorder_early_exits_witness:
  "recorder_main (json_api shipped_entries) ((\<lambda>_ _ _ rt. (Some (), rt)) :: (JoyMsgs, unit, unit) subscribe_fn)
     (AllTopics JoyMsgs_init) (demo_env\<lparr>re_home := None\<rparr>) = None
   \<and> recorder_main (json_api shipped_entries) ((\<lambda>_ _ _ rt. (Some (), rt)) :: (JoyMsgs, unit, unit) subscribe_fn)
     (AllTopics JoyMsgs_init) (demo_env\<lparr>re_create_directories := (\<lambda>_. False)\<rparr>) = Some Terminated
   \<and> (\<exists>w n. recorder_main (json_api shipped_entries) ((\<lambda>_ _ _ rt. (Some (), rt)) :: (JoyMsgs, unit, unit) subscribe_fn)
       (AllTopics JoyMsgs_init) (demo_env\<lparr>re_os := slow_disk\<lparr>os_reply := (\<lambda>_. WErr)\<rparr>\<rparr>) = Some (Exit 1 [n] (Some w))
     \<and> os_synced (rw_os w) = length (file_of w) \<and> rw_bin_fd w = -1)"
proof -
  let ?full = "demo_env\<lparr>re_os := slow_disk\<lparr>os_reply := (\<lambda>_. WErr)\<rparr>\<rparr>" and ?mkdir = "demo_env\<lparr>re_create_directories := (\<lambda>_. False)\<rparr>"
  have e: "re_early (demo_env\<lparr>re_home := None\<rparr>) = []" "re_early ?mkdir = []" "re_home (demo_env\<lparr>re_home := None\<rparr>) = None"
    "configerLogger (re_home ?mkdir) (re_localtime ?mkdir) (re_log_now ?mkdir) (re_create_directories ?mkdir) = DirectoryError"
    by (simp_all add: demo_env_def configerLogger_def Let_def)
  let ?sub = "(\<lambda>_ _ _ rt. (Some (), rt)) :: (JoyMsgs, unit, unit) subscribe_fn"
  have none: "deliver [] w = Some w" for w by simp
  note exits = recorder_early_exits [OF _ refl refl refl refl refl _ refl, of _ JoyMsgs_init _ "json_api shipped_entries" ?sub]
  have home: "recorder_main (json_api shipped_entries) ?sub (AllTopics JoyMsgs_init) (demo_env\<lparr>re_home := None\<rparr>) = None"
    using exits [of "demo_env\<lparr>re_home := None\<rparr>"] e(1,3) by simp
  have mkdir: "recorder_main (json_api shipped_entries) ?sub (AllTopics JoyMsgs_init) ?mkdir = Some Terminated"
    by (rule exits [THEN conjunct2, THEN conjunct1, THEN mp, OF _ _ e(4)]) (simp_all only: e(2) list.set ball_empty none)
  obtain config sy where su: "LoadFromFile (json_api shipped_entries) (Some [0]) LoggerConfig_init = (Returns True, config)"
    "GenericRecorder_OnSetup ?sub (AllTopics JoyMsgs_init) (GenericRecorderSystem_init config) () = (True, sy, ())"
    using demo_setup by blast
  obtain f where log: "configerLogger (re_home ?full) (re_localtime ?full) (re_log_now ?full) (re_create_directories ?full) = LogFile f"
    using demo_log by auto
  have fields: "re_early ?full = []" "re_config ?full = Some [0]" "re_setup_ok ?full" "re_runtime ?full = ()"
    "os_open_fd (re_os ?full) = 3" by (simp_all add: demo_env_simps slow_disk_def)
  let ?w = "RecordWriter_init 100000000 200000 (re_os ?full)"
  let ?name = "MakeSessionBaseName (re_localtime ?full) (re_start_time ?full)"
  obtain w' where opened: "RecordWriter_Open ?name (EnabledTopics sy) ?w = Some (False, w')"
    using Open_full_disk [of ?w] by (auto simp: RecordWriter_init_def slow_disk_def)
  have "deliver (re_early ?full) ?w = Some ?w" "\<forall>(T, s) \<in> set (re_early ?full). T \<in> set (AllTopics JoyMsgs_init)"
    unfolding fields(1) by simp_all
  from exits [OF this(2,1)] log su opened fields
  have "\<exists>w n. recorder_main (json_api shipped_entries) ?sub (AllTopics JoyMsgs_init) ?full = Some (Exit 1 [n] (Some w))
     \<and> os_synced (rw_os w) = length (file_of w) \<and> rw_bin_fd w = -1" by auto
  with home mkdir show ?thesis by blast
qed

end
