(* ===== verification/Record_Roundtrip.thy ===== *)
theory Record_Roundtrip
  imports I2w_Nodes
begin

text \<open>
  Writer and reader together: what \<open>RecordWriter\<close> leaves on disk is what \<open>RecordReader\<close> opens and
  replays, for a complete file, for a file cut off at any byte by a crash, and, through the two
  executables, from the samples that arrive at the recorder to the messages the replayer
  publishes.
\<close>

section \<open>Opening a recorded file\<close>

text \<open>The reader after \<open>Open\<close> on a file of content \<open>c\<close> recorded for \<open>topics\<close>.\<close>

definition opened_reader :: "TopicInfo list \<Rightarrow> bytes \<Rightarrow> RecordReader" where
  "opened_reader topics c = \<lparr>rr_base = Some c, rr_file_size = length c,
     rr_records_start_offset = kFileHeaderWireSize + length topics * kTopicMetaWireSize,
     rr_topics = map (resolve \<circ> meta_of) topics, rr_by_id = index_topics (map (resolve \<circ> meta_of) topics) Map.empty\<rparr>"

lemma length_session_prefix:
  "length (session_prefix topics os) = kFileHeaderWireSize + length topics * kTopicMetaWireSize"
  using tm.table_length [of "map meta_of topics"] fh.layout_length [of "header_of topics os"]
  by (simp add: session_prefix_def meta_of_valid)

lemma header_of_file:
  assumes "c = session_prefix topics os @ body"
  shows "FileHeader_Deserialize c 0 FileHeader_init = Some (True, header_of topics os)"
proof -
  have "located c 0 (FileHeader_layout (header_of topics os))"
    using located_mid [of 0 "[]"] by (simp add: assms session_prefix_def)
  then have "FileHeader_accept c 0 = Some (header_of topics os)" by (rule fh.deser_layout [OF TrueI])
  then show ?thesis by (auto simp: FileHeader_accept_def split: option.splits bool.splits)
qed

text \<open>\<open>Open\<close> on a reader in any state: the tables are added to what the reader already holds.\<close>

definition reopened :: "RecordReader \<Rightarrow> TopicInfo list \<Rightarrow> bytes \<Rightarrow> RecordReader" where
  "reopened r topics c = r\<lparr>rr_base := Some c, rr_file_size := length c,
     rr_records_start_offset := kFileHeaderWireSize + length topics * kTopicMetaWireSize,
     rr_topics := rr_topics r @ map (resolve \<circ> meta_of) topics,
     rr_by_id := index_topics (map (resolve \<circ> meta_of) topics) (rr_by_id r)\<rparr>"

lemma reopened_init: "reopened RecordReader_init topics c = opened_reader topics c" "rr_topics RecordReader_init = []"
  by (simp_all add: reopened_def opened_reader_def RecordReader_init_def)

lemma parse_session_file:
  assumes c: "c = session_prefix topics os @ body" and n: "length topics < 2 ^ 32" and len: "length c < 2 ^ 63"
  shows "ParseHeaderAndMetadata (r\<lparr>rr_file_size := length c, rr_base := Some c\<rparr>) = Some (None, reopened r topics c)"
proof -
  let ?ms = "map meta_of topics" and ?r = "r\<lparr>rr_file_size := length c, rr_base := Some c\<rparr>"
  have "\<forall>m \<in> set ?ms. padded_name (tm_name m)" by (simp add: meta_of_valid)
  moreover have "located c kFileHeaderWireSize (concat (map TopicMetaEntry_layout ?ms))"
    unfolding c session_prefix_def append_assoc
    by (rule located_mid) (simp add: fh.layout_length)
  ultimately have "parse_topics (length ?ms) kFileHeaderWireSize c ?r = Some (None, reopened r topics c)"
    using parse_topics_table [of ?ms c kFileHeaderWireSize ?r] len
    by (simp add: reopened_def comp_def)
  moreover have "unat (fh_topic_count (header_of topics os)) = length topics" "fh_version (header_of topics os) = kFormatVersion"
    using n by (simp_all add: header_of_def FileHeader_init_def unsigned_of_nat take_bit_eq_mod)
  moreover have "kFileHeaderWireSize \<le> length c" by (simp add: c length_session_prefix)
  ultimately show ?thesis
    using header_of_file [OF c] by (simp add: ParseHeaderAndMetadata_def)
qed

lemma Open_session_again:
  assumes "c = session_prefix topics os @ body" and "length topics < 2 ^ 32" and "length c < 2 ^ 63"
  shows "RecordReader_Open (readable c) on_topic r s = (case on_topic of
      None \<Rightarrow> Some (None, reopened r topics c, s)
    | Some hook \<Rightarrow> let (err, s) = run_hook hook (rr_topics r @ map (resolve \<circ> meta_of) topics) s
        in Some (err, reopened r topics c, s))"
proof -
  have "c \<noteq> []" using length_session_prefix [of topics os] by (auto simp: assms(1) wire_sizes)
  then show ?thesis
    using parse_session_file [OF assms, of r]
    by (simp add: RecordReader_Open_def readable_def reopened_def Let_def split: option.split prod.split)
qed

lemma Open_session_file:
  assumes "c = session_prefix topics os @ body" and "length topics < 2 ^ 32" and "length c < 2 ^ 63"
  shows "RecordReader_Open (readable c) on_topic RecordReader_init s = (case on_topic of
      None \<Rightarrow> Some (None, opened_reader topics c, s)
    | Some hook \<Rightarrow> let (err, s) = run_hook hook (map (resolve \<circ> meta_of) topics) s in Some (err, opened_reader topics c, s))"
  using Open_session_again [OF assms, of on_topic RecordReader_init s]
  by (cases on_topic) (simp_all add: reopened_init)

text \<open>The records of a session file are those of its record area.\<close>

lemma Run_session_file:
  assumes c: "c = session_prefix topics os @ body" and len: "length c < 2 ^ 63" and "wakes ck"
    and "cb_sound c (rr_by_id (opened_reader topics c)) cb app"
    and p: "parse_records (rr_by_id (opened_reader topics c)) (length (session_prefix topics os)) body = (es, why)"
  shows "\<exists>ck'. RecordReader_Run cb (opened_reader topics c) ck s = Some (why, word_of_nat (length es), ck', fold app es s)
    \<and> ck_deadlines ck' = ck_deadlines ck @ schedule (anchored Timeline_init (fst (MonotonicNowNs ck)) es) es"
proof -
  let ?o = "length (session_prefix topics os)"
  have "parse_records (rr_by_id (opened_reader topics c)) ?o (drop ?o c) = (es, why)" using p by (simp add: c)
  moreover have "?o \<le> length c" by (simp add: c)
  ultimately show ?thesis
    using walk_refines [OF len assms(4) _ assms(3), of ?o es why True Timeline_init 0 s]
    by (simp add: RecordReader_Run_def run_loop_walk_loop opened_reader_def length_session_prefix)
qed

section \<open>Files of the generic recorder\<close>

lemma index_topics_range:
  "index_topics ts m t = Some x \<Longrightarrow> (x \<in> set ts \<and> rt_topic_id x = t) \<or> m t = Some x"
  by (induction ts arbitrary: m) (force simp: index_topics_def split: if_splits)+

context recordable
begin

lemma resolved_topic:
  "rt_topic_id (resolve (meta_of (topic_info T))) = tt_id16 T"
  "unat (rt_wire_size (resolve (meta_of (topic_info T)))) = tt_wire_size T"
  "rt_name (resolve (meta_of (topic_info T))) = tt_topicName T"
proof -
  let ?nm = "tt_topicName T"
  have "\<forall>c \<in> set ?nm. c \<noteq> 0" using name_ok(1) by blast
  then have nm: "take 31 (takeWhile (\<lambda>c. c \<noteq> 0) ?nm) = ?nm"
    using name_ok(2) by (simp add: takeWhile_eq_all_conv [THEN iffD2])
  then have "tm_name (meta_of (topic_info T)) = ?nm @ replicate (32 - length ?nm) 0"
    by (simp add: meta_of_name topic_info_def)
  moreover have "c_string (?nm @ replicate (32 - length ?nm) 0) = Some ?nm"
    using name_ok by (simp add: c_strlen_padded)
  ultimately show "rt_name (resolve (meta_of (topic_info T))) = ?nm"
    by (simp add: resolve_def c_string_def split: if_splits)
  show "rt_topic_id (resolve (meta_of (topic_info T))) = tt_id16 T"
    "unat (rt_wire_size (resolve (meta_of (topic_info T)))) = tt_wire_size T"
    by (simp_all add: resolve_def meta_of_def topic_info_def TopicMetaEntry_init_def size32)
qed

end

context topic_pack
begin

lemma resolved_ids:
  assumes "set Us \<subseteq> set Ts"
  shows "map rt_topic_id (map (resolve \<circ> meta_of) (map topic_info Us)) = map tt_id16 Us"
  using assms recordable.resolved_topic(1) [OF each] by auto

lemma pack_lookup:
  assumes "set Us \<subseteq> set Ts" and "distinct Us" and "T \<in> set Us"
  shows "rr_by_id (opened_reader (map topic_info Us) c) (tt_id16 T) = Some (resolve (meta_of (topic_info T)))"
proof -
  let ?ts = "map (resolve \<circ> meta_of) (map topic_info Us)"
  have "inj_on tt_id16 (set Us)" using same_topic assms(1) by (intro inj_onI) blast
  then have "distinct (map rt_topic_id ?ts)"
    unfolding resolved_ids [OF assms(1)] using assms(2) by (simp add: distinct_map)
  from index_topics_distinct [OF this, of "resolve (meta_of (topic_info T))" Map.empty] assms
  show ?thesis using recordable.resolved_topic(1) [OF each, of T] by (auto simp: opened_reader_def)
qed

lemma pack_known:
  assumes "set Us \<subseteq> set Ts" and "rr_by_id (opened_reader (map topic_info Us) c) t = Some topic"
  shows "known Ts topic \<and> rt_topic_id topic = t"
proof -
  from assms(2) have "topic \<in> set (map (resolve \<circ> meta_of) (map topic_info Us)) \<and> rt_topic_id topic = t"
    using index_topics_range by (fastforce simp: opened_reader_def)
  then obtain T where T: "T \<in> set Ts" "topic = resolve (meta_of (topic_info T))" "rt_topic_id topic = t"
    using assms(1) by auto
  have "known Ts topic"
    unfolding known_def T(2) using recordable.resolved_topic [OF each [OF T(1)]] by (intro bexI [OF _ T(1)] conjI)
  with T(3) show ?thesis by simp
qed

lemma samples_conform:
  assumes "set Us \<subseteq> set Ts" and "distinct Us" and "\<forall>(T, s) \<in> set ss. T \<in> set Us"
  shows "list_all (conforms (rr_by_id (opened_reader (map topic_info Us) c))) (map entry_of ss)"
proof -
  have "conforms (rr_by_id (opened_reader (map topic_info Us) c)) (entry_of (T, s))" if T: "T \<in> set Us" for T s
  proof -
    have "T \<in> set Ts" using T assms(1) by blast
    with recordable.resolved_topic(2) [OF each] recordable.layout_size [OF each] pack_lookup [OF assms(1,2) T]
    show ?thesis by (simp add: conforms_def sample_entry_def)
  qed
  with assms(3) show ?thesis by (auto simp: list_all_iff)
qed

lemma replay_file:
  assumes "set Us \<subseteq> set Ts" and "distinct Us" and "\<forall>(T, s) \<in> set ss. T \<in> set Us"
    and "c = session_prefix (map topic_info Us) os @ records_bytes (map entry_of ss)"
    and "length c < 2 ^ 63" and "wakes ck"
  shows "\<exists>ck'. RecordReader_Run (OnRecord publish Ts) (opened_reader (map topic_info Us) c) ck s
      = Some (EndOfData, word_of_nat (length ss), ck', fold (republish publish Ts) (map entry_of ss) s)
    \<and> ck_deadlines ck' = ck_deadlines ck
        @ schedule (anchored Timeline_init (fst (MonotonicNowNs ck)) (map entry_of ss)) (map entry_of ss)"
proof -
  have "parse_records (rr_by_id (opened_reader (map topic_info Us) c)) (length (session_prefix (map topic_info Us) os))
      (records_bytes (map entry_of ss)) = (map entry_of ss, EndOfData)"
    using parse_records_roundtrip [OF samples_conform [OF assms(1-3)], of "[]"] by (simp add: wire_sizes)
  moreover have "cb_sound c (rr_by_id (opened_reader (map topic_info Us) c)) (OnRecord publish Ts) (republish publish Ts)"
    by (rule OnRecord_sound) (rule pack_known [OF assms(1)])
  ultimately show ?thesis using Run_session_file [OF assms(4-6), of _ _ "map entry_of ss" EndOfData s] by simp
qed

end

section \<open>From samples to publications\<close>

text \<open>The recorder's traits list has one topic; what a recorded sample of it is published as.\<close>

lemma joy_republish:
  assumes "\<forall>(T, s) \<in> set ss. T \<in> set (AllTopics v0)"
  shows "fold (republish publish (AllTopics v0)) (map (\<lambda>(T, s). sample_entry T s (joy_layout (sm_value s))) ss) (sys, w)
    = (sys, fold (\<lambda>(T, s). publish (gp_pubs sys 0) (joy_copy v0 (sm_value s)) (sm_stamp_ns s)) ss w)"
  using assms
proof (induction ss arbitrary: w)
  case Nil
  then show ?case by simp
next
  case (Cons a ss)
  obtain T s where a: "a = (T, s)" by force
  with Cons.prems have T: "T = JoyTraits v0" by (simp add: AllTopics_def)
  have "republish publish (AllTopics v0) (sample_entry T s (joy_layout (sm_value s))) (sys, w)
      = (sys, publish (gp_pubs sys 0) (joy_copy v0 (sm_value s)) (sm_stamp_ns s) w)"
    using all_topics.republish_sample [of 0 v0 publish "sm_stamp_ns s" "sm_seq s" "sm_value s" sys w]
    by (simp add: AllTopics_def T sample_entry_def)
  with Cons a show ?case by simp
qed

abbreviation joy_entry :: "'a JoyMsgs_scheme TopicTraits \<times> 'a JoyMsgs_scheme Sample \<Rightarrow> entry" where
  "joy_entry \<equiv> \<lambda>(T, s). sample_entry T s (joy_layout (sm_value s))"

text \<open>The topics table of a recording of the joystick topic, and its index.\<close>

abbreviation joy_table :: "'a JoyMsgs_scheme \<Rightarrow> TopicInfo list" where
  "joy_table v0 \<equiv> map topic_info (AllTopics v0)"

abbreviation joy_index :: "'a JoyMsgs_scheme \<Rightarrow> (u16 \<rightharpoonup> ResolvedTopic)" where
  "joy_index v0 \<equiv> rr_by_id (opened_reader (joy_table v0) [])"

lemma opened_reader_index: "rr_by_id (opened_reader topics c) = rr_by_id (opened_reader topics [])"
  by (simp add: opened_reader_def)

lemma joy_conforms:
  assumes "\<forall>(T, s) \<in> set ss. T \<in> set (AllTopics v0)"
  shows "list_all (conforms (joy_index v0)) (map joy_entry ss)"
  using all_topics.samples_conform [of "AllTopics v0" v0 ss "[]"] assms by (simp add: AllTopics_def)

lemma joy_hook:
  assumes "advertise (lit ''/joy'') \<lparr>po_plane = Local\<rparr> rt = (Some pub, rt1)"
  shows "run_hook (OnTopicFound advertise (AllTopics v0)) (map (resolve \<circ> meta_of) (joy_table v0)) (sys, rt)
    = (None, sys\<lparr>gp_pubs := (gp_pubs sys)(0 := pub)\<rparr>, rt1)"
  using joy_topic.resolved_topic [of v0] assms by (simp add: AllTopics_def OnTopicFound_def TryAdvertise_def)

text \<open>The replayer on a file whose header and table are intact, whatever follows them.\<close>

lemma replayer_on_bytes:
  assumes "c = session_prefix (joy_table v0) os @ body" and "length c < 2 ^ 63" and "wakes ck"
    and "advertise (lit ''/joy'') \<lparr>po_plane = Local\<rparr> rt = (Some pub, rt1)" and "fs path = readable c"
    and "fst (parse_records (joy_index v0) (length (session_prefix (joy_table v0) os)) body) = es"
  shows "replayer_main advertise publish (AllTopics v0) True fs [path] ck sys rt
    = Some (0, fold (republish publish (AllTopics v0)) es (sys\<lparr>gp_pubs := (gp_pubs sys)(0 := pub)\<rparr>, rt1))"
proof -
  let ?sys = "sys\<lparr>gp_pubs := (gp_pubs sys)(0 := pub)\<rparr>" and ?r = "opened_reader (joy_table v0) c"
  obtain why where p: "parse_records (rr_by_id ?r) (length (session_prefix (joy_table v0) os)) body = (es, why)"
    using assms(6) unfolding opened_reader_index [of "joy_table v0" c]
    by (cases "parse_records (joy_index v0) (length (session_prefix (joy_table v0) os)) body") simp
  then have "why \<noteq> Faulted"
    using parse_records_no_fault [of "rr_by_id ?r" "length (session_prefix (joy_table v0) os)" body] by auto
  have "cb_sound c (rr_by_id ?r) (OnRecord publish (AllTopics v0)) (republish publish (AllTopics v0))"
    by (rule all_topics.OnRecord_sound) (rule all_topics.pack_known [OF order_refl])
  from Run_session_file [OF assms(1-3) this p, of "(?sys, rt1)"] obtain ck' where
    run: "RecordReader_Run (OnRecord publish (AllTopics v0)) ?r ck (?sys, rt1)
      = Some (why, word_of_nat (length es), ck', fold (republish publish (AllTopics v0)) es (?sys, rt1))"
    by auto
  have op: "RecordReader_Open (fs path) (Some (OnTopicFound advertise (AllTopics v0))) RecordReader_init (sys, rt)
      = Some (None, ?r, ?sys, rt1)"
    using Open_session_file [OF assms(1) _ assms(2), of "Some (OnTopicFound advertise (AllTopics v0))" "(sys, rt)"]
      joy_hook [of advertise rt pub rt1 v0 sys, OF assms(4)] assms(5)
    by (simp add: AllTopics_def)
  have "RecordReader_Topics ?r \<noteq> []" by (simp add: RecordReader_Topics_def opened_reader_def AllTopics_def)
  with op run \<open>why \<noteq> Faulted\<close> show ?thesis
    by (simp add: replayer_main_def GenericReplayer_OnSetup_def)
qed

lemma replayer_on_file:
  assumes "c = session_prefix (joy_table v0) os @ body" and "length c < 2 ^ 63" and "wakes ck"
    and "advertise (lit ''/joy'') \<lparr>po_plane = Local\<rparr> rt = (Some pub, rt1)" and "fs path = readable c"
    and "fst (parse_records (joy_index v0) (length (session_prefix (joy_table v0) os)) body) = map joy_entry ss"
    and "\<forall>(T, s) \<in> set ss. T \<in> set (AllTopics v0)"
  shows "replayer_main advertise publish (AllTopics v0) True fs [path] ck sys rt
    = Some (0, sys\<lparr>gp_pubs := (gp_pubs sys)(0 := pub)\<rparr>,
        fold (\<lambda>(T, s). publish pub (joy_copy v0 (sm_value s)) (sm_stamp_ns s)) ss rt1)"
proof -
  have "replayer_main advertise publish (AllTopics v0) True fs [path] ck sys rt = Some (0,
      fold (republish publish (AllTopics v0)) (map joy_entry ss) (sys\<lparr>gp_pubs := (gp_pubs sys)(0 := pub)\<rparr>, rt1))"
    by (rule replayer_on_bytes) (rule assms)+
  then show ?thesis
    using joy_republish [OF assms(7), of publish "sys\<lparr>gp_pubs := (gp_pubs sys)(0 := pub)\<rparr>" rt1] by simp
qed

lemma joy_republish_bytes:
  assumes "DecodePayload pl 0 v0 = Some v"
  shows "republish publish (AllTopics v0) (4, st, sq, pl) (sys, w) = (sys, publish (gp_pubs sys 0) v st w)"
  using assms by (simp add: republish_def OnRecord_def AllTopics_def DispatchOne_def)

lemma joy_enabled_table:
  assumes "GenericRecorder_OnSetup subscribe (AllTopics v0) (GenericRecorderSystem_init config) rt = (True, system, rt')"
    and "IsEnabled (JoyTraits v0) config"
  shows "EnabledTopics system = joy_table v0"
  using setup_fold [OF assms(1) [unfolded GenericRecorder_OnSetup_def]] assms(2)
  by (auto simp: EnabledTopics_def GenericRecorderSystem_init_def AllTopics_def)

section \<open>Files that end inside the header or the table\<close>

lemma session_prefix_cut:
  assumes n: "n < length (session_prefix topics os)" and c: "c = take n (session_prefix topics os)"
    and len: "kFileHeaderWireSize \<le> n" and m: "length topics < 2 ^ 32" and small: "n < 2 ^ 63"
  shows "\<exists>r'. ParseHeaderAndMetadata (r\<lparr>rr_file_size := length c, rr_base := Some c\<rparr>) = Some (Some TruncatedMetadata, r')"
proof -
  let ?ms = "map meta_of topics" and ?k = "(n - kFileHeaderWireSize) div kTopicMetaWireSize"
  let ?hd = "FileHeader_layout (header_of topics os)" and ?tab = "\<lambda>ms. concat (map TopicMetaEntry_layout ms)"
  have hlen: "length ?hd = kFileHeaderWireSize" by (simp add: fh.layout_length)
  have valid: "\<forall>m \<in> set ms. padded_name (tm_name m)" if "set ms \<subseteq> set ?ms" for ms
    using that meta_of_valid by auto
  have lc: "length c = n" using n c by simp
  have k: "?k < length ?ms" using n len
    by (auto simp: length_session_prefix less_mult_imp_div_less less_diff_conv2)
  have klen: "length (?tab (take ?k ?ms)) = ?k * kTopicMetaWireSize"
    using tm.table_length [OF valid [OF set_take_subset [of ?k ?ms]]] k by simp
  have kn: "kFileHeaderWireSize + ?k * kTopicMetaWireSize \<le> n"
    using len div_times_less_eq_dividend [of "n - kFileHeaderWireSize" kTopicMetaWireSize] by linarith
  have split: "c = ?hd @ take (n - kFileHeaderWireSize) (?tab ?ms)"
    using len hlen by (simp add: c session_prefix_def)
  have tabs: "?tab ?ms = ?tab (take ?k ?ms) @ ?tab (drop ?k ?ms)"
    by (metis append_take_drop_id concat_append map_append)
  have "c = ?hd @ ?tab (take ?k ?ms) @ take (n - kFileHeaderWireSize - ?k * kTopicMetaWireSize) (?tab (drop ?k ?ms))"
    using kn klen len unfolding split tabs by simp
  then have loc: "located c 0 ?hd" "located c kFileHeaderWireSize (?tab (take ?k ?ms))"
    using hlen located_mid [of 0 "[]" ?hd] located_mid [of kFileHeaderWireSize ?hd "?tab (take ?k ?ms)"] by auto
  have over: "length c < kFileHeaderWireSize + Suc ?k * kTopicMetaWireSize"
    using len lc dividend_less_div_times [of kTopicMetaWireSize "n - kFileHeaderWireSize"] by (simp add: wire_sizes)
  obtain r' where "parse_topics (length ?ms) kFileHeaderWireSize c (r\<lparr>rr_file_size := length c, rr_base := Some c\<rparr>)
      = Some (Some TruncatedMetadata, r')"
    using parse_topics_cut [OF valid [OF order_refl] k loc(2) over, of "r\<lparr>rr_file_size := length c, rr_base := Some c\<rparr>"] small lc
    by auto
  moreover have "FileHeader_accept c 0 = Some (header_of topics os)" by (rule fh.deser_layout [OF TrueI loc(1)])
  then have "FileHeader_Deserialize c 0 FileHeader_init = Some (True, header_of topics os)"
    by (auto simp: FileHeader_accept_def split: option.splits bool.splits)
  moreover have "unat (fh_topic_count (header_of topics os)) = length topics" "fh_version (header_of topics os) = kFormatVersion"
    using m by (simp_all add: header_of_def FileHeader_init_def unsigned_of_nat take_bit_eq_mod)
  ultimately show ?thesis using len lc by (simp add: ParseHeaderAndMetadata_def)
qed

section \<open>Arbitrary files\<close>

context topic_pack
begin

lemma opened_known:
  assumes "table_read n kFileHeaderWireSize c (RecordReader_init\<lparr>rr_file_size := length c, rr_base := Some c\<rparr>) r"
    and "\<forall>t \<in> set (rr_topics r). known Ts t" and "rr_by_id r t = Some topic"
  shows "known Ts topic \<and> rt_topic_id topic = t"
  using assms index_topics_range [of _ Map.empty t topic] by (auto simp: table_read_def RecordReader_init_def)

lemma Run_opened:
  assumes "table_read n kFileHeaderWireSize c (RecordReader_init\<lparr>rr_file_size := length c, rr_base := Some c\<rparr>) r"
    and "\<forall>t \<in> set (rr_topics r). known Ts t" and "length c < 2 ^ 63" and "wakes ck"
  shows "\<exists>why played ck' s'. RecordReader_Run (OnRecord publish Ts) r ck s = Some (why, played, ck', s') \<and> why \<noteq> Faulted"
proof -
  have r: "rr_base r = Some c" "rr_file_size r = length c" "rr_records_start_offset r \<le> length c"
    using assms(1) by (auto simp: table_read_def)
  have sound: "cb_sound c (rr_by_id r) (OnRecord publish Ts) (republish publish Ts)"
    by (rule OnRecord_sound) (rule opened_known [OF assms(1,2)])
  obtain es why where p: "parse_records (rr_by_id r) (rr_records_start_offset r) (drop (rr_records_start_offset r) c) = (es, why)"
    by force
  then have "why \<noteq> Faulted"
    using parse_records_no_fault [of "rr_by_id r" "rr_records_start_offset r" "drop (rr_records_start_offset r) c"] by auto
  with walk_refines [OF assms(3) sound r(3) assms(4) p, of True Timeline_init 0 s] r show ?thesis
    by (auto simp: RecordReader_Run_def run_loop_walk_loop)
qed

lemma replayer_total:
  assumes "\<forall>n. names_terminated n kFileHeaderWireSize (fv_content (fs path))" and "length (fv_content (fs path)) < 2 ^ 63"
    and "wakes ck"
  shows "\<exists>code s'. replayer_main advertise publish Ts True fs [path] ck sys w = Some (code, s') \<and> (code = 0 \<or> code = 1)"
proof -
  let ?c = "fv_content (fs path)" and ?fv = "fs path"
  let ?r = "RecordReader_init\<lparr>rr_file_size := length ?c, rr_base := Some ?c\<rparr>"
  obtain err r where e: "ParseHeaderAndMetadata ?r = Some (err, r)"
    "err = None \<longrightarrow> (\<exists>n. table_read n kFileHeaderWireSize ?c ?r r)"
    using parse_header_total [of ?c ?r] assms(1,2) by auto
  show ?thesis
  proof (cases "fv_open_ok ?fv \<and> fv_fstat_ok ?fv \<and> fv_mmap_ok ?fv \<and> ?c \<noteq> [] \<and> err = None")
    case False
    with e(1) show ?thesis
      by (auto simp: replayer_main_def RecordReader_Open_def GenericReplayer_OnSetup_def Let_def)
  next
    case True
    obtain herr hs where h: "run_hook (OnTopicFound advertise Ts) (rr_topics r) (sys, w) = (herr, hs)" by (metis surj_pair)
    have op: "RecordReader_Open ?fv (Some (OnTopicFound advertise Ts)) RecordReader_init (sys, w) = Some (herr, r, hs)"
      using True e(1) h by (simp add: RecordReader_Open_def Let_def)
    show ?thesis
    proof (cases "herr = None \<and> rr_topics r \<noteq> []")
      case False
      with op show ?thesis
        by (cases hs) (auto simp: replayer_main_def GenericReplayer_OnSetup_def RecordReader_Topics_def)
    next
      case ok: True
      with h have "\<forall>t \<in> set (rr_topics r). known Ts t" using run_hook_known [of advertise Ts "rr_topics r" "(sys, w)" hs] by blast
      moreover obtain n where "table_read n kFileHeaderWireSize ?c ?r r" using True e(2) by blast
      ultimately obtain why played ck' s' where
        "RecordReader_Run (OnRecord publish Ts) r ck hs = Some (why, played, ck', s')" "why \<noteq> Faulted"
        using Run_opened [OF _ _ assms(2,3)] by blast
      with op ok show ?thesis
        by (cases s') (simp add: replayer_main_def GenericReplayer_OnSetup_def RecordReader_Topics_def)
    qed
  qed
qed

end

end
