(* ===== verification/Torn_Record.thy ===== *)
theory Torn_Record
  imports Record_Roundtrip
begin

text \<open>
  What a failed payload write (a full disk, say) in \<open>RecordWriter::WriteRecord\<close> does to a replay. The
  writer thread ignores the result, so the next record's bytes follow the orphaned header; the
  reader takes them as the payload of the first record, and the replayer publishes what they decode to.
\<close>

section \<open>How the reader sees a torn record\<close>

text \<open>The bytes taken as the payload of the torn record: the next record's header and the first bytes
  of its payload.\<close>

definition misread :: "entry \<Rightarrow> bytes" where
  "misread e2 = RecordHeader_layout (entry_header e2) @ take 4 (entry_payload e2)"

lemma length_RecordHeader_layout [simp]: "length (RecordHeader_layout h) = 18"
  using rh.layout_length [of h] by (simp add: wire_sizes)

lemma torn_bytes:
  "RecordHeader_layout (entry_header (t, st, sq, pl)) @ record_bytes e2 = record_bytes (t, st, sq, misread e2) @ drop 4 (entry_payload e2)"
  by (simp add: record_bytes_def misread_def entry_header_def entry_payload_def)

lemma joy_conforms_bytes:
  assumes "length pl = 22"
  shows "conforms (joy_index v0) (4, st, sq, pl)"
  using joy_conforms [of "[(JoyTraits v0, \<lparr>sm_value = v0, sm_stamp_ns = 0, sm_seq = 0\<rparr>)]" v0] assms
  by (simp add: AllTopics_def conforms_def sample_entry_def split: option.splits)

lemma short_record_ignored:
  assumes "length bs = 18"
  shows "fst (parse_records (joy_index v0) offset bs) = []"
proof -
  obtain h where h: "RecordHeader_Deserialize bs 0 RecordHeader_init = Some h"
    using rh.deser_total [of 0 bs] assms by (auto simp: wire_sizes)
  have "unat (rt_wire_size topic) = 22" if "joy_index v0 t = Some topic" for t topic
    using all_topics.pack_known [OF order_refl that] by (simp add: known_def AllTopics_def)
  with h assms show ?thesis
    by (cases "joy_index v0 (rh_topic_id h)") (simp_all add: parse_records.simps wire_sizes)
qed

lemma torn_parse:
  assumes "\<forall>(T, s) \<in> set ss. T \<in> set (AllTopics v0)" and "length (entry_payload e2) = 22"
  shows "fst (parse_records (joy_index v0) offset
      (records_bytes (map joy_entry ss) @ RecordHeader_layout (entry_header (4, st, sq, pl)) @ record_bytes e2))
    = map joy_entry ss @ [(4, st, sq, misread e2)]"
proof -
  let ?es = "map joy_entry ss @ [(4, st, sq, misread e2)]"
  have "length (misread e2) = 22" using assms(2) by (simp add: misread_def)
  then have conf: "list_all (conforms (joy_index v0)) ?es" using joy_conforms [OF assms(1)] joy_conforms_bytes by simp
  have "records_bytes (map joy_entry ss) @ RecordHeader_layout (entry_header (4, st, sq, pl)) @ record_bytes e2
      = records_bytes ?es @ drop 4 (entry_payload e2)"
    by (simp only: torn_bytes) simp
  then show ?thesis
    using parse_records_append [OF conf, of offset "drop 4 (entry_payload e2)"]
      short_record_ignored [of "drop 4 (entry_payload e2)"] assms(2) by (simp del: map_append concat_append)
qed

section \<open>What it decodes to\<close>

lemma misread_decodes:
  assumes "entry_payload e2 = joy_layout b"
  shows "\<exists>v. DecodePayload (misread e2) 0 dst = Some v
    \<and> [joy_button3 v, joy_button4 v, joy_button5 v, joy_button6 v]
      = map (\<lambda>i. (ucast (drop_bit (8 * i) (joy_timestamp b)) :: u8) \<noteq> 0) [0, 1, 2, 3]"
proof -
  have len: "length (misread e2) = 22" using assms by (simp add: misread_def)
  then obtain v where v: "DecodePayload (misread e2) 0 dst = Some v" using DecodePayload_total [of 0 "misread e2" dst] by auto
  have "get_byte (misread e2) (18 + i) = Some (ucast (drop_bit (8 * i) (joy_timestamp b)))" if "i < 4" for i
    using that len by (simp add: get_byte_def misread_def assms joy_layout_def nth_append le_nth)
  from this [of 0] this [of 1] this [of 2] this [of 3] v show ?thesis
    by (auto simp: DecodePayload_def bind_eq_Some_conv)
qed

section \<open>Properties\<close>

text \<open>C16: A failed write makes the replayer publish a message nobody sent. The file so far is a proper recording
  of the samples \<open>ss\<close>; the payload write of sample \<open>a\<close> fails and the disk then works again, so sample
  \<open>b\<close> is appended. The replayer reports success and publishes \<open>ss\<close>, then, under the stamp of
  \<open>a\<close>, a message that is neither \<open>a\<close> nor \<open>b\<close>: its buttons 3 to 6 are pressed as the low bytes of
  \<open>b\<close>'s timestamp are non-zero. Sample \<open>b\<close> itself is never published.\<close>

theorem write_error_forges_message:
  assumes "ring_inv ring_exponent (rw_ring w)" and "out_wf (rw_rec w)" and "0 \<le> rw_bin_fd w"
    and "ring_queue ring_exponent (rw_ring w) = map (\<lambda>s. sample_entry (JoyTraits v0) s (joy_layout (sm_value s))) [a, b]"
    and "fails_after_header (rw_os w)"
    and "os_file (rw_os w) = session_prefix (map topic_info (AllTopics v0)) os
           @ records_bytes (map (\<lambda>(T, s). sample_entry T s (joy_layout (sm_value s))) ss)"
    and "\<forall>(T, s) \<in> set ss. T \<in> set (AllTopics v0)" and "length (os_file (rw_os w)) < 2 ^ 62" and "wakes ck"
    and "advertise (lit ''/joy'') \<lparr>po_plane = Local\<rparr> rt = (Some pub, rt1)"
  shows "\<exists>w1 w2 v. drain_step w = Some (True, w1) \<and> drain_step w1 = Some (True, w2)
    \<and> replayer_main advertise publish (AllTopics v0) True (\<lambda>_. readable (os_file (rw_os w2))) [path] ck sys rt
      = Some (0, sys\<lparr>gp_pubs := (gp_pubs sys)(0 := pub)\<rparr>, publish pub v (sm_stamp_ns a)
          (fold (\<lambda>(T, s). publish pub (joy_copy v0 (sm_value s)) (sm_stamp_ns s)) ss rt1))
    \<and> [joy_button3 v, joy_button4 v, joy_button5 v, joy_button6 v]
      = map (\<lambda>i. (ucast (drop_bit (8 * i) (joy_timestamp (sm_value b))) :: u8) \<noteq> 0) [0, 1, 2, 3]"
proof -
  let ?e = "\<lambda>s. sample_entry (JoyTraits v0) s (joy_layout (sm_value s))"
  let ?sys = "sys\<lparr>gp_pubs := (gp_pubs sys)(0 := pub)\<rparr>"
  have e: "?e a = (4, sm_stamp_ns a, sm_seq a, joy_layout (sm_value a))" "entry_payload (?e s) = joy_layout (sm_value s)" for s
    by (simp_all add: sample_entry_def entry_payload_def)
  have "entry_payload (?e a) \<noteq> []" by (simp only: e(2)) (metis length_joy_layout list.size(3) zero_neq_numeral)
  moreover have "queued w = ?e a # ?e b # []" using assms(4) by simp
  ultimately obtain w1 w2 where
    w: "drain_step w = Some (True, w1)" "drain_step w1 = Some (True, w2)"
      "file_of w2 = file_of w @ RecordHeader_layout (entry_header (?e a)) @ record_bytes (?e b)"
    using drain_torn [OF assms(1-3) _ _ assms(5)] by blast
  obtain v where v: "DecodePayload (misread (?e b)) 0 v0 = Some v"
    "[joy_button3 v, joy_button4 v, joy_button5 v, joy_button6 v]
      = map (\<lambda>i. (ucast (drop_bit (8 * i) (joy_timestamp (sm_value b))) :: u8) \<noteq> 0) [0, 1, 2, 3]"
    using misread_decodes [OF e(2) [of b], of v0] by (elim exE conjE)
  let ?body = "records_bytes (map joy_entry ss) @ RecordHeader_layout (entry_header (?e a)) @ record_bytes (?e b)"
  have f: "file_of w2 = session_prefix (joy_table v0) os @ ?body" using w(3) assms(6) by simp
  have len: "length (file_of w2) < 2 ^ 63"
    using assms(8) w(3) length_record_bytes [of "?e b"] by (simp add: e(2) wire_sizes)
  have "length (entry_payload (?e b)) = 22" by (simp add: e(2))
  from torn_parse [OF assms(7) this, of "length (session_prefix (joy_table v0) os)" "sm_stamp_ns a" "sm_seq a" "joy_layout (sm_value a)"]
  have parse: "fst (parse_records (joy_index v0) (length (session_prefix (joy_table v0) os)) ?body)
      = map joy_entry ss @ [(4, sm_stamp_ns a, sm_seq a, misread (?e b))]"
    unfolding e(1) .
  have "replayer_main advertise publish (AllTopics v0) True (\<lambda>_. readable (file_of w2)) [path] ck sys rt = Some (0,
      fold (republish publish (AllTopics v0)) (map joy_entry ss @ [(4, sm_stamp_ns a, sm_seq a, misread (?e b))]) (?sys, rt1))"
    by (rule replayer_on_bytes [OF f len assms(9) _ _ parse]) (rule assms(10), rule refl)
  also have "\<dots> = Some (0, ?sys, publish pub v (sm_stamp_ns a)
      (fold (\<lambda>(T, s). publish pub (joy_copy v0 (sm_value s)) (sm_stamp_ns s)) ss rt1))"
    using joy_republish [OF assms(7), of publish ?sys rt1] joy_republish_bytes [OF v(1), of publish "sm_stamp_ns a" "sm_seq a" ?sys] by simp
  finally show ?thesis using w(1,2) v(2) by (intro exI [of _ w1] exI [of _ w2] exI [of _ v] conjI)
qed

theorem write_error_forges_message_witness:
  "\<exists>w w1 w2 v. drain_step w = Some (True, w1) \<and> drain_step w1 = Some (True, w2)
    \<and> replayer_main (\<lambda>_ _ log. (Some True, log)) (\<lambda>pub m st log. log @ [(pub, m, st)]) (AllTopics JoyMsgs_init) True
        (\<lambda>_. readable (os_file (rw_os w2))) [lit ''a.bin''] jumpy_clock \<lparr>gp_pubs = (\<lambda>_. False)\<rparr> []
      = Some (0, \<lparr>gp_pubs = (\<lambda>_. False)(0 := True)\<rparr>, [(True, v, 1000)]) \<and> joy_button3 v"
proof -
  let ?a = "\<lparr>sm_value = JoyMsgs_init, sm_stamp_ns = 1000, sm_seq = 0\<rparr> :: JoyMsgs Sample"
  let ?b = "\<lparr>sm_value = JoyMsgs_init\<lparr>joy_timestamp := 1\<rparr>, sm_stamp_ns = 2000, sm_seq = 1\<rparr> :: JoyMsgs Sample"
  let ?e = "\<lambda>s. sample_entry (JoyTraits JoyMsgs_init) s (joy_layout (sm_value s))"
  have "\<forall>e \<in> set (map ?e [?a, ?b]). fits e" "length (map ?e [?a, ?b]) \<le> 2 ^ ring_exponent"
    by (simp_all add: fits_def sample_entry_def wire_sizes ring_exponent_def)
  then obtain rb where rb: "ring_inv ring_exponent rb" "ring_queue ring_exponent rb = map ?e [?a, ?b]"
    using ring_with by blast
  let ?os = "slow_disk\<lparr>os_file := session_prefix (joy_table JoyMsgs_init) slow_disk,
    os_reply := (\<lambda>i. if i = 0 then WOk 100 else if i = 1 then WErr else WOk 1)\<rparr>"
  let ?w = "fresh_writer\<lparr>rw_ring := rb, rw_bin_fd := 3, rw_os := ?os\<rparr>"
  have "fails_after_header ?os"
    by (auto simp: fails_after_header_def good_disk_def slow_disk_def wire_sizes intro: exI [of _ 100])
  moreover have "length (os_file (rw_os ?w)) < 2 ^ 62" by (simp add: length_session_prefix AllTopics_def wire_sizes)
  moreover have "out_wf (rw_rec ?w)" by (simp add: fresh_writer_def RecordWriter_init_def)
  ultimately obtain w1 w2 v where "drain_step ?w = Some (True, w1)" "drain_step w1 = Some (True, w2)"
    "replayer_main (\<lambda>_ _ log. (Some True, log)) (\<lambda>pub m st log. log @ [(pub, m, st)]) (AllTopics JoyMsgs_init) True
        (\<lambda>_. readable (os_file (rw_os w2))) [lit ''a.bin''] jumpy_clock \<lparr>gp_pubs = (\<lambda>_. False)\<rparr> []
      = Some (0, \<lparr>gp_pubs = (\<lambda>_. False)(0 := True)\<rparr>, [(True, v, 1000)])" "joy_button3 v"
    using write_error_forges_message [of ?w JoyMsgs_init ?a ?b slow_disk "[]" jumpy_clock "\<lambda>_ _ log. (Some True, log)"
        "[]" True "[]" "\<lambda>pub m st log. log @ [(pub, m, st)]" "lit ''a.bin''" "\<lparr>gp_pubs = (\<lambda>_. False)\<rparr>"] rb
    by (simp add: jumpy_clock_wakes) blast
  then show ?thesis by blast
qed

end
