(* ===== verification/Reader_Reuse.thy ===== *)
theory Reader_Reuse
  imports Record_Roundtrip
begin

text \<open>
  A \<open>RecordReader\<close> that is opened more than once. \<open>Open\<close> neither clears \<open>topics_\<close> and \<open>by_id_\<close> nor
  restores \<open>file_size_\<close> when \<open>mmap\<close> fails, so a second call works on what the first one left.
\<close>

section \<open>What a second Open keeps\<close>

lemma index_topics_other: "i \<notin> set (map rt_topic_id ts) \<Longrightarrow> index_topics ts m i = m i"
  by (induction ts arbitrary: m) (auto simp: index_topics_def)

lemma reopened_other:
  assumes "i \<notin> ti_topic_id ` set topics"
  shows "rr_by_id (reopened r topics c) i = rr_by_id r i"
proof -
  have "i \<notin> set (map rt_topic_id (map (resolve \<circ> meta_of) topics))"
    using assms by (auto simp: resolve_def meta_of_def)
  then have "index_topics (map (resolve \<circ> meta_of) topics) (rr_by_id r) i = rr_by_id r i" by (rule index_topics_other)
  then show ?thesis by (simp add: reopened_def)
qed

section \<open>A second Open that cannot map its file\<close>

text \<open>The size of the new file stays in \<open>file_size_\<close> next to the mapping of the old one.\<close>

lemma Open_unmapped:
  assumes "fv_open_ok fv" and "fv_fstat_ok fv" and "\<not> fv_mmap_ok fv"
  shows "RecordReader_Open fv on_topic r s = Some (Some MmapFailed, r\<lparr>rr_file_size := length (fv_content fv)\<rparr>, s)"
  using assms by (simp add: RecordReader_Open_def)

lemma Run_overruns:
  assumes c: "c = session_prefix topics os @ body" and "length c + kRecordHeaderWireSize \<le> n" and "n < 2 ^ 63" and "wakes ck"
    and "cb_sound c (rr_by_id (opened_reader topics c)) cb app"
    and p: "parse_records (rr_by_id (opened_reader topics c)) (length (session_prefix topics os)) body = (es, EndOfData)"
  shows "\<exists>ck'. RecordReader_Run cb ((opened_reader topics c)\<lparr>rr_file_size := n\<rparr>) ck s
    = Some (Faulted, word_of_nat (length es), ck', fold app es s)"
proof -
  let ?o = "length (session_prefix topics os)"
  have "parse_records (rr_by_id (opened_reader topics c)) ?o (drop ?o c) = (es, EndOfData)" using p by (simp add: c)
  moreover have "?o \<le> length c" by (simp add: c)
  ultimately show ?thesis
    using walk_overruns [OF assms(2,3,5) _ assms(4), of ?o es True Timeline_init 0 s]
    by (simp add: RecordReader_Run_def run_loop_walk_loop opened_reader_def length_session_prefix)
qed

text \<open>With an \<open>end\<close> inside the mapping the loop sees only the bytes before it.\<close>

lemma header_take:
  assumes "end \<le> length base" and "length base < 2 ^ 63" and "sz_add offset kRecordHeaderWireSize \<le> end"
  shows "RecordHeader_Deserialize (take end base) offset RecordHeader_init = RecordHeader_Deserialize base offset RecordHeader_init"
proof (cases "RecordHeader_Deserialize (take end base) offset RecordHeader_init")
  case None
  then have "end < offset + 18" using assms(1) by (simp add: rh.deser_None_iff wire_sizes)
  then have "2 ^ 64 \<le> offset + 18" using sz_add_exact [of offset 18] assms(3) by (fastforce simp: wire_sizes not_less [symmetric])
  then have "RecordHeader_Deserialize base offset RecordHeader_init = None" using assms(2) by (simp add: rh.deser_None_iff wire_sizes)
  with None show ?thesis by simp
next
  case (Some h)
  then have "located (take end base) offset (RecordHeader_layout h)" by (rule rh.deser_sound) simp
  then have "located base offset (RecordHeader_layout h)"
    by (auto simp: located_def drop_take min_def split: if_splits)
  then have "RecordHeader_Deserialize base offset RecordHeader_init = Some h" by (intro rh.deser_layout) simp_all
  with Some show ?thesis by simp
qed

lemma run_embeds:
  assumes "run_loop v end by_id cb' offset tln played ck s = Some res"
    and base: "end \<le> length base" "length base < 2 ^ 63" and "v = take end base" and "cb' = (\<lambda>t st sq (b, p). cb t st sq (base, p))"
  shows "run_loop base end by_id cb offset tln played ck s = Some res"
proof -
  have "v = take end base \<longrightarrow> end \<le> length base \<longrightarrow> cb' = (\<lambda>t st sq (b, p). cb t st sq (base, p)) \<longrightarrow>
      run_loop base end by_id cb offset tln played ck s = Some res"
  proof (rule run_loop.raw_induct [where P = "\<lambda>v end by_id cb' offset tln played ck s res. v = take end base \<longrightarrow> end \<le> length base \<longrightarrow>
        cb' = (\<lambda>t st sq (b, p). cb t st sq (base, p)) \<longrightarrow> run_loop base end by_id cb offset tln played ck s = Some res", OF _ assms(1)], goal_cases)
    case (1 f v "end" by_id cb' offset tln played ck s res)
    obtain why n ck' s' where res: "res = (why, n, ck', s')" by (cases res)
    show ?case
    proof (intro impI)
      assume v: "v = take end base" "end \<le> length base" "cb' = (\<lambda>t st sq (b, p). cb t st sq (base, p))"
      show "run_loop base end by_id cb offset tln played ck s = Some res"
      proof (cases "sz_add offset kRecordHeaderWireSize \<le> end")
        case True
        note same = header_take [OF v(2) base(2) True]
        from 1(2) True 1(1) v res show ?thesis
          by (subst run_loop.simps)
            (auto simp: Let_def same split: option.splits prod.splits if_splits Option.bind_splits)
      next
        case False
        with 1(2) show ?thesis by (simp add: run_loop.simps)
      qed
    qed
  qed
  with assms show ?thesis by simp
qed

lemma Run_short:
  assumes "n \<le> length c" and "length c < 2 ^ 63" and "wakes ck" and "cb_sound c (rr_by_id r) cb app" and "rr_base r = Some c"
    and "rr_records_start_offset r = start" and "start \<le> length c"
    and p: "parse_records (rr_by_id r) start (drop start (take n c)) = (es, why)"
  shows "\<exists>ck'. RecordReader_Run cb (r\<lparr>rr_file_size := n\<rparr>) ck s = Some (why, word_of_nat (length es), ck', fold app es s)"
proof (cases "start \<le> n")
  case True
  let ?v = "take n c" and ?cb = "\<lambda>t st sq (b, p). cb t st sq (c, p)"
  have sound: "cb_sound ?v (rr_by_id r) ?cb app"
    using assms(1,4) by (simp add: cb_sound_def drop_take min_def)
  have len: "length ?v = n" "length ?v < 2 ^ 63" using assms(1,2) by simp_all
  have "start \<le> length ?v" using True len(1) by simp
  from walk_refines [OF len(2) sound this assms(3) p, of True Timeline_init 0 s] obtain ck' where
    "run_loop ?v n (rr_by_id r) ?cb start Timeline_init 0 ck s = Some (why, word_of_nat (length es), ck', fold app es s)"
    unfolding run_loop_walk_loop len(1) by auto
  from run_embeds [OF this assms(1,2) refl refl] show ?thesis by (simp add: RecordReader_Run_def assms(5,6))
next
  case False
  then have "es = [] \<and> why = EndOfData"
    using p by (simp add: parse_records.simps [of _ _ "[]"] rh.deser_None_iff [THEN iffD2] wire_sizes)
  moreover have "n < sz_add start kRecordHeaderWireSize"
    using False assms(2,7) by (simp add: wire_sizes sz_add_exact)
  ultimately show ?thesis
    by (simp add: RecordReader_Run_def assms(5,6) run_loop.simps)
qed

section \<open>Properties\<close>

text \<open>C37: \<open>Open\<close> called again on a reader that has opened a recording. If it succeeds, the topics of the first file
  are still there: \<open>Topics()\<close> lists the topics of both files, the hook is asked about all of them, and
  ids that only the first file declares still resolve. If \<open>mmap\<close> fails, \<open>file_size_\<close> is already that of
  the new file while the mapping is the old one. A later \<open>Run\<close> then replays the old recording up to the new size if that is not
  the larger one (for an empty file, nothing); if the new file is longer by a record header or more and the records of the old one end
  cleanly, it replays them all and then reads past the end of the mapping.\<close>

theorem second_Open:
  assumes "cA = session_prefix topicsA osA @ bodyA" and "length topicsA < 2 ^ 32" and "length cA < 2 ^ 63"
    and "cB = session_prefix topicsB osB @ bodyB" and "length topicsB < 2 ^ 32" and "length cB < 2 ^ 63"
    and "fv_open_ok fv" and "fv_fstat_ok fv" and "\<not> fv_mmap_ok fv" and "n = length (fv_content fv)" and "n < 2 ^ 63"
  shows "\<exists>rA. RecordReader_Open (readable cA) None RecordReader_init s = Some (None, rA, s)
    \<and> (\<exists>rB. RecordReader_Open (readable cB) (Some hook) rA s
          = (let (err, s') = run_hook hook (map (resolve \<circ> meta_of) (topicsA @ topicsB)) s in Some (err, rB, s'))
        \<and> RecordReader_Topics rB = map (resolve \<circ> meta_of) (topicsA @ topicsB)
        \<and> (\<forall>i. i \<notin> ti_topic_id ` set topicsB \<longrightarrow> rr_by_id rB i = rr_by_id rA i))
    \<and> (\<exists>rC. RecordReader_Open fv (Some hook) rA s = Some (Some MmapFailed, rC, s)
        \<and> rr_file_size rC = n \<and> rr_base rC = Some cA \<and> RecordReader_Topics rC = RecordReader_Topics rA
        \<and> (\<forall>cb app ck es why. wakes ck \<and> cb_sound cA (rr_by_id rA) cb app \<and> n \<le> length cA
             \<and> parse_records (rr_by_id rA) (length (session_prefix topicsA osA)) (drop (length (session_prefix topicsA osA)) (take n cA)) = (es, why)
           \<longrightarrow> (\<exists>ck'. RecordReader_Run cb rC ck s = Some (why, word_of_nat (length es), ck', fold app es s)))
        \<and> (\<forall>cb app ck es. wakes ck \<and> cb_sound cA (rr_by_id rA) cb app \<and> length cA + kRecordHeaderWireSize \<le> n
             \<and> parse_records (rr_by_id rA) (length (session_prefix topicsA osA)) bodyA = (es, EndOfData)
           \<longrightarrow> (\<exists>ck'. RecordReader_Run cb rC ck s = Some (Faulted, word_of_nat (length es), ck', fold app es s))))"
proof -
  let ?rA = "opened_reader topicsA cA" and ?rB = "reopened (opened_reader topicsA cA) topicsB cB"
  let ?rC = "?rA\<lparr>rr_file_size := n\<rparr>"
  have rA: "rr_base ?rA = Some cA" "rr_records_start_offset ?rA = length (session_prefix topicsA osA)"
    "rr_topics ?rA = map (resolve \<circ> meta_of) topicsA" by (simp_all add: opened_reader_def length_session_prefix)
  have "RecordReader_Open (readable cA) None RecordReader_init s = Some (None, ?rA, s)"
    using Open_session_file [OF assms(1-3), of None s] by simp
  moreover have "RecordReader_Open (readable cB) (Some hook) ?rA s
      = (let (err, s') = run_hook hook (map (resolve \<circ> meta_of) (topicsA @ topicsB)) s in Some (err, ?rB, s'))"
    "RecordReader_Topics ?rB = map (resolve \<circ> meta_of) (topicsA @ topicsB)"
    using Open_session_again [OF assms(4-6), of "Some hook" ?rA s] by (simp_all add: RecordReader_Topics_def reopened_def rA(3))
  moreover have "\<forall>i. i \<notin> ti_topic_id ` set topicsB \<longrightarrow> rr_by_id ?rB i = rr_by_id ?rA i" using reopened_other by blast
  moreover have "RecordReader_Open fv (Some hook) ?rA s = Some (Some MmapFailed, ?rC, s)"
    using Open_unmapped [OF assms(7-9)] by (simp add: assms(10))
  moreover have "rr_file_size ?rC = n" "rr_base ?rC = Some cA" "RecordReader_Topics ?rC = RecordReader_Topics ?rA"
    by (simp_all add: rA RecordReader_Topics_def)
  moreover have "\<exists>ck'. RecordReader_Run cb ?rC ck s = Some (why, word_of_nat (length es), ck', fold app es s)"
    if "wakes ck \<and> cb_sound cA (rr_by_id ?rA) cb app \<and> n \<le> length cA
             \<and> parse_records (rr_by_id ?rA) (length (session_prefix topicsA osA)) (drop (length (session_prefix topicsA osA)) (take n cA)) = (es, why)"
    for cb app ck es why
    using Run_short [OF _ assms(3) _ _ rA(1,2), of n ck cb app es why s] that assms(1) by simp
  moreover have "\<exists>ck'. RecordReader_Run cb ?rC ck s = Some (Faulted, word_of_nat (length es), ck', fold app es s)"
    if "wakes ck \<and> cb_sound cA (rr_by_id ?rA) cb app \<and> length cA + kRecordHeaderWireSize \<le> n
             \<and> parse_records (rr_by_id ?rA) (length (session_prefix topicsA osA)) bodyA = (es, EndOfData)" for cb app ck es
    using Run_overruns [OF assms(1) _ assms(11), of ck cb app es s] that by blast
  ultimately show ?thesis by blast
qed

text \<open>Two files with one topic each and one record in the first; a third is longer and cannot be mapped.\<close>

definition plain_topic :: "u16 \<Rightarrow> TopicInfo" where
  "plain_topic i = \<lparr>ti_topic_id = i, ti_wire_size = 1, ti_name = []\<rparr>"

lemma plain_resolved: "(resolve \<circ> meta_of) (plain_topic i) = \<lparr>rt_topic_id = i, rt_wire_size = 1, rt_name = []\<rparr>"
  by (simp add: resolve_def meta_of_name plain_topic_def) (simp add: meta_of_def)

lemma plain_by_id: "rr_by_id (opened_reader [plain_topic 4] c) = one_topic"
  by (simp add: opened_reader_def index_topics_def plain_resolved [unfolded comp_def] one_topic_def comp_def)

theorem second_Open_witness:
  "\<exists>cA rA rB fv rC ck'. cA = session_prefix [plain_topic 4] slow_disk @ records_bytes [(4, 10, 0, [7])]
     \<and> RecordReader_Open (readable cA) None RecordReader_init ([] :: u8 list) = Some (None, rA, [])
     \<and> RecordReader_Open (readable (session_prefix [plain_topic 5] slow_disk @ [])) (Some (\<lambda>t s. (True, s))) rA ([] :: u8 list) = Some (None, rB, [])
     \<and> map rt_topic_id (RecordReader_Topics rB) = [4, 5] \<and> rr_by_id rB 4 = rr_by_id rA 4
     \<and> RecordReader_Open fv (Some (\<lambda>t s. (True, s))) rA ([] :: u8 list) = Some (Some MmapFailed, rC, []) \<and> rr_file_size rC = 200
     \<and> RecordReader_Run (\<lambda>t st sq (b, p) len s. Some (s @ [b ! p])) rC jumpy_clock [] = Some (Faulted, 1, ck', [7])"
proof -
  let ?e = "(4, 10, 0, [7]) :: entry" and ?p = "\<lambda>i. session_prefix [plain_topic i] slow_disk"
  let ?cA = "?p 4 @ records_bytes [?e]" and ?cB = "?p 5 @ []" and ?hook = "\<lambda>t s :: u8 list. (True, s)"
  let ?fv = "(readable (replicate 200 0))\<lparr>fv_mmap_ok := False\<rparr>"
  let ?cb = "\<lambda>t st sq (b, p) len s. Some (s @ [b ! p])" and ?app = "\<lambda>(t, st, sq, pl) s. s @ [hd pl]"
  have len: "length ?cA = 89" "length ?cB = 70"
    by (simp_all add: length_session_prefix length_record_bytes entry_payload_def wire_sizes)
  have side: "length [plain_topic 4] < 2 ^ 32" "length ?cA < 2 ^ 63" "length [plain_topic 5] < 2 ^ 32" "length ?cB < 2 ^ 63"
    "fv_open_ok ?fv" "fv_fstat_ok ?fv" "\<not> fv_mmap_ok ?fv" "200 = length (fv_content ?fv)" "(200 :: nat) < 2 ^ 63"
    unfolding len by simp_all
  have long: "length ?cA + kRecordHeaderWireSize \<le> 200" unfolding len by (simp add: wire_sizes)
  have "parse_records one_topic (length (?p 4)) (records_bytes [?e]) = ([?e], EndOfData)"
    using parse_records_roundtrip [of one_topic "[?e]" "[]" "length (?p 4)"] one_topic_conforms by (simp add: wire_sizes)
  moreover obtain rA rB rC where r: "RecordReader_Open (readable ?cA) None RecordReader_init ([] :: u8 list) = Some (None, rA, [])"
    "RecordReader_Open (readable ?cB) (Some ?hook) rA []
       = (let (err, s') = run_hook ?hook (map (resolve \<circ> meta_of) ([plain_topic 4] @ [plain_topic 5])) [] in Some (err, rB, s'))"
    "RecordReader_Topics rB = map (resolve \<circ> meta_of) ([plain_topic 4] @ [plain_topic 5])"
    "\<forall>i. i \<notin> ti_topic_id ` set [plain_topic 5] \<longrightarrow> rr_by_id rB i = rr_by_id rA i"
    "RecordReader_Open ?fv (Some ?hook) rA [] = Some (Some MmapFailed, rC, [])" "rr_file_size rC = 200"
    and run: "\<forall>cb app ck es. wakes ck \<and> cb_sound ?cA (rr_by_id rA) cb app \<and> length ?cA + kRecordHeaderWireSize \<le> 200
        \<and> parse_records (rr_by_id rA) (length (?p 4)) (records_bytes [?e]) = (es, EndOfData)
      \<longrightarrow> (\<exists>ck'. RecordReader_Run cb rC ck ([] :: u8 list) = Some (Faulted, word_of_nat (length es), ck', fold app es []))"
    using second_Open [OF refl side(1,2) refl side(3-9), of "[]" ?hook] by blast
  moreover have "rA = opened_reader [plain_topic 4] ?cA"
    using Open_session_file [OF refl, of "[plain_topic 4]" slow_disk "records_bytes [?e]" None "[] :: u8 list"] len r(1) by simp
  ultimately have "parse_records (rr_by_id rA) (length (?p 4)) (records_bytes [?e]) = ([?e], EndOfData)"
    "cb_sound ?cA (rr_by_id rA) ?cb ?app" using plain_by_id first_byte_sound [of ?cA] by simp_all
  with run long jumpy_clock_wakes obtain ck' where
    "RecordReader_Run ?cb rC jumpy_clock [] = Some (Faulted, word_of_nat (length [?e]), ck', fold ?app [?e] [])" by blast
  then have faults: "RecordReader_Run ?cb rC jumpy_clock [] = Some (Faulted, 1, ck', [7])" by simp
  have second: "RecordReader_Open (readable ?cB) (Some ?hook) rA [] = Some (None, rB, [])" using r(2) by simp
  have both: "map rt_topic_id (RecordReader_Topics rB) = [4, 5]" using r(3) plain_resolved by simp
  have kept: "rr_by_id rB 4 = rr_by_id rA 4" using r(4) by (simp add: plain_topic_def)
  show ?thesis
    by (rule exI [of _ ?cA], rule exI [of _ rA], rule exI [of _ rB], rule exI [of _ ?fv], rule exI [of _ rC], rule exI [of _ ck'])
      (intro conjI refl r(1) second both kept r(5,6) faults)
qed

end
