(* ===== verification/Mpsc_Concurrent.thy ===== *)
theory Mpsc_Concurrent
  imports Mpsc_Ring_Buffer
begin

text \<open>
  The ring buffer of \<open>include/chrono_cap/mpsc_ring_buffer.hpp\<close> with the calls of its threads
  interleaved access by access: a producer claims an index (\<open>fetch_add\<close>), tests \<open>ready\<close>, fills the
  slot and publishes it; the consumer tests \<open>ready\<close>, copies, clears \<open>ready\<close> and advances. While a
  producer is filling or the consumer is copying, the plain fields of the slot are being accessed,
  so two threads in these states on one slot are a data race. Accesses are taken in one global order,
  which the release/acquire pairs on \<open>ready\<close> provide for the data of a slot as long as there is no
  race. Shown: while no producer is overtaken by a whole lap of later claims there is no race and no
  record is lost, duplicated or torn; a producer that is overtaken does race, for every capacity.
\<close>

section \<open>States and steps\<close>

text \<open>Where a producer is inside \<open>TryPush\<close>, with the index it claimed and the record it carries.\<close>

datatype prod_pc =
    PIdle
  | PClaimed u64 entry  \<comment> \<open>after \<open>fetch_add\<close>\<close>
  | PFilling u64 entry  \<comment> \<open>\<open>ready\<close> was seen false; the fields are being written\<close>
  | PFilled u64 entry  \<comment> \<open>before the release store\<close>

text \<open>Where the consumer is inside \<open>TryPop\<close>.\<close>

datatype cons_pc =
    CIdle
  | CCopying  \<comment> \<open>\<open>ready\<close> was seen true; the fields are being read\<close>
  | CCopied  \<comment> \<open>before the release store\<close>
  | CCleared  \<comment> \<open>before \<open>++read_index_\<close>\<close>

record CRing =
  cr_rb :: MpscRingBuffer
  cr_prod :: "nat \<Rightarrow> prod_pc"
  cr_cons :: cons_pc
  cr_out :: PoppedRecord  \<comment> \<open>the \<open>out\<close> of the consumer's calls\<close>

definition CRing_init :: "nat \<Rightarrow> CRing" where
  "CRing_init Capacity = \<lparr>cr_rb = MpscRingBuffer_init Capacity, cr_prod = (\<lambda>_. PIdle), cr_cons = CIdle,
     cr_out = PoppedRecord_init\<rparr>"

datatype clabel = CClaim entry | CAccept entry | CReject entry | CPop entry | CTau

abbreviation slot_at :: "nat \<Rightarrow> CRing \<Rightarrow> u64 \<Rightarrow> Slot" where
  "slot_at C s idx \<equiv> rb_slots (cr_rb s) ! slot_index C idx"

text \<open>One step of producer \<open>p\<close>; when it is idle it calls \<open>TryPush\<close> with the record \<open>e0\<close>.\<close>

definition prod_step :: "nat \<Rightarrow> nat \<Rightarrow> entry \<Rightarrow> CRing \<Rightarrow> (clabel \<times> CRing) option" where
  "prod_step C p e0 s =
     (let rb = cr_rb s; goto = (\<lambda>pc. (cr_prod s)(p := pc))
      in case cr_prod s p of
        PIdle \<Rightarrow>
          if kMaxPayloadBytes < unat (word_of_nat (length (entry_payload e0)) :: u32) then Some (CReject e0, s)
          else Some (CClaim e0, s\<lparr>cr_rb := rb\<lparr>rb_write_index := rb_write_index rb + 1\<rparr>,
                           cr_prod := goto (PClaimed (rb_write_index rb) e0)\<rparr>)
      | PClaimed idx e \<Rightarrow>
          if sl_ready (slot_at C s idx)
          then Some (CReject e, s\<lparr>cr_rb := rb\<lparr>rb_dropped_count := rb_dropped_count rb + 1\<rparr>, cr_prod := goto PIdle\<rparr>)
          else Some (CTau, s\<lparr>cr_prod := goto (PFilling idx e)\<rparr>)
      | PFilling idx e \<Rightarrow> (case e of (t, st, sq, pl) \<Rightarrow> do {
          slot \<leftarrow> fill_slot t st sq pl (word_of_nat (length pl)) (slot_at C s idx);
          Some (CTau, s\<lparr>cr_rb := rb\<lparr>rb_slots := (rb_slots rb)[slot_index C idx := slot]\<rparr>,
                        cr_prod := goto (PFilled idx e)\<rparr>) })
      | PFilled idx e \<Rightarrow>
          Some (CAccept e, s\<lparr>cr_rb := rb\<lparr>rb_slots := (rb_slots rb)[slot_index C idx := (slot_at C s idx)\<lparr>sl_ready := True\<rparr>]\<rparr>,
                             cr_prod := goto PIdle\<rparr>))"

text \<open>One step of the consumer.\<close>

definition cons_step :: "nat \<Rightarrow> CRing \<Rightarrow> (clabel \<times> CRing) option" where
  "cons_step C s =
     (let rb = cr_rb s; idx = rb_read_index rb
      in case cr_cons s of
        CIdle \<Rightarrow> Some (CTau, if sl_ready (slot_at C s idx) then s\<lparr>cr_cons := CCopying\<rparr> else s)
      | CCopying \<Rightarrow> do {
          out \<leftarrow> copy_slot (slot_at C s idx) (cr_out s);
          Some (CTau, s\<lparr>cr_cons := CCopied, cr_out := out\<rparr>) }
      | CCopied \<Rightarrow> Some (CPop (popped_entry (cr_out s)),
          s\<lparr>cr_rb := rb\<lparr>rb_slots := (rb_slots rb)[slot_index C idx := (slot_at C s idx)\<lparr>sl_ready := False\<rparr>]\<rparr>,
            cr_cons := CCleared\<rparr>)
      | CCleared \<Rightarrow> Some (CTau, s\<lparr>cr_rb := rb\<lparr>rb_read_index := idx + 1\<rparr>, cr_cons := CIdle\<rparr>))"

text \<open>Any thread may take the next step; the length of a payload is a 32-bit number.\<close>

inductive conc_step :: "nat \<Rightarrow> CRing \<Rightarrow> clabel \<Rightarrow> CRing \<Rightarrow> bool" for C where
  producer: "length (entry_payload e) < 2 ^ 32 \<Longrightarrow> prod_step C p e s = Some (l, s') \<Longrightarrow> conc_step C s l s'"
| consumer: "cons_step C s = Some (l, s') \<Longrightarrow> conc_step C s l s'"

section \<open>Being overtaken, racing\<close>

text \<open>The index and the record of a call that has claimed a slot and not returned.\<close>

fun inflight :: "prod_pc \<Rightarrow> (u64 \<times> entry) option" where
  "inflight PIdle = None"
| "inflight (PClaimed idx e) = Some (idx, e)"
| "inflight (PFilling idx e) = Some (idx, e)"
| "inflight (PFilled idx e) = Some (idx, e)"

text \<open>A call is overtaken when, its own claim included, more than \<open>Capacity\<close> claims were made since.\<close>

definition overtaken :: "nat \<Rightarrow> CRing \<Rightarrow> bool" where
  "overtaken C s \<longleftrightarrow> (\<exists>p idx e. inflight (cr_prod s p) = Some (idx, e) \<and> C < unat (rb_write_index (cr_rb s) - idx))"

fun writing :: "nat \<Rightarrow> prod_pc \<Rightarrow> nat option" where
  "writing C (PFilling idx e) = Some (slot_index C idx)"
| "writing C _ = None"

text \<open>Two producers write one slot, or one writes the slot the consumer reads.\<close>

definition race :: "nat \<Rightarrow> CRing \<Rightarrow> bool" where
  "race C s \<longleftrightarrow> (\<exists>p q i. p \<noteq> q \<and> writing C (cr_prod s p) = Some i \<and> writing C (cr_prod s q) = Some i)
     \<or> (\<exists>p. cr_cons s = CCopying \<and> writing C (cr_prod s p) = Some (slot_index C (rb_read_index (cr_rb s))))"

text \<open>Runs all of whose states satisfy a predicate.\<close>

inductive conc_run :: "nat \<Rightarrow> (CRing \<Rightarrow> bool) \<Rightarrow> CRing \<Rightarrow> clabel list \<Rightarrow> CRing \<Rightarrow> bool" for C ok where
  run_start: "ok s \<Longrightarrow> conc_run C ok s [] s"
| run_step: "conc_run C ok s ls s1 \<Longrightarrow> conc_step C s1 l s2 \<Longrightarrow> ok s2 \<Longrightarrow> conc_run C ok s (ls @ [l]) s2"

fun c_claimed :: "clabel list \<Rightarrow> entry list" where
  "c_claimed [] = []"
| "c_claimed (CClaim e # ls) = e # c_claimed ls"
| "c_claimed (_ # ls) = c_claimed ls"

fun c_accepted :: "clabel list \<Rightarrow> entry list" where
  "c_accepted [] = []"
| "c_accepted (CAccept e # ls) = e # c_accepted ls"
| "c_accepted (_ # ls) = c_accepted ls"

fun c_rejected :: "clabel list \<Rightarrow> entry list" where
  "c_rejected [] = []"
| "c_rejected (CReject e # ls) = e # c_rejected ls"
| "c_rejected (_ # ls) = c_rejected ls"

fun c_popped :: "clabel list \<Rightarrow> entry list" where
  "c_popped [] = []"
| "c_popped (CPop e # ls) = e # c_popped ls"
| "c_popped (_ # ls) = c_popped ls"

lemma c_claimed_append [simp]: "c_claimed (ls @ ls') = c_claimed ls @ c_claimed ls'"
  by (induction ls rule: c_claimed.induct) simp_all

lemma c_accepted_append [simp]: "c_accepted (ls @ ls') = c_accepted ls @ c_accepted ls'"
  by (induction ls rule: c_accepted.induct) simp_all

lemma c_rejected_append [simp]: "c_rejected (ls @ ls') = c_rejected ls @ c_rejected ls'"
  by (induction ls rule: c_rejected.induct) simp_all

lemma c_popped_append [simp]: "c_popped (ls @ ls') = c_popped ls @ c_popped ls'"
  by (induction ls rule: c_popped.induct) simp_all

lemma conc_run_end: "conc_run C ok s ls s' \<Longrightarrow> ok s'"
  by (induction rule: conc_run.induct) simp_all

lemma conc_run_trans:
  assumes "conc_run C ok s1 ls' s2" and "conc_run C ok s ls s1"
  shows "conc_run C ok s (ls @ ls') s2"
  using assms
proof (induction rule: conc_run.induct)
  case (run_step s1 ls1 s2 l s3)
  from conc_run.run_step [OF run_step.IH [OF run_step.prems] run_step.hyps(2,3)] show ?case by simp
qed simp

section \<open>The invariant\<close>

definition prod_ok :: "nat \<Rightarrow> Slot list \<Rightarrow> prod_pc \<Rightarrow> bool" where
  "prod_ok C slots pc = (case pc of
     PIdle \<Rightarrow> True
   | PClaimed idx e \<Rightarrow> fits e
   | PFilling idx e \<Rightarrow> fits e \<and> \<not> sl_ready (slots ! slot_index C idx)
   | PFilled idx e \<Rightarrow> fits e \<and> \<not> sl_ready (slots ! slot_index C idx) \<and> slot_entry (slots ! slot_index C idx) = e)"

definition cons_ok :: "Slot list \<Rightarrow> nat \<Rightarrow> PoppedRecord \<Rightarrow> cons_pc \<Rightarrow> bool" where
  "cons_ok slots i out pc \<longleftrightarrow> out_wf out \<and> (case pc of
     CCopying \<Rightarrow> sl_ready (slots ! i)
   | CCopied \<Rightarrow> sl_ready (slots ! i) \<and> popped_entry out = slot_entry (slots ! i)
   | _ \<Rightarrow> True)"

text \<open>Claims lie behind the write index and are on different slots.\<close>

definition claims_ok :: "nat \<Rightarrow> u64 \<Rightarrow> (nat \<Rightarrow> prod_pc) \<Rightarrow> bool" where
  "claims_ok C w prods \<longleftrightarrow>
     (\<forall>p idx e. inflight (prods p) = Some (idx, e) \<longrightarrow> idx \<noteq> w) \<and>
     (\<forall>p q i j e f. inflight (prods p) = Some (i, e) \<longrightarrow> inflight (prods q) = Some (j, f) \<longrightarrow>
        slot_index C i = slot_index C j \<longrightarrow> p = q)"

definition conc_inv :: "nat \<Rightarrow> CRing \<Rightarrow> bool" where
  "conc_inv k s \<longleftrightarrow> ring_wf k (cr_rb s)
     \<and> (\<forall>p. prod_ok (2 ^ k) (rb_slots (cr_rb s)) (cr_prod s p))
     \<and> cons_ok (rb_slots (cr_rb s)) (slot_index (2 ^ k) (rb_read_index (cr_rb s))) (cr_out s) (cr_cons s)
     \<and> claims_ok (2 ^ k) (rb_write_index (cr_rb s)) (cr_prod s)"

lemma conc_invD:
  assumes "conc_inv k s"
  shows "ring_wf k (cr_rb s)" "prod_ok (2 ^ k) (rb_slots (cr_rb s)) (cr_prod s p)"
    "cons_ok (rb_slots (cr_rb s)) (slot_index (2 ^ k) (rb_read_index (cr_rb s))) (cr_out s) (cr_cons s)"
    "claims_ok (2 ^ k) (rb_write_index (cr_rb s)) (cr_prod s)"
  using assms by (simp_all add: conc_inv_def)

lemma prod_ok_simps [simp]:
  "prod_ok C slots PIdle"
  "prod_ok C slots (PClaimed idx e) = fits e"
  "prod_ok C slots (PFilling idx e) = (fits e \<and> \<not> sl_ready (slots ! slot_index C idx))"
  "prod_ok C slots (PFilled idx e) =
     (fits e \<and> \<not> sl_ready (slots ! slot_index C idx) \<and> slot_entry (slots ! slot_index C idx) = e)"
  by (simp_all add: prod_ok_def)

lemma not_overtaken:
  "\<not> overtaken C s \<Longrightarrow> inflight (cr_prod s p) = Some (idx, e) \<Longrightarrow> unat (rb_write_index (cr_rb s) - idx) \<le> C"
  unfolding overtaken_def by (meson not_le_imp_less)

lemma conc_inv_init: "conc_inv k (CRing_init (2 ^ k))"
  using ring_wf_init [of k]
  by (simp add: conc_inv_def CRing_init_def prod_ok_def cons_ok_def claims_ok_def)

lemma conc_inv_race_free:
  assumes inv: "conc_inv k s"
  shows "\<not> race (2 ^ k) s"
proof
  have w: "\<exists>idx e. pc = PFilling idx e \<and> slot_index C idx = i" if "writing C pc = Some i" for C pc i
    using that by (cases pc) auto
  assume "race (2 ^ k) s"
  then show False
    unfolding race_def
  proof (elim disjE exE conjE)
    fix p q i assume "p \<noteq> q" "writing (2 ^ k) (cr_prod s p) = Some i" "writing (2 ^ k) (cr_prod s q) = Some i"
    with conc_invD(4) [OF inv] show False unfolding claims_ok_def by (metis inflight.simps(3) w)
  next
    fix p assume "cr_cons s = CCopying" "writing (2 ^ k) (cr_prod s p) = Some (slot_index (2 ^ k) (rb_read_index (cr_rb s)))"
    with conc_invD(2) [OF inv, of p] conc_invD(3) [OF inv] show False
      by (auto dest!: w simp: prod_ok_def cons_ok_def)
  qed
qed


section \<open>Every step keeps the invariant\<close>

lemma ring_wf_update: "ring_wf k rb \<Longrightarrow> slot_wf s \<Longrightarrow> ring_wf k (rb\<lparr>rb_slots := (rb_slots rb)[i := s]\<rparr>)"
  by (auto simp: ring_wf_def dest!: set_update_subset_insert [THEN subsetD])

lemma ring_wf_slot: "k < 64 \<Longrightarrow> ring_wf k rb \<Longrightarrow> slot_index (2 ^ k) idx < length (rb_slots rb)"
  "k < 64 \<Longrightarrow> ring_wf k rb \<Longrightarrow> slot_wf (rb_slots rb ! slot_index (2 ^ k) idx)"
  by (simp_all add: ring_wf_def slot_index_pow2)

lemma prod_ok_other:
  "prod_ok C slots pc \<Longrightarrow> (\<And>idx e. inflight pc = Some (idx, e) \<Longrightarrow> slot_index C idx \<noteq> i) \<Longrightarrow> prod_ok C (slots[i := s]) pc"
  by (cases pc) (auto simp: prod_ok_def)

lemma prod_ok_clear:
  "prod_ok C slots pc \<Longrightarrow> i < length slots \<Longrightarrow> prod_ok C (slots[i := (slots ! i)\<lparr>sl_ready := False\<rparr>]) pc"
  by (cases pc) (auto simp: prod_ok_def nth_list_update slot_entry_def)

lemma cons_ok_other: "cons_ok slots i out pc \<Longrightarrow> \<not> sl_ready (slots ! j) \<Longrightarrow> cons_ok (slots[j := s]) i out pc"
  by (cases "i = j") (auto simp: cons_ok_def split: cons_pc.splits)

lemma claims_ok_keep:
  "claims_ok C w prods \<Longrightarrow> inflight pc = inflight (prods p) \<or> inflight pc = None \<Longrightarrow> claims_ok C w (prods(p := pc))"
  unfolding claims_ok_def by (smt (verit) fun_upd_apply option.distinct(1))

lemma claims_ok_new:
  assumes k: "k < 64" and old: "claims_ok (2 ^ k) w prods"
    and near: "\<And>q idx e. inflight (prods q) = Some (idx, e) \<Longrightarrow> unat (w - idx) < 2 ^ k"
  shows "claims_ok (2 ^ k) (w + 1) (prods(p := PClaimed w e0))"
proof -
  have big: "(2::nat) ^ k \<le> 2 ^ 63" using k by (intro power_increasing) auto
  have "idx \<noteq> w + 1 \<and> slot_index (2 ^ k) idx \<noteq> slot_index (2 ^ k) w"
    if f: "inflight (prods q) = Some (idx, e)" for q idx e
  proof
    show "idx \<noteq> w + 1"
    proof
      assume "idx = w + 1"
      with near [OF f] big show False by (simp add: unsigned_minus_1_eq_mask mask_eq_exp_minus_1)
    qed
    let ?d = "unat (w - idx)"
    have "idx \<noteq> w" using old f unfolding claims_ok_def by blast
    then have "?d \<noteq> 0" by (simp add: unat_eq_0)
    moreover have "w = idx + word_of_nat ?d" by simp
    ultimately show "slot_index (2 ^ k) idx \<noteq> slot_index (2 ^ k) w"
      using pos_inj [OF k near [OF f], of 0 idx] by (auto simp: slot_index_pow2 [OF k])
  qed
  with old show ?thesis unfolding claims_ok_def
    by (smt (verit) Pair_inject fun_upd_apply inflight.simps(2) option.inject add_cancel_right_right one_neq_zero)
qed

text \<open>What a step does to the records: accepted ones enter the ring, popped ones leave it, and only
  records that would fit count as dropped.\<close>

definition books :: "CRing \<Rightarrow> clabel \<Rightarrow> CRing \<Rightarrow> bool" where
  "books s l s' \<longleftrightarrow>
     mset (c_accepted [l]) + ready_entries (cr_rb s) = mset (c_popped [l]) + ready_entries (cr_rb s')
     \<and> rb_dropped_count (cr_rb s') = rb_dropped_count (cr_rb s) + word_of_nat (length (filter fits (c_rejected [l])))"

lemma ready_entries_quiet:
  "i < length (rb_slots rb) \<Longrightarrow> \<not> sl_ready (rb_slots rb ! i) \<Longrightarrow> \<not> sl_ready s \<Longrightarrow>
     ready_entries (rb\<lparr>rb_slots := (rb_slots rb)[i := s]\<rparr>) = ready_entries rb"
  by (simp add: ready_entries_def mset_update)

lemma ready_entries_index [simp]: "ready_entries (rb\<lparr>rb_write_index := w\<rparr>) = ready_entries rb"
  "ready_entries (rb\<lparr>rb_read_index := r\<rparr>) = ready_entries rb"
  "ready_entries (rb\<lparr>rb_dropped_count := d\<rparr>) = ready_entries rb"
  by (simp_all add: ready_entries_def)

lemma small_fits: "length (entry_payload e) < 2 ^ 32 \<Longrightarrow>
    fits e \<longleftrightarrow> \<not> kMaxPayloadBytes < unat (word_of_nat (length (entry_payload e)) :: u32)"
  by (cases e) (auto simp: fits_def entry_payload_def unsigned_of_nat take_bit_eq_mod)

lemmas prod_step_simps = prod_step_def Let_def

lemma claim_inv:
  assumes k: "k < 64" and inv: "conc_inv k s" and near: "\<not> overtaken (2 ^ k) s" "\<not> overtaken (2 ^ k) s'"
    and len: "length (entry_payload e0) < 2 ^ 32" and step: "prod_step (2 ^ k) p e0 s = Some (l, s')"
    and pc: "cr_prod s p = PIdle"
  shows "conc_inv k s' \<and> books s l s'"
proof (cases "fits e0")
  case False
  with step pc inv len show ?thesis by (auto simp: prod_step_simps small_fits books_def)
next
  case True
  let ?w = "rb_write_index (cr_rb s)"
  have s': "l = CClaim e0" "s' = s\<lparr>cr_rb := (cr_rb s)\<lparr>rb_write_index := ?w + 1\<rparr>,
      cr_prod := (cr_prod s)(p := PClaimed ?w e0)\<rparr>"
    using step pc True len by (auto simp: prod_step_simps small_fits)
  have "unat (?w - idx) < 2 ^ k" if f: "inflight (cr_prod s q) = Some (idx, e)" for q idx e
  proof -
    have "q \<noteq> p" using f pc by auto
    then have "inflight (cr_prod s' q) = Some (idx, e)" using f s' by simp
    then have "unat (?w + 1 - idx) \<le> 2 ^ k" using not_overtaken [OF near(2)] s' by fastforce
    moreover have le: "unat (?w - idx) \<le> 2 ^ k" using not_overtaken [OF near(1) f] .
    moreover have "(2::nat) ^ k \<le> 2 ^ 63" using k by (intro power_increasing) auto
    then have "unat (?w - idx + 1) = unat (?w - idx) + 1" using le by (simp add: unat_word_ariths)
    ultimately show ?thesis by (simp add: algebra_simps)
  qed
  then have "claims_ok (2 ^ k) (?w + 1) ((cr_prod s)(p := PClaimed ?w e0))"
    by (intro claims_ok_new [OF k conc_invD(4) [OF inv]])
  then show ?thesis using inv True s' by (auto simp: conc_inv_def ring_wf_def books_def)
qed

lemma test_inv:
  assumes inv: "conc_inv k s" and step: "prod_step (2 ^ k) p e0 s = Some (l, s')" and pc: "cr_prod s p = PClaimed idx e"
  shows "conc_inv k s' \<and> books s l s'"
proof -
  have "fits e" using conc_invD(2) [OF inv, of p] pc by simp
  moreover have "claims_ok (2 ^ k) (rb_write_index (cr_rb s)) ((cr_prod s)(p := pc'))"
    if "pc' = PIdle \<or> pc' = PFilling idx e" for pc'
    using that pc by (intro claims_ok_keep conc_invD(4) [OF inv]) auto
  ultimately show ?thesis
    using step pc inv by (auto simp: prod_step_simps conc_inv_def ring_wf_def books_def split: if_splits)
qed

lemma others_elsewhere:
  assumes inv: "conc_inv k s" and "inflight (cr_prod s p) = Some (idx, e)" and "q \<noteq> p"
  shows "prod_ok (2 ^ k) ((rb_slots (cr_rb s))[slot_index (2 ^ k) idx := slot]) (cr_prod s q)"
  using conc_invD(4) [OF inv] assms(2,3) unfolding claims_ok_def
  by (intro prod_ok_other conc_invD(2) [OF inv]) metis

lemma fill_step:
  assumes k: "k < 64" and inv: "conc_inv k s" and pc: "cr_prod s p = PFilling idx e"
  obtains slot where "slot_wf slot" "slot_entry slot = e" "\<not> sl_ready slot"
    "prod_step (2 ^ k) p e0 s = Some (CTau, s\<lparr>cr_rb := (cr_rb s)\<lparr>rb_slots := (rb_slots (cr_rb s))[slot_index (2 ^ k) idx := slot]\<rparr>,
      cr_prod := (cr_prod s)(p := PFilled idx e)\<rparr>)"
proof -
  obtain t st sq pl where e: "e = (t, st, sq, pl)" by (cases e)
  have pre: "fits e" "\<not> sl_ready (slot_at (2 ^ k) s idx)" using conc_invD(2) [OF inv, of p] pc by simp_all
  then have "unat (word_of_nat (length pl) :: u32) = length pl" "length pl \<le> kMaxPayloadBytes"
    by (simp_all add: e fits_def unat_len_small)
  then obtain slot where "fill_slot t st sq pl (word_of_nat (length pl)) (slot_at (2 ^ k) s idx) = Some slot"
      "slot_wf slot" "slot_entry slot = e" "\<not> sl_ready slot"
    using fill_slot_wf [OF ring_wf_slot(2) [OF k conc_invD(1) [OF inv]], of "word_of_nat (length pl)" pl t st sq] pre(2)
    by (auto simp: e)
  with that pc show ?thesis by (auto simp: prod_step_simps e)
qed

lemma fill_inv:
  assumes k: "k < 64" and inv: "conc_inv k s" and step: "prod_step (2 ^ k) p e0 s = Some (l, s')"
    and pc: "cr_prod s p = PFilling idx e"
  shows "conc_inv k s' \<and> books s l s'"
proof -
  let ?rb = "cr_rb s" and ?i = "slot_index (2 ^ k) idx"
  have pre: "fits e" "\<not> sl_ready (rb_slots ?rb ! ?i)" using conc_invD(2) [OF inv, of p] pc by simp_all
  have i: "?i < length (rb_slots ?rb)" using ring_wf_slot [OF k conc_invD(1) [OF inv]] by auto
  obtain slot where slot: "slot_wf slot" "slot_entry slot = e" "\<not> sl_ready slot" and s': "l = CTau"
    "s' = s\<lparr>cr_rb := ?rb\<lparr>rb_slots := (rb_slots ?rb)[?i := slot]\<rparr>, cr_prod := (cr_prod s)(p := PFilled idx e)\<rparr>"
    using fill_step [OF k inv pc, of e0] step by (metis option.inject prod.inject)
  have "claims_ok (2 ^ k) (rb_write_index ?rb) ((cr_prod s)(p := PFilled idx e))"
    using pc by (intro claims_ok_keep conc_invD(4) [OF inv]) auto
  moreover have "prod_ok (2 ^ k) ((rb_slots ?rb)[?i := slot]) (cr_prod s q)" if "q \<noteq> p" for q
    using others_elsewhere [OF inv, of p] pc that by simp
  ultimately show ?thesis
    using inv s' slot pre i ring_wf_update [OF conc_invD(1) [OF inv] slot(1)] cons_ok_other [OF conc_invD(3) [OF inv] pre(2)]
    by (auto simp: conc_inv_def books_def ready_entries_quiet)
qed

lemma publish_inv:
  assumes k: "k < 64" and inv: "conc_inv k s" and step: "prod_step (2 ^ k) p e0 s = Some (l, s')"
    and pc: "cr_prod s p = PFilled idx e"
  shows "conc_inv k s' \<and> books s l s'"
proof -
  let ?rb = "cr_rb s" and ?i = "slot_index (2 ^ k) idx"
  let ?slot = "(rb_slots ?rb ! ?i)\<lparr>sl_ready := True\<rparr>"
  have pre: "\<not> sl_ready (rb_slots ?rb ! ?i)" "slot_entry (rb_slots ?rb ! ?i) = e"
    using conc_invD(2) [OF inv, of p] pc by simp_all
  have i: "?i < length (rb_slots ?rb)" "slot_wf ?slot" "slot_entry ?slot = e"
    using ring_wf_slot [OF k conc_invD(1) [OF inv], of idx] pre(2) by (simp_all add: slot_wf_def slot_entry_def)
  have s': "l = CAccept e" "s' = s\<lparr>cr_rb := ?rb\<lparr>rb_slots := (rb_slots ?rb)[?i := ?slot]\<rparr>, cr_prod := (cr_prod s)(p := PIdle)\<rparr>"
    using step pc by (auto simp: prod_step_simps)
  have "claims_ok (2 ^ k) (rb_write_index ?rb) ((cr_prod s)(p := PIdle))"
    by (intro claims_ok_keep conc_invD(4) [OF inv]) simp
  moreover have "prod_ok (2 ^ k) ((rb_slots ?rb)[?i := ?slot]) (cr_prod s q)" if "q \<noteq> p" for q
    using others_elsewhere [OF inv, of p] pc that by simp
  moreover have "ready_entries (?rb\<lparr>rb_slots := (rb_slots ?rb)[?i := ?slot]\<rparr>) = add_mset e (ready_entries ?rb)"
    using ready_entries_fill [OF i(1) pre(1), of ?slot "rb_write_index ?rb"] i(3) by simp
  ultimately show ?thesis
    using inv s' i ring_wf_update [OF conc_invD(1) [OF inv] i(2)] cons_ok_other [OF conc_invD(3) [OF inv] pre(1)]
    by (auto simp: conc_inv_def books_def)
qed

lemma cons_step_inv:
  assumes k: "k < 64" and inv: "conc_inv k s" and step: "cons_step (2 ^ k) s = Some (l, s')"
  shows "conc_inv k s' \<and> books s l s'"
proof -
  let ?rb = "cr_rb s" and ?i = "slot_index (2 ^ k) (rb_read_index (cr_rb s))"
  let ?slot = "(rb_slots ?rb ! ?i)\<lparr>sl_ready := False\<rparr>"
  have i: "?i < length (rb_slots ?rb)" "slot_wf (rb_slots ?rb ! ?i)" "slot_wf ?slot"
    using ring_wf_slot [OF k conc_invD(1) [OF inv], of "rb_read_index ?rb"] by (simp_all add: slot_wf_def)
  note con = conc_invD(3) [OF inv]
  show ?thesis
  proof (cases "cr_cons s")
    case CCopying
    then have "out_wf (cr_out s)" "sl_ready (rb_slots ?rb ! ?i)" using con by (simp_all add: cons_ok_def)
    then obtain r where "copy_slot (rb_slots ?rb ! ?i) (cr_out s) = Some r" "popped_entry r = slot_entry (rb_slots ?rb ! ?i)" "out_wf r"
      using copy_slot_wf [OF i(2), of "cr_out s"] by metis
    with step CCopying inv con show ?thesis by (auto simp: cons_step_def Let_def conc_inv_def cons_ok_def books_def)
  next
    case CCopied
    then have r: "sl_ready (rb_slots ?rb ! ?i)" "popped_entry (cr_out s) = slot_entry (rb_slots ?rb ! ?i)"
      using con by (simp_all add: cons_ok_def)
    have "prod_ok (2 ^ k) ((rb_slots ?rb)[?i := ?slot]) (cr_prod s q)" for q
      using conc_invD(2) [OF inv] i(1) by (intro prod_ok_clear)
    moreover have "ready_entries ?rb = add_mset (popped_entry (cr_out s)) (ready_entries (?rb\<lparr>rb_slots := (rb_slots ?rb)[?i := ?slot]\<rparr>))"
      using ready_entries_clear [OF i(1) r(1), of ?slot "rb_read_index ?rb"] r(2) by simp
    ultimately show ?thesis
      using step CCopied inv con ring_wf_update [OF conc_invD(1) [OF inv] i(3)]
      by (auto simp: cons_step_def Let_def conc_inv_def cons_ok_def books_def)
  qed (use step inv con in \<open>auto simp: cons_step_def Let_def conc_inv_def cons_ok_def books_def ring_wf_def split: if_splits\<close>)
qed

lemma conc_step_inv:
  assumes "k < 64" and "conc_inv k s" and "\<not> overtaken (2 ^ k) s" and "conc_step (2 ^ k) s l s'" and "\<not> overtaken (2 ^ k) s'"
  shows "conc_inv k s' \<and> books s l s'"
  using assms(4)
proof cases
  case (producer e p)
  then show ?thesis
    using claim_inv [OF assms(1,2,3,5)] test_inv [OF assms(2)] fill_inv [OF assms(1,2)] publish_inv [OF assms(1,2)]
    by (cases "cr_prod s p") blast+
next
  case consumer
  then show ?thesis using cons_step_inv [OF assms(1,2)] by blast
qed

lemma conc_run_inv:
  assumes "conc_run (2 ^ k) (\<lambda>s. \<not> overtaken (2 ^ k) s) s0 ls s" and "k < 64" and "conc_inv k s0"
  shows "conc_inv k s \<and> mset (c_accepted ls) + ready_entries (cr_rb s0) = mset (c_popped ls) + ready_entries (cr_rb s)
    \<and> rb_dropped_count (cr_rb s) = rb_dropped_count (cr_rb s0) + word_of_nat (length (filter fits (c_rejected ls)))"
  using assms
proof (induction rule: conc_run.induct)
  case (run_step s ls s1 l s2)
  note IH = run_step.IH [OF run_step.prems]
  have "conc_inv k s2 \<and> books s1 l s2"
    using conc_step_inv [OF run_step.prems(1) conjunct1 [OF IH] conc_run_end [OF run_step.hyps(1)] run_step.hyps(2,3)] .
  then have step: "conc_inv k s2" "mset (c_accepted [l]) + ready_entries (cr_rb s1) = mset (c_popped [l]) + ready_entries (cr_rb s2)"
    "rb_dropped_count (cr_rb s2) = rb_dropped_count (cr_rb s1) + word_of_nat (length (filter fits (c_rejected [l])))"
    by (simp_all only: books_def)
  have "mset (c_accepted (ls @ [l])) + ready_entries (cr_rb s)
      = mset (c_popped ls) + (mset (c_accepted [l]) + ready_entries (cr_rb s1))"
    using IH by (simp add: ac_simps)
  also have "\<dots> = mset (c_popped (ls @ [l])) + ready_entries (cr_rb s2)"
    by (simp only: step(2)) (simp add: ac_simps)
  finally show ?case using step(1,3) IH by simp
qed simp

section \<open>A call that runs alone\<close>

text \<open>Without interference, the steps of a call add up to the atomic operation.\<close>

abbreviation free_run :: "nat \<Rightarrow> CRing \<Rightarrow> clabel list \<Rightarrow> CRing \<Rightarrow> bool" where
  "free_run C \<equiv> conc_run C (\<lambda>_. True)"

lemma free_prod: "free_run C s ls s1 \<Longrightarrow> length (entry_payload e) < 2 ^ 32 \<Longrightarrow> prod_step C p e s1 = Some (l, s2) \<Longrightarrow>
    free_run C s (ls @ [l]) s2"
  by (rule run_step, assumption, rule conc_step.producer) simp_all

lemma free_cons: "free_run C s ls s1 \<Longrightarrow> cons_step C s1 = Some (l, s2) \<Longrightarrow> free_run C s (ls @ [l]) s2"
  by (auto intro: run_step conc_step.consumer)

lemma solo_push:
  assumes k: "k < 64" and wf: "ring_wf k (cr_rb s)" and pc: "cr_prod s p = PIdle" and len: "length pl < 2 ^ 32"
    and res: "TryPush (2 ^ k) t st sq pl (word_of_nat (length pl)) (cr_rb s) = Some (ok, rb')"
  shows "\<exists>ls. free_run (2 ^ k) s ls (s\<lparr>cr_rb := rb'\<rparr>)
    \<and> c_accepted ls = (if ok then [(t, st, sq, pl)] else []) \<and> c_rejected ls = (if ok then [] else [(t, st, sq, pl)])
    \<and> c_popped ls = []"
proof -
  let ?e = "(t, st, sq, pl)" and ?rb = "cr_rb s" and ?w = "rb_write_index (cr_rb s)"
  let ?i = "slot_index (2 ^ k) ?w" and ?rb1 = "(cr_rb s)\<lparr>rb_write_index := rb_write_index (cr_rb s) + 1\<rparr>"
  let ?at = "\<lambda>pc rb. s\<lparr>cr_rb := rb, cr_prod := (cr_prod s)(p := pc)\<rparr>"
  have home: "?at PIdle rb = s\<lparr>cr_rb := rb\<rparr>" for rb using pc by (cases s) (simp add: fun_upd_idem)
  have len': "length (entry_payload ?e) < 2 ^ 32" using len by (simp add: entry_payload_def)
  note go = free_prod [OF _ len', where p = p]
  have start: "free_run (2 ^ k) s [] s" by (rule run_start) simp
  have i: "?i < length (rb_slots ?rb)" using ring_wf_slot(1) [OF k wf] .
  show ?thesis
  proof (cases "kMaxPayloadBytes < unat (word_of_nat (length pl) :: u32)")
    case True
    with res have "\<not> ok" "rb' = ?rb" by (auto simp: TryPush_def)
    moreover have "free_run (2 ^ k) s ([] @ [CReject ?e]) s"
      by (rule go [OF start]) (use True pc in \<open>simp add: prod_step_simps entry_payload_def\<close>)
    ultimately show ?thesis by (intro exI [of _ "[CReject ?e]"]) simp
  next
    case small: False
    have claim: "free_run (2 ^ k) s ([] @ [CClaim ?e]) (?at (PClaimed ?w ?e) ?rb1)"
      by (rule go [OF start]) (use small pc in \<open>simp add: prod_step_simps entry_payload_def\<close>)
    show ?thesis
    proof (cases "sl_ready (rb_slots ?rb ! ?i)")
      case True
      with res small i have r: "\<not> ok" "rb' = ?rb1\<lparr>rb_dropped_count := rb_dropped_count ?rb + 1\<rparr>"
        by (auto simp: TryPush_def Let_def)
      have "free_run (2 ^ k) s (([] @ [CClaim ?e]) @ [CReject ?e]) (?at PIdle rb')"
        by (rule go [OF claim]) (use True r in \<open>simp add: prod_step_simps\<close>)
      with r home show ?thesis by (intro exI [of _ "[CClaim ?e, CReject ?e]"]) simp
    next
      case False
      with res small i obtain slot where slot: "fill_slot t st sq pl (word_of_nat (length pl)) (rb_slots ?rb ! ?i) = Some slot"
        and r: "ok" "rb' = ?rb1\<lparr>rb_slots := (rb_slots ?rb)[?i := slot\<lparr>sl_ready := True\<rparr>]\<rparr>"
        by (auto simp: TryPush_def Let_def bind_eq_Some_conv)
      let ?rb2 = "?rb1\<lparr>rb_slots := (rb_slots ?rb)[?i := slot]\<rparr>"
      have "free_run (2 ^ k) s (([] @ [CClaim ?e]) @ [CTau]) (?at (PFilling ?w ?e) ?rb1)"
        by (rule go [OF claim]) (use False in \<open>simp add: prod_step_simps\<close>)
      then have "free_run (2 ^ k) s ((([] @ [CClaim ?e]) @ [CTau]) @ [CTau]) (?at (PFilled ?w ?e) ?rb2)"
        by (rule go) (use slot in \<open>simp add: prod_step_simps\<close>)
      then have "free_run (2 ^ k) s (((([] @ [CClaim ?e]) @ [CTau]) @ [CTau]) @ [CAccept ?e]) (?at PIdle rb')"
        by (rule go) (use i r in \<open>simp add: prod_step_simps\<close>)
      with r home show ?thesis by (intro exI [of _ "[CClaim ?e, CTau, CTau, CAccept ?e]"]) simp
    qed
  qed
qed

lemma solo_pop:
  assumes k: "k < 64" and wf: "ring_wf k (cr_rb s)" and pc: "cr_cons s = CIdle"
    and res: "TryPop (2 ^ k) (cr_out s) (cr_rb s) = Some (ok, out', rb')"
  shows "\<exists>ls. free_run (2 ^ k) s ls (s\<lparr>cr_rb := rb', cr_out := out'\<rparr>)
    \<and> c_popped ls = (if ok then [popped_entry out'] else [])"
proof -
  let ?rb = "cr_rb s" and ?r = "rb_read_index (cr_rb s)"
  let ?i = "slot_index (2 ^ k) ?r"
  have start: "free_run (2 ^ k) s [] s" by (rule run_start) simp
  have i: "?i < length (rb_slots ?rb)" using ring_wf_slot(1) [OF k wf] .
  show ?thesis
  proof (cases "sl_ready (rb_slots ?rb ! ?i)")
    case False
    with res i have r: "\<not> ok" "out' = cr_out s" "rb' = ?rb" by (auto simp: TryPop_def Let_def)
    have "free_run (2 ^ k) s ([] @ [CTau]) s"
      by (rule free_cons [OF start]) (use False pc in \<open>simp add: cons_step_def Let_def\<close>)
    with r show ?thesis by (intro exI [of _ "[CTau]"]) simp
  next
    case True
    let ?slots = "(rb_slots ?rb)[?i := (rb_slots ?rb ! ?i)\<lparr>sl_ready := False\<rparr>]"
    from True res i have copy: "copy_slot (rb_slots ?rb ! ?i) (cr_out s) = Some out'"
      and r: "ok" "rb' = ?rb\<lparr>rb_slots := ?slots, rb_read_index := ?r + 1\<rparr>"
      by (auto simp: TryPop_def Let_def bind_eq_Some_conv)
    have "free_run (2 ^ k) s ([] @ [CTau]) (s\<lparr>cr_cons := CCopying\<rparr>)"
      by (rule free_cons [OF start]) (use True pc in \<open>simp add: cons_step_def Let_def\<close>)
    then have "free_run (2 ^ k) s (([] @ [CTau]) @ [CTau]) (s\<lparr>cr_cons := CCopied, cr_out := out'\<rparr>)"
      by (rule free_cons) (use copy in \<open>simp add: cons_step_def Let_def\<close>)
    then have "free_run (2 ^ k) s ((([] @ [CTau]) @ [CTau]) @ [CPop (popped_entry out')])
        (s\<lparr>cr_rb := ?rb\<lparr>rb_slots := ?slots\<rparr>, cr_cons := CCleared, cr_out := out'\<rparr>)"
      by (rule free_cons) (simp add: cons_step_def Let_def)
    then have "free_run (2 ^ k) s (((([] @ [CTau]) @ [CTau]) @ [CPop (popped_entry out')]) @ [CTau])
        (s\<lparr>cr_rb := rb', cr_cons := CIdle, cr_out := out'\<rparr>)"
      by (rule free_cons) (simp add: cons_step_def Let_def r)
    moreover have "s\<lparr>cr_rb := rb', cr_cons := CIdle, cr_out := out'\<rparr> = s\<lparr>cr_rb := rb', cr_out := out'\<rparr>"
      using pc by (cases s) simp
    ultimately show ?thesis using r by (intro exI [of _ "[CTau, CTau, CPop (popped_entry out'), CTau]"]) simp
  qed
qed

section \<open>A producer that is overtaken\<close>

text \<open>Producer 0 has seen its slot free and stops before writing it; producer 1 has completed \<open>n\<close> calls.\<close>

definition lap_state :: "nat \<Rightarrow> entry \<Rightarrow> nat \<Rightarrow> CRing \<Rightarrow> bool" where
  "lap_state k e n s \<longleftrightarrow> ring_wf k (cr_rb s) \<and> rb_write_index (cr_rb s) = word_of_nat (Suc n)
     \<and> cr_prod s = (\<lambda>_. PIdle)(0 := PFilling 0 e)
     \<and> rb_dropped_count (cr_rb s) = 0
     \<and> (\<forall>j < 2 ^ k. j = 0 \<or> n < j \<longrightarrow> \<not> sl_ready (rb_slots (cr_rb s) ! j))"

definition lap_labels :: "nat \<Rightarrow> clabel list \<Rightarrow> bool" where
  "lap_labels n ls \<longleftrightarrow> length (c_accepted ls) = n \<and> c_popped ls = []"

lemma lap_start:
  assumes k: "k < 64" and e: "fits e"
  shows "\<exists>ls s. free_run (2 ^ k) (CRing_init (2 ^ k)) ls s \<and> lap_labels 0 ls \<and> lap_state k e 0 s"
proof -
  let ?s = "CRing_init (2 ^ k)" and ?rb1 = "(MpscRingBuffer_init (2 ^ k))\<lparr>rb_write_index := 1\<rparr>"
  let ?at = "\<lambda>pc. ?s\<lparr>cr_rb := ?rb1, cr_prod := (\<lambda>_. PIdle)(0 := pc)\<rparr>"
  have len: "length (entry_payload e) < 2 ^ 32" using e by (cases e) (simp add: fits_def wire_sizes entry_payload_def)
  have z: "slot_index (2 ^ k) 0 = 0" by (simp add: slot_index_pow2 [OF k])
  have "free_run (2 ^ k) ?s [] ?s" by (rule run_start) simp
  then have "free_run (2 ^ k) ?s ([] @ [CClaim e]) (?at (PClaimed 0 e))"
    by (rule free_prod [OF _ len, where p = 0])
      (use e small_fits [OF len] in \<open>simp add: prod_step_simps CRing_init_def MpscRingBuffer_init_def\<close>)
  then have "free_run (2 ^ k) ?s (([] @ [CClaim e]) @ [CTau]) (?at (PFilling 0 e))"
    by (rule free_prod [OF _ len, where p = 0])
      (simp add: prod_step_simps CRing_init_def MpscRingBuffer_init_def Slot_init_def z)
  moreover have "lap_state k e 0 (?at (PFilling 0 e))"
    using ring_wf_init [of k] by (simp add: lap_state_def CRing_init_def MpscRingBuffer_init_def ring_wf_def Slot_init_def)
  moreover have "lap_labels 0 (([] @ [CClaim e]) @ [CTau])" by (simp add: lap_labels_def)
  ultimately show ?thesis by blast
qed

lemma lap_push:
  assumes k: "k < 64" and e: "fits e" and s: "lap_state k e n s" and n: "Suc n < 2 ^ k"
  shows "\<exists>ls s'. free_run (2 ^ k) s ls s' \<and> lap_labels 1 ls \<and> lap_state k e (Suc n) s'"
proof -
  obtain t st sq pl where e': "e = (t, st, sq, pl)" by (cases e)
  have len: "length pl < 2 ^ 32" "unat (word_of_nat (length pl) :: u32) = length pl"
    using e unat_len_small [of "length pl"] by (simp_all add: e' fits_def wire_sizes)
  have wf: "ring_wf k (cr_rb s)" using s by (simp add: lap_state_def)
  have pos: "pos k (rb_write_index (cr_rb s)) = Suc n"
    using s pos_add [OF k, of 0 "Suc n"] n by (simp add: lap_state_def del: of_nat_Suc)
  then have idle: "\<not> sl_ready (rb_slots (cr_rb s) ! pos k (rb_write_index (cr_rb s)))"
    using s n by (simp add: lap_state_def)
  obtain slot rb' where push: "TryPush (2 ^ k) t st sq pl (word_of_nat (length pl)) (cr_rb s) = Some (True, rb')"
    "ring_wf k rb'" "rb' = (cr_rb s)\<lparr>rb_write_index := rb_write_index (cr_rb s) + 1, rb_slots := (rb_slots (cr_rb s))[Suc n := slot]\<rparr>"
    using TryPush_cases [OF k wf, of "word_of_nat (length pl)" pl t st sq] idle len e pos
    by (auto simp: e' fits_def)
  have "cr_prod s 1 = PIdle" using s by (simp add: lap_state_def)
  from solo_push [OF k wf this len(1) push(1)] obtain ls where
    "free_run (2 ^ k) s ls (s\<lparr>cr_rb := rb'\<rparr>)" "lap_labels 1 ls" by (auto simp: lap_labels_def)
  moreover have "lap_state k e (Suc n) (s\<lparr>cr_rb := rb'\<rparr>)"
    using s push(2) by (auto simp: lap_state_def push(3) nth_list_update)
  ultimately show ?thesis by blast
qed

lemma lap_reach:
  assumes k: "k < 64" and e: "fits e"
  shows "n < 2 ^ k \<Longrightarrow> \<exists>ls s. free_run (2 ^ k) (CRing_init (2 ^ k)) ls s \<and> lap_labels n ls \<and> lap_state k e n s"
proof (induction n)
  case (Suc n)
  then obtain ls s where 1: "free_run (2 ^ k) (CRing_init (2 ^ k)) ls s" "lap_labels n ls" "lap_state k e n s" by auto
  from lap_push [OF k e 1(3) Suc.prems] obtain ls' s' where
    2: "free_run (2 ^ k) s ls' s'" "lap_labels 1 ls'" "lap_state k e (Suc n) s'" by blast
  have "lap_labels (Suc n) (ls @ ls')" using 1(2) 2(2) by (simp add: lap_labels_def)
  with conc_run_trans [OF 2(1) 1(1)] 2(3) show ?case by blast
qed (use lap_start [OF k e] in simp)

text \<open>The next claim goes to the slot of producer 0.\<close>

lemma lap_race:
  assumes k: "k < 64" and e: "fits e" and s: "lap_state k e (2 ^ k - 1) s"
  shows "\<exists>s'. free_run (2 ^ k) s [CClaim e, CTau] s' \<and> ring_wf k (cr_rb s') \<and> rb_dropped_count (cr_rb s') = 0
    \<and> rb_write_index (cr_rb s') = word_of_nat (2 ^ k) + 1 \<and> \<not> sl_ready (rb_slots (cr_rb s') ! 0)
    \<and> cr_prod s' = (\<lambda>_. PIdle)(0 := PFilling 0 e, 1 := PFilling (word_of_nat (2 ^ k)) e)"
proof -
  let ?w = "word_of_nat (2 ^ k) :: u64"
  let ?rb1 = "(cr_rb s)\<lparr>rb_write_index := ?w + 1\<rparr>"
  let ?at = "\<lambda>pc. s\<lparr>cr_rb := ?rb1, cr_prod := (\<lambda>_. PIdle)(0 := PFilling 0 e, 1 := pc)\<rparr>"
  have h: "ring_wf k (cr_rb s)" "rb_write_index (cr_rb s) = ?w" "cr_prod s = (\<lambda>_. PIdle)(0 := PFilling 0 e)"
    "\<not> sl_ready (rb_slots (cr_rb s) ! 0)" "rb_dropped_count (cr_rb s) = 0"
    using s by (auto simp: lap_state_def dest: spec [of _ 0])
  have len: "length (entry_payload e) < 2 ^ 32" using e by (cases e) (simp add: fits_def wire_sizes entry_payload_def)
  have z: "slot_index (2 ^ k) ?w = 0" using pos_add [OF k, of 0 "2 ^ k"] by (simp add: slot_index_pow2 [OF k])
  have "free_run (2 ^ k) s [] s" by (rule run_start) simp
  then have "free_run (2 ^ k) s ([] @ [CClaim e]) (?at (PClaimed ?w e))"
    by (rule free_prod [OF _ len, where p = 1]) (use e small_fits [OF len] h in \<open>simp add: prod_step_simps\<close>)
  then have "free_run (2 ^ k) s (([] @ [CClaim e]) @ [CTau]) (?at (PFilling ?w e))"
    by (rule free_prod [OF _ len, where p = 1]) (use h z in \<open>simp add: prod_step_simps\<close>)
  moreover have "ring_wf k (cr_rb (?at (PFilling ?w e)))" using h(1) by (simp add: ring_wf_def)
  ultimately show ?thesis using h by (intro exI [of _ "?at (PFilling ?w e)"]) simp
qed

text \<open>Both calls then report success.\<close>

lemma fill_any:
  assumes "slot_wf slot" and "fits (t, st, sq, pl)"
  shows "\<exists>slot'. fill_slot t st sq pl (word_of_nat (length pl)) slot = Some slot' \<and> slot_wf slot'"
  using assms fill_slot_wf [OF assms(1), of "word_of_nat (length pl)" pl t st sq]
  by (force simp: fits_def unat_len_small)

lemma lap_loss:
  assumes k: "k < 64" and e: "fits e" and wf: "ring_wf k (cr_rb s)"
    and pc: "cr_prod s = (\<lambda>_. PIdle)(0 := PFilling 0 e, 1 := PFilling (word_of_nat (2 ^ k)) e)"
  shows "\<exists>s'. free_run (2 ^ k) s [CTau, CTau, CAccept e, CAccept e] s' \<and> length (rb_slots (cr_rb s')) = 2 ^ k
    \<and> rb_dropped_count (cr_rb s') = rb_dropped_count (cr_rb s)"
proof -
  let ?w = "word_of_nat (2 ^ k) :: u64" and ?rb = "cr_rb s"
  obtain t st sq pl where e': "e = (t, st, sq, pl)" by (cases e)
  have len: "length (entry_payload e) < 2 ^ 32" using e by (cases e) (simp add: fits_def wire_sizes entry_payload_def)
  have z: "slot_index (2 ^ k) ?w = 0" "slot_index (2 ^ k) 0 = 0"
    using pos_add [OF k, of 0 "2 ^ k"] by (simp_all add: slot_index_pow2 [OF k])
  have i: "0 < length (rb_slots ?rb)" "slot_wf (rb_slots ?rb ! 0)" using ring_wf_slot [OF k wf, of 0] by (simp_all add: z)
  obtain a where a: "fill_slot t st sq pl (word_of_nat (length pl)) (rb_slots ?rb ! 0) = Some a" "slot_wf a"
    using fill_any [OF i(2) e [unfolded e']] by blast
  obtain b where b: "fill_slot t st sq pl (word_of_nat (length pl)) a = Some b"
    using fill_any [OF a(2) e [unfolded e']] by blast
  let ?at = "\<lambda>slot p0 p1. s\<lparr>cr_rb := ?rb\<lparr>rb_slots := (rb_slots ?rb)[0 := slot]\<rparr>,
    cr_prod := (\<lambda>_. PIdle)(0 := p0, 1 := p1)\<rparr>"
  have "free_run (2 ^ k) s [] s" by (rule run_start) simp
  then have "free_run (2 ^ k) s ([] @ [CTau]) (?at a (PFilled 0 e) (PFilling ?w e))"
    by (rule free_prod [OF _ len, where p = 0]) (use a pc z in \<open>simp add: prod_step_simps e' fun_upd_twist\<close>)
  then have "free_run (2 ^ k) s (([] @ [CTau]) @ [CTau]) (?at b (PFilled 0 e) (PFilled ?w e))"
    by (rule free_prod [OF _ len, where p = 1]) (use b z i in \<open>simp add: prod_step_simps e' fun_upd_twist\<close>)
  then have "free_run (2 ^ k) s ((([] @ [CTau]) @ [CTau]) @ [CAccept e]) (?at (b\<lparr>sl_ready := True\<rparr>) PIdle (PFilled ?w e))"
    by (rule free_prod [OF _ len, where p = 0]) (use z i in \<open>simp add: prod_step_simps fun_upd_twist\<close>)
  then have "free_run (2 ^ k) s (((([] @ [CTau]) @ [CTau]) @ [CAccept e]) @ [CAccept e]) (?at (b\<lparr>sl_ready := True\<rparr>) PIdle PIdle)"
    by (rule free_prod [OF _ len, where p = 1]) (use z i in \<open>simp add: prod_step_simps fun_upd_twist\<close>)
  then show ?thesis using wf
    by (intro exI [of _ "?at (b\<lparr>sl_ready := True\<rparr>) PIdle PIdle"]) (simp add: ring_wf_def)
qed

lemma size_ready_entries: "size (ready_entries rb) \<le> length (rb_slots rb)"
  by (simp add: ready_entries_def) (metis size_filter_mset_lesseq size_mset)

text \<open>The first step of a run with 4096 slots, for concrete instances.\<close>

definition after_claim :: "entry \<Rightarrow> CRing" where
  "after_claim e = (CRing_init (2 ^ 12))\<lparr>cr_rb := (MpscRingBuffer_init (2 ^ 12))\<lparr>rb_write_index := 1\<rparr>,
     cr_prod := (\<lambda>_. PIdle)(0 := PClaimed 0 e)\<rparr>"

lemma first_claim:
  assumes "fits e"
  shows "conc_step (2 ^ 12) (CRing_init (2 ^ 12)) (CClaim e) (after_claim e)"
proof -
  have len: "length (entry_payload e) < 2 ^ 32" using assms by (cases e) (simp add: fits_def wire_sizes entry_payload_def)
  have "prod_step (2 ^ 12) 0 e (CRing_init (2 ^ 12)) = Some (CClaim e, after_claim e)"
    using assms small_fits [OF len]
    by (simp add: prod_step_simps CRing_init_def after_claim_def) (simp add: MpscRingBuffer_init_def)
  with len show ?thesis by (rule conc_step.producer)
qed

section \<open>Properties\<close>

text \<open>C11: With any number of producers and the consumer interleaved access by access: as long as no call
  to \<open>TryPush\<close> is overtaken by a whole lap of later claims, no two threads ever access the plain
  fields of one slot at the same time, every accepted record is popped or lies in the ring, unaltered and
  once, and the drop counter counts the refusals of records that would fit.\<close>

theorem concurrent_ring_safe:
  assumes "k < 64" and "conc_run (2 ^ k) (\<lambda>s. \<not> overtaken (2 ^ k) s) (CRing_init (2 ^ k)) ls s"
  shows "\<not> race (2 ^ k) s \<and> mset (c_accepted ls) = mset (c_popped ls) + ready_entries (cr_rb s)
    \<and> DroppedCount (cr_rb s) = word_of_nat (length (filter fits (c_rejected ls)))"
proof -
  have "ready_entries (cr_rb (CRing_init (2 ^ k))) = {#}" "rb_dropped_count (cr_rb (CRing_init (2 ^ k))) = 0"
    by (simp_all add: CRing_init_def MpscRingBuffer_init_def ready_entries_def Slot_init_def)
  with conc_run_inv [OF assms(2,1) conc_inv_init] conc_inv_race_free show ?thesis
    by (simp add: DroppedCount_def)
qed

theorem concurrent_ring_safe_witness:
  "\<exists>s. conc_run (2 ^ 12) (\<lambda>s. \<not> overtaken (2 ^ 12) s) (CRing_init (2 ^ 12)) ([] @ [CClaim (4, 10, 0, [7])]) s
     \<and> \<not> race (2 ^ 12) s \<and> DroppedCount (cr_rb s) = 0"
proof -
  have "\<not> overtaken (2 ^ 12) (CRing_init (2 ^ 12))" "\<not> overtaken (2 ^ 12) (after_claim (4, 10, 0, [7]))"
    by (auto simp: overtaken_def after_claim_def CRing_init_def split: if_splits)
  then have run: "conc_run (2 ^ 12) (\<lambda>s. \<not> overtaken (2 ^ 12) s) (CRing_init (2 ^ 12)) ([] @ [CClaim (4, 10, 0, [7])])
      (after_claim (4, 10, 0, [7]))"
    by (intro run_step [OF run_start first_claim] fits_small)
  from concurrent_ring_safe [OF _ run] run show ?thesis by (intro exI [of _ "after_claim (4, 10, 0, [7])"]) simp
qed

text \<open>C14: The bound is exact. For every capacity there is a run without a single refusal in which one producer,
  stopped between its test of \<open>ready\<close> and its first store, is overtaken by one claim more than the
  capacity: two producers then write the same slot at the same time. Both calls report success, so
  more records were accepted than were popped and lie in the ring, and none is counted as dropped.\<close>

theorem overtaken_producer_races:
  assumes "k < 64" and "fits e"
  shows "\<exists>ls s ls' s'. conc_run (2 ^ k) (\<lambda>_. True) (CRing_init (2 ^ k)) ls s \<and> race (2 ^ k) s
    \<and> rb_write_index (cr_rb s) = word_of_nat (2 ^ k) + 1
    \<and> conc_run (2 ^ k) (\<lambda>_. True) s ls' s' \<and> DroppedCount (cr_rb s') = 0
    \<and> length (c_popped (ls @ ls')) + size (ready_entries (cr_rb s')) < length (c_accepted (ls @ ls'))"
proof -
  have n: "2 ^ k - 1 < (2::nat) ^ k" by simp
  obtain ls s where 1: "free_run (2 ^ k) (CRing_init (2 ^ k)) ls s" "lap_labels (2 ^ k - 1) ls" "lap_state k e (2 ^ k - 1) s"
    using lap_reach [OF assms n] by blast
  obtain s1 where 2: "free_run (2 ^ k) s [CClaim e, CTau] s1" "ring_wf k (cr_rb s1)" "rb_dropped_count (cr_rb s1) = 0"
    "rb_write_index (cr_rb s1) = word_of_nat (2 ^ k) + 1"
    "cr_prod s1 = (\<lambda>_. PIdle)(0 := PFilling 0 e, 1 := PFilling (word_of_nat (2 ^ k)) e)"
    using lap_race [OF assms 1(3)] by blast
  obtain s2 where 3: "free_run (2 ^ k) s1 [CTau, CTau, CAccept e, CAccept e] s2" "length (rb_slots (cr_rb s2)) = 2 ^ k"
    "rb_dropped_count (cr_rb s2) = 0"
    using lap_loss [OF assms 2(2,5)] 2(3) by auto
  have "slot_index (2 ^ k) (word_of_nat (2 ^ k)) = slot_index (2 ^ k) 0"
    using pos_add [OF assms(1), of 0 "2 ^ k"] by (simp add: slot_index_pow2 [OF assms(1)])
  then have "writing (2 ^ k) (cr_prod s1 0) = Some (slot_index (2 ^ k) 0)" "writing (2 ^ k) (cr_prod s1 1) = Some (slot_index (2 ^ k) 0)"
    by (simp_all add: 2(5))
  then have "race (2 ^ k) s1" unfolding race_def by (metis zero_neq_one)
  moreover have "size (ready_entries (cr_rb s2)) \<le> 2 ^ k" using size_ready_entries [of "cr_rb s2"] 3(2) by simp
  moreover have "length (c_accepted (ls @ [CClaim e, CTau] @ [CTau, CTau, CAccept e, CAccept e])) = 2 ^ k + 1"
    "c_popped (ls @ [CClaim e, CTau] @ [CTau, CTau, CAccept e, CAccept e]) = []"
    using 1(2) by (simp_all add: lap_labels_def)
  ultimately show ?thesis
    using conc_run_trans [OF 2(1) 1(1)] 2(4) 3(1,3)
    by (intro exI [of _ "ls @ [CClaim e, CTau]"] exI [of _ s1] exI [of _ "[CTau, CTau, CAccept e, CAccept e]"] exI [of _ s2])
      (simp add: DroppedCount_def)
qed

theorem overtaken_producer_races_witness:
  "\<exists>ls s. conc_run 4096 (\<lambda>_. True) (CRing_init 4096) ls s \<and> race 4096 s \<and> rb_write_index (cr_rb s) = 4097"
  using overtaken_producer_races [of 12 "(4, 10, 0, [])"] fits_small(2) [of 4 10 0] by auto

text \<open>C25: The atomic operations are the steps of a call that is not interrupted: in any well-formed ring,
  running one idle producer through \<open>TryPush\<close>, or the idle consumer through \<open>TryPop\<close>, alone leads to the
  ring, the result and the copied record that the atomic operation gives.\<close>

theorem atomic_calls_are_their_steps:
  assumes "k < 64" and "ring_wf k (cr_rb s)" and "cr_prod s p = PIdle" and "cr_cons s = CIdle" and "out_wf (cr_out s)"
    and "length pl < 2 ^ 32"
  shows "(\<exists>ok rb' ls. TryPush (2 ^ k) t st sq pl (word_of_nat (length pl)) (cr_rb s) = Some (ok, rb')
      \<and> conc_run (2 ^ k) (\<lambda>_. True) s ls (s\<lparr>cr_rb := rb'\<rparr>) \<and> c_accepted ls = (if ok then [(t, st, sq, pl)] else []))
    \<and> (\<exists>ok out' rb' ls. TryPop (2 ^ k) (cr_out s) (cr_rb s) = Some (ok, out', rb')
      \<and> conc_run (2 ^ k) (\<lambda>_. True) s ls (s\<lparr>cr_rb := rb', cr_out := out'\<rparr>)
      \<and> c_popped ls = (if ok then [popped_entry out'] else []))"
proof -
  have "unat (word_of_nat (length pl) :: u32) = length pl" using assms(6) by (simp add: unsigned_of_nat take_bit_eq_mod)
  then obtain ok rb' where push: "TryPush (2 ^ k) t st sq pl (word_of_nat (length pl)) (cr_rb s) = Some (ok, rb')"
    using TryPush_cases [OF assms(1,2), of "word_of_nat (length pl)" pl t st sq] by auto
  obtain ok2 out2 rb2 where pop: "TryPop (2 ^ k) (cr_out s) (cr_rb s) = Some (ok2, out2, rb2)"
    using TryPop_cases [OF assms(1,2,5)] by blast
  from solo_push [OF assms(1-3,6) push] solo_pop [OF assms(1,2,4) pop] push pop show ?thesis by blast
qed

theorem atomic_calls_are_their_steps_witness:
  "\<exists>ok rb' ls. TryPush (2 ^ 12) 4 10 0 [7] 1 (MpscRingBuffer_init 4096) = Some (ok, rb')
     \<and> conc_run (2 ^ 12) (\<lambda>_. True) (CRing_init 4096) ls ((CRing_init 4096)\<lparr>cr_rb := rb'\<rparr>)"
proof -
  have "ring_wf 12 (cr_rb (CRing_init 4096))" using ring_wf_init [of 12] by (simp add: CRing_init_def)
  from atomic_calls_are_their_steps [OF _ this, of 0 "[7]" 4 10 0] show ?thesis
    by (auto simp: CRing_init_def)
qed

end
