(* ===== verification/Mpsc_Fifo.thy ===== *)
theory Mpsc_Fifo
  imports Mpsc_Concurrent
begin

text \<open>
  The order of records in the interleaved ring of \<open>Mpsc_Concurrent\<close>. While the distance of the two
  indices stays within the capacity, every record is popped in the order of the producers'
  \<open>fetch_add\<close>s, no call is refused and none is overtaken; and when all threads are between
  calls the ring is the bounded queue of \<open>Mpsc_Ring_Buffer\<close>, holding exactly what was pushed and not
  yet popped.
\<close>

section \<open>Slots along the sequence of claims\<close>

text \<open>The slot of the \<open>j\<close>-th claim.\<close>

abbreviation nth_slot :: "nat \<Rightarrow> Slot list \<Rightarrow> nat \<Rightarrow> Slot" where
  "nth_slot k slots j \<equiv> slots ! (j mod 2 ^ k)"

lemma slot_index_of_nat: "k < 64 \<Longrightarrow> slot_index (2 ^ k) (word_of_nat j) = j mod 2 ^ k"
  using pos_add [of k 0 j] by (simp add: slot_index_pow2)

lemma mod_window:
  fixes m :: nat
  assumes "r \<le> i" "i < r + m" "r \<le> j" "j < r + m" "i mod m = j mod m"
  shows "i = j"
proof -
  have *: "x = y" if "x \<le> y" "y < x + m" "x mod m = y mod m" for x y :: nat
  proof -
    have "m dvd y - x" using that by (simp add: mod_eq_dvd_iff_nat [symmetric])
    then show ?thesis using that by (auto dest: dvd_imp_le)
  qed
  show ?thesis using assms *[of i j] *[of j i] by linarith
qed

text \<open>
  \<open>cl\<close> are the records in the order of their claims, \<open>r\<close> of them are popped: each later one lies in its
  slot or is still carried by its producer, and the slots beyond are free.
\<close>

definition slots_fifo :: "nat \<Rightarrow> entry list \<Rightarrow> nat \<Rightarrow> Slot list \<Rightarrow> (nat \<Rightarrow> prod_pc) \<Rightarrow> bool" where
  "slots_fifo k cl r slots prods \<longleftrightarrow> r \<le> length cl \<and> length cl \<le> r + 2 ^ k \<and> length slots = 2 ^ k \<and>
     (\<forall>j. r \<le> j \<and> j < length cl \<longrightarrow>
        sl_ready (nth_slot k slots j) \<and> slot_entry (nth_slot k slots j) = cl ! j
        \<or> (\<exists>p. inflight (prods p) = Some (word_of_nat j, cl ! j))) \<and>
     (\<forall>p idx e. inflight (prods p) = Some (idx, e) \<longrightarrow>
        (\<exists>j. r \<le> j \<and> j < length cl \<and> idx = word_of_nat j \<and> e = cl ! j \<and> \<not> sl_ready (nth_slot k slots j))) \<and>
     (\<forall>j. length cl \<le> j \<and> j < r + 2 ^ k \<longrightarrow> \<not> sl_ready (nth_slot k slots j))"

lemma slots_fifoD:
  assumes "slots_fifo k cl r slots prods"
  shows "r \<le> length cl \<and> length cl \<le> r + 2 ^ k" and "length slots = 2 ^ k"
    and "\<And>j. r \<le> j \<Longrightarrow> j < length cl \<Longrightarrow> sl_ready (nth_slot k slots j) \<and> slot_entry (nth_slot k slots j) = cl ! j
        \<or> (\<exists>p. inflight (prods p) = Some (word_of_nat j, cl ! j))"
    and "\<And>p idx e. inflight (prods p) = Some (idx, e) \<Longrightarrow>
        \<exists>j. r \<le> j \<and> j < length cl \<and> idx = word_of_nat j \<and> e = cl ! j \<and> \<not> sl_ready (nth_slot k slots j)"
    and "\<And>j. length cl \<le> j \<Longrightarrow> j < r + 2 ^ k \<Longrightarrow> \<not> sl_ready (nth_slot k slots j)"
  using assms unfolding slots_fifo_def by blast+

lemma slots_fifoI:
  assumes "r \<le> length cl \<and> length cl \<le> r + 2 ^ k" and "length slots = 2 ^ k"
    and "\<And>j. r \<le> j \<Longrightarrow> j < length cl \<Longrightarrow> sl_ready (nth_slot k slots j) \<and> slot_entry (nth_slot k slots j) = cl ! j
        \<or> (\<exists>p. inflight (prods p) = Some (word_of_nat j, cl ! j))"
    and "\<And>p idx e. inflight (prods p) = Some (idx, e) \<Longrightarrow>
        \<exists>j. r \<le> j \<and> j < length cl \<and> idx = word_of_nat j \<and> e = cl ! j \<and> \<not> sl_ready (nth_slot k slots j)"
    and "\<And>j. length cl \<le> j \<Longrightarrow> j < r + 2 ^ k \<Longrightarrow> \<not> sl_ready (nth_slot k slots j)"
  shows "slots_fifo k cl r slots prods"
  using assms unfolding slots_fifo_def by blast

lemma nth_slot_update:
  assumes "length slots = 2 ^ k" and "r \<le> i" "i < r + 2 ^ k" "r \<le> j" "j < r + 2 ^ k"
  shows "nth_slot k (slots[i mod 2 ^ k := s]) j = (if i = j then s else nth_slot k slots j)"
  using mod_window [OF assms(2-5)] assms(1) by (auto simp: nth_list_update)

lemma fifo_front:
  assumes "k < 64" and f: "slots_fifo k cl r slots prods" and ready: "sl_ready (nth_slot k slots r)"
  shows "r < length cl \<and> slot_entry (nth_slot k slots r) = cl ! r"
proof -
  have "r < length cl" using slots_fifoD(5) [OF f, of r] ready by force
  moreover have "inflight (prods p) \<noteq> Some (word_of_nat r, e)" for p e
  proof
    assume "inflight (prods p) = Some (word_of_nat r, e)"
    from slots_fifoD(4) [OF f this] obtain j where "(word_of_nat r :: u64) = word_of_nat j" "\<not> sl_ready (nth_slot k slots j)" by blast
    with ready show False by (metis slot_index_of_nat [OF assms(1)])
  qed
  ultimately show ?thesis using slots_fifoD(3) [OF f, of r] by blast
qed

lemma fifo_claim:
  assumes f: "slots_fifo k cl r slots prods" and "prods p = PIdle" and room: "length cl < r + 2 ^ k"
  shows "slots_fifo k (cl @ [e]) r slots (prods(p := PClaimed (word_of_nat (length cl)) e))"
proof (rule slots_fifoI)
  fix j assume j: "r \<le> j" "j < length (cl @ [e])"
  show "sl_ready (nth_slot k slots j) \<and> slot_entry (nth_slot k slots j) = (cl @ [e]) ! j
      \<or> (\<exists>q. inflight ((prods(p := PClaimed (word_of_nat (length cl)) e)) q) = Some (word_of_nat j, (cl @ [e]) ! j))"
  proof (cases "j < length cl")
    case True
    have "q \<noteq> p" if "inflight (prods q) = Some x" for q x using that assms(2) by auto
    with slots_fifoD(3) [OF f j(1) True] True show ?thesis
      by (simp add: nth_append) (metis (no_types, lifting))
  next
    case False
    with j have "j = length cl" by simp
    then show ?thesis by (auto intro: exI [of _ p])
  qed
next
  fix q idx d assume "inflight ((prods(p := PClaimed (word_of_nat (length cl)) e)) q) = Some (idx, d)"
  then show "\<exists>j. r \<le> j \<and> j < length (cl @ [e]) \<and> idx = word_of_nat j \<and> d = (cl @ [e]) ! j \<and> \<not> sl_ready (nth_slot k slots j)"
  proof (cases "q = p")
    case True
    with slots_fifoD(1) [OF f] slots_fifoD(5) [OF f, of "length cl"] room
      \<open>inflight ((prods(p := PClaimed (word_of_nat (length cl)) e)) q) = Some (idx, d)\<close>
    show ?thesis by (intro exI [of _ "length cl"]) auto
  next
    case False
    with \<open>inflight ((prods(p := PClaimed (word_of_nat (length cl)) e)) q) = Some (idx, d)\<close>
    have "inflight (prods q) = Some (idx, d)" by simp
    from slots_fifoD(4) [OF f this] obtain j where
      "r \<le> j" "j < length cl" "idx = word_of_nat j" "d = cl ! j" "\<not> sl_ready (nth_slot k slots j)" by blast
    then show ?thesis by (intro exI [of _ j]) (simp add: nth_append)
  qed
qed (use slots_fifoD [OF f] room in auto)

lemma fifo_goto:
  assumes f: "slots_fifo k cl r slots prods" and "inflight pc = inflight (prods p)"
  shows "slots_fifo k cl r slots (prods(p := pc))"
proof -
  have "inflight ((prods(p := pc)) q) = inflight (prods q)" for q using assms(2) by simp
  with f show ?thesis unfolding slots_fifo_def by presburger
qed

lemma fifo_quiet:
  assumes f: "slots_fifo k cl r slots prods" and i: "r \<le> i" "i < r + 2 ^ k"
    and "\<not> sl_ready (nth_slot k slots i)" and "\<not> sl_ready s"
  shows "slots_fifo k cl r (slots[i mod 2 ^ k := s]) prods"
proof -
  note d = slots_fifoD [OF f]
  note upd = nth_slot_update [OF d(2) i]
  show ?thesis
  proof (rule slots_fifoI)
    fix j assume "r \<le> j" "j < length cl"
    then show "sl_ready (nth_slot k (slots[i mod 2 ^ k := s]) j) \<and> slot_entry (nth_slot k (slots[i mod 2 ^ k := s]) j) = cl ! j
      \<or> (\<exists>p. inflight (prods p) = Some (word_of_nat j, cl ! j))"
      using upd [of j s] d(1) d(3) [of j] assms(4) by (cases "i = j") auto
  next
    fix p idx e assume "inflight (prods p) = Some (idx, e)"
    from d(4) [OF this] obtain j where "r \<le> j" "j < length cl" "idx = word_of_nat j" "e = cl ! j" "\<not> sl_ready (nth_slot k slots j)" by blast
    then show "\<exists>j. r \<le> j \<and> j < length cl \<and> idx = word_of_nat j \<and> e = cl ! j \<and> \<not> sl_ready (nth_slot k (slots[i mod 2 ^ k := s]) j)"
      using upd [of j s] d(1) assms(5) by (intro exI [of _ j]) (cases "i = j"; auto)
  next
    fix j assume "length cl \<le> j" "j < r + 2 ^ k"
    then show "\<not> sl_ready (nth_slot k (slots[i mod 2 ^ k := s]) j)"
      using upd [of j s] d(1) d(5) [of j] assms(5) by (cases "i = j") auto
  qed (use d in auto)
qed

lemma fifo_publish:
  assumes f: "slots_fifo k cl r slots prods" and k: "k < 64" and claims: "claims_ok (2 ^ k) w prods"
    and p: "inflight (prods p) = Some (idx, e)" and s: "sl_ready s" "slot_entry s = e"
  shows "slots_fifo k cl r (slots[slot_index (2 ^ k) idx := s]) (prods(p := PIdle))"
proof -
  note d = slots_fifoD [OF f]
  obtain i where i: "r \<le> i" "i < length cl" "idx = word_of_nat i" "e = cl ! i" using d(4) [OF p] by blast
  have "i < r + 2 ^ k" using i d(1) by simp
  note upd = nth_slot_update [OF d(2) i(1) this]
  have idx: "slot_index (2 ^ k) idx = i mod 2 ^ k" by (simp add: i slot_index_of_nat k)
  have other: "j \<noteq> i" if "q \<noteq> p" "inflight (prods q) = Some (word_of_nat j, x)" for q j x
    using claims that p i(3) unfolding claims_ok_def by blast
  show ?thesis unfolding idx
  proof (rule slots_fifoI)
    fix j assume j: "r \<le> j" "j < length cl"
    then show "sl_ready (nth_slot k (slots[i mod 2 ^ k := s]) j) \<and> slot_entry (nth_slot k (slots[i mod 2 ^ k := s]) j) = cl ! j
      \<or> (\<exists>q. inflight ((prods(p := PIdle)) q) = Some (word_of_nat j, cl ! j))"
    proof (cases "i = j")
      case False
      have "q \<noteq> p" if "inflight (prods q) = Some (word_of_nat j, cl ! j)" for q
      proof
        assume "q = p"
        with that p i have eq: "(word_of_nat i :: u64) = word_of_nat j" by simp
        then have "slot_index (2 ^ k) (word_of_nat i) = slot_index (2 ^ k) (word_of_nat j)" by simp
        with mod_window [of r i "2 ^ k" j] i(1) j i(2) d(1) False show False by (simp add: slot_index_of_nat k)
      qed
      with upd [of j s] j d(1) d(3) [OF j] False show ?thesis by auto
    qed (use upd [of j s] j d(1) s i in auto)
  next
    fix q jdx x assume q: "inflight ((prods(p := PIdle)) q) = Some (jdx, x)"
    then have "q \<noteq> p" and q': "inflight (prods q) = Some (jdx, x)" by (auto split: if_splits)
    from d(4) [OF q'] obtain j where j: "r \<le> j" "j < length cl" "jdx = word_of_nat j" "x = cl ! j" "\<not> sl_ready (nth_slot k slots j)" by blast
    with other [OF \<open>q \<noteq> p\<close>, of j x] q' upd [of j s] d(1)
    show "\<exists>j. r \<le> j \<and> j < length cl \<and> jdx = word_of_nat j \<and> x = cl ! j \<and> \<not> sl_ready (nth_slot k (slots[i mod 2 ^ k := s]) j)"
      by (intro exI [of _ j]) auto
  next
    fix j assume "length cl \<le> j" "j < r + 2 ^ k"
    then show "\<not> sl_ready (nth_slot k (slots[i mod 2 ^ k := s]) j)"
      using upd [of j s] d(1) d(5) [of j] i(2) by auto
  qed (use d in auto)
qed

lemma fifo_pop:
  assumes f: "slots_fifo k cl r slots prods" and r: "sl_ready (nth_slot k slots r)" and s: "\<not> sl_ready s"
  shows "slots_fifo k cl (Suc r) (slots[r mod 2 ^ k := s]) prods"
proof -
  note d = slots_fifoD [OF f]
  have n: "r < length cl" using d(5) [of r] r by force
  have upd: "nth_slot k (slots[r mod 2 ^ k := s]) j = nth_slot k slots j" if "r < j" "j < r + 2 ^ k" for j
    using nth_slot_update [OF d(2), of r r j] that by simp
  have wrap: "nth_slot k (slots[r mod 2 ^ k := s]) (r + 2 ^ k) = s" using d(2) by simp
  show ?thesis
  proof (rule slots_fifoI)
    fix j assume "Suc r \<le> j" "j < length cl"
    then show "sl_ready (nth_slot k (slots[r mod 2 ^ k := s]) j) \<and> slot_entry (nth_slot k (slots[r mod 2 ^ k := s]) j) = cl ! j
      \<or> (\<exists>p. inflight (prods p) = Some (word_of_nat j, cl ! j))"
      using upd [of j] d(1) d(3) [of j] by auto
  next
    fix p idx e assume "inflight (prods p) = Some (idx, e)"
    from d(4) [OF this] obtain j where j: "r \<le> j" "j < length cl" "idx = word_of_nat j" "e = cl ! j" "\<not> sl_ready (nth_slot k slots j)" by blast
    with r have "r < j" by (cases "j = r") auto
    with j upd [of j] d(1)
    show "\<exists>j. Suc r \<le> j \<and> j < length cl \<and> idx = word_of_nat j \<and> e = cl ! j \<and> \<not> sl_ready (nth_slot k (slots[r mod 2 ^ k := s]) j)"
      by (intro exI [of _ j]) auto
  next
    fix j assume "length cl \<le> j" "j < Suc r + 2 ^ k"
    then show "\<not> sl_ready (nth_slot k (slots[r mod 2 ^ k := s]) j)"
      using upd [of j] d(5) [of j] n s wrap by (cases "j = r + 2 ^ k") auto
  qed (use d n in auto)
qed

section \<open>The invariant of a run with room\<close>

text \<open>The distance of the indices is within the capacity.\<close>

definition roomy :: "nat \<Rightarrow> CRing \<Rightarrow> bool" where
  "roomy C s \<longleftrightarrow> unat (rb_write_index (cr_rb s) - rb_read_index (cr_rb s)) \<le> C"

text \<open>How far \<open>read_index_\<close> has come: it is behind by one between the store to \<open>ready\<close> and the increment.\<close>

definition read_pos :: "cons_pc \<Rightarrow> nat \<Rightarrow> nat" where
  "read_pos pc r = (if pc = CCleared then r - 1 else r)"

definition fifo_inv :: "nat \<Rightarrow> entry list \<Rightarrow> nat \<Rightarrow> CRing \<Rightarrow> bool" where
  "fifo_inv k cl r s \<longleftrightarrow> rb_write_index (cr_rb s) = word_of_nat (length cl)
     \<and> rb_read_index (cr_rb s) = word_of_nat (read_pos (cr_cons s) r) \<and> (cr_cons s = CCleared \<longrightarrow> 0 < r)
     \<and> length cl \<le> read_pos (cr_cons s) r + 2 ^ k
     \<and> slots_fifo k cl r (rb_slots (cr_rb s)) (cr_prod s)"

lemma fifo_invD:
  assumes "fifo_inv k cl r s"
  shows "rb_write_index (cr_rb s) = word_of_nat (length cl)"
    "rb_read_index (cr_rb s) = word_of_nat (read_pos (cr_cons s) r)"
    "length cl \<le> read_pos (cr_cons s) r + 2 ^ k" "slots_fifo k cl r (rb_slots (cr_rb s)) (cr_prod s)"
    "cr_cons s = CCleared \<Longrightarrow> 0 < r"
  using assms by (simp_all add: fifo_inv_def)

lemma unat_dist:
  assumes "k < 64" and "a \<le> b" and "b \<le> a + 2 ^ k"
  shows "unat (word_of_nat b - word_of_nat a :: u64) = b - a"
proof -
  have "(2::nat) ^ k < 2 ^ 64" using assms(1) by (intro power_strict_increasing) auto
  then have "b - a < 2 ^ 64" using assms by linarith
  moreover have "word_of_nat b - word_of_nat a = (word_of_nat (b - a) :: u64)" using assms(2) by (simp add: of_nat_diff)
  ultimately show ?thesis by (simp add: unsigned_of_nat take_bit_eq_mod)
qed

lemma fifo_not_overtaken:
  assumes "k < 64" and "fifo_inv k cl r s"
  shows "\<not> overtaken (2 ^ k) s"
proof -
  note f = fifo_invD [OF assms(2)]
  have "unat (rb_write_index (cr_rb s) - idx) \<le> 2 ^ k" if fl: "inflight (cr_prod s p) = Some (idx, e)" for p idx e
  proof -
    obtain j where j: "r \<le> j" "j < length cl" "idx = word_of_nat j" using slots_fifoD(4) [OF f(4) fl] by blast
    have "length cl \<le> j + 2 ^ k" using slots_fifoD(1) [OF f(4)] j(1) by simp
    then show ?thesis using unat_dist [OF assms(1), of j "length cl"] j f(1) slots_fifoD(1) [OF f(4)] by simp
  qed
  then show ?thesis unfolding overtaken_def by (meson not_le)
qed

lemma fifo_room:
  assumes k: "k < 64" and f: "fifo_inv k cl r s" and w: "rb_write_index (cr_rb s') = rb_write_index (cr_rb s) + 1"
    and rd: "rb_read_index (cr_rb s') = rb_read_index (cr_rb s)" and room: "roomy (2 ^ k) s'"
  shows "Suc (length cl) \<le> read_pos (cr_cons s) r + 2 ^ k" and "length cl < r + 2 ^ k"
proof -
  let ?n = "length cl" and ?a = "read_pos (cr_cons s) r"
  note d = fifo_invD [OF f]
  have a: "?a \<le> r" "r \<le> ?n" using slots_fifoD(1) [OF d(4)] by (simp_all add: read_pos_def)
  have big: "(2::nat) ^ k \<le> 2 ^ 63" using k by (intro power_increasing) auto
  have "word_of_nat (Suc ?n) - word_of_nat ?a = (word_of_nat (Suc ?n - ?a) :: u64)"
    using a by (simp add: of_nat_diff)
  then have "unat (word_of_nat (Suc ?n - ?a) :: u64) \<le> 2 ^ k"
    using room w rd d(1,2) by (simp add: roomy_def algebra_simps)
  moreover have "Suc ?n - ?a < 2 ^ 64" using d(3) big by simp
  ultimately have "Suc ?n - ?a \<le> 2 ^ k" by (simp add: unsigned_of_nat take_bit_eq_mod)
  then show "Suc ?n \<le> ?a + 2 ^ k" by simp
  then show "?n < r + 2 ^ k" using a by simp
qed

text \<open>What a step contributes to the order.\<close>

definition in_order :: "nat \<Rightarrow> entry list \<Rightarrow> nat \<Rightarrow> clabel \<Rightarrow> CRing \<Rightarrow> bool" where
  "in_order k cl r l s' \<longleftrightarrow> fifo_inv k (cl @ c_claimed [l]) (r + length (c_popped [l])) s'
     \<and> (\<forall>e. l = CPop e \<longrightarrow> r < length cl \<and> e = cl ! r) \<and> filter fits (c_rejected [l]) = []"

lemma claim_fifo:
  assumes k: "k < 64" and f: "fifo_inv k cl r s" and room: "roomy (2 ^ k) s'"
    and len: "length (entry_payload e0) < 2 ^ 32" and step: "prod_step (2 ^ k) p e0 s = Some (l, s')" and pc: "cr_prod s p = PIdle"
  shows "in_order k cl r l s'"
proof (cases "fits e0")
  case False
  with step pc f len show ?thesis by (auto simp: prod_step_simps small_fits in_order_def)
next
  case True
  note d = fifo_invD [OF f]
  have s': "l = CClaim e0" "s' = s\<lparr>cr_rb := (cr_rb s)\<lparr>rb_write_index := rb_write_index (cr_rb s) + 1\<rparr>,
      cr_prod := (cr_prod s)(p := PClaimed (rb_write_index (cr_rb s)) e0)\<rparr>"
    using True step pc len by (auto simp: prod_step_simps small_fits)
  have n: "Suc (length cl) \<le> read_pos (cr_cons s) r + 2 ^ k" "length cl < r + 2 ^ k"
    using fifo_room [OF k f, of s'] s' room by auto
  show ?thesis using fifo_claim [OF d(4) pc n(2), of e0] d n s' by (auto simp: in_order_def fifo_inv_def)
qed

lemma fill_fifo:
  assumes k: "k < 64" and inv: "conc_inv k s" and f: "fifo_inv k cl r s"
    and step: "prod_step (2 ^ k) p e0 s = Some (l, s')" and pc: "cr_prod s p = PFilling idx e"
  shows "in_order k cl r l s'"
proof -
  obtain slot where slot: "\<not> sl_ready slot" and s': "l = CTau" "s' = s\<lparr>cr_rb := (cr_rb s)\<lparr>rb_slots :=
      (rb_slots (cr_rb s))[slot_index (2 ^ k) idx := slot]\<rparr>, cr_prod := (cr_prod s)(p := PFilled idx e)\<rparr>"
    using fill_step [OF k inv pc, of e0] step by (metis option.inject prod.inject)
  note d = fifo_invD [OF f]
  obtain j where j: "r \<le> j" "j < length cl" "idx = word_of_nat j" "\<not> sl_ready (nth_slot k (rb_slots (cr_rb s)) j)"
    using slots_fifoD(4) [OF d(4), of p idx e] pc by auto
  have "slots_fifo k cl r ((rb_slots (cr_rb s))[slot_index (2 ^ k) idx := slot]) ((cr_prod s)(p := PFilled idx e))"
    using fifo_quiet [OF fifo_goto [OF d(4), of "PFilled idx e" p], of j] slots_fifoD(1) [OF d(4)] j slot pc
    by (simp add: slot_index_of_nat k)
  then show ?thesis using d s' by (auto simp: in_order_def fifo_inv_def)
qed

lemma prod_step_fifo:
  assumes k: "k < 64" and inv: "conc_inv k s" and f: "fifo_inv k cl r s" and room: "roomy (2 ^ k) s'"
    and len: "length (entry_payload e0) < 2 ^ 32" and step: "prod_step (2 ^ k) p e0 s = Some (l, s')"
  shows "in_order k cl r l s'"
proof (cases "cr_prod s p")
  case PIdle
  then show ?thesis by (rule claim_fifo [OF k f room len step])
next
  case (PClaimed idx e)
  have "\<not> sl_ready (slot_at (2 ^ k) s idx)"
    using slots_fifoD(4) [OF fifo_invD(4) [OF f], of p idx e] PClaimed by (auto simp: slot_index_of_nat k)
  with step PClaimed f fifo_goto [OF fifo_invD(4) [OF f], of "PFilling idx e" p] show ?thesis
    by (auto simp: prod_step_simps in_order_def fifo_inv_def)
next
  case (PFilling idx e)
  then show ?thesis by (rule fill_fifo [OF k inv f step])
next
  case (PFilled idx e)
  let ?i = "slot_index (2 ^ k) idx"
  have e: "slot_entry (slot_at (2 ^ k) s idx) = e" using conc_invD(2) [OF inv, of p] PFilled by simp
  have s': "l = CAccept e" "s' = s\<lparr>cr_rb := (cr_rb s)\<lparr>rb_slots := (rb_slots (cr_rb s))[?i := (slot_at (2 ^ k) s idx)\<lparr>sl_ready := True\<rparr>]\<rparr>,
      cr_prod := (cr_prod s)(p := PIdle)\<rparr>"
    using step PFilled by (auto simp: prod_step_simps)
  note d = fifo_invD [OF f]
  have "slots_fifo k cl r ((rb_slots (cr_rb s))[?i := (slot_at (2 ^ k) s idx)\<lparr>sl_ready := True\<rparr>]) ((cr_prod s)(p := PIdle))"
    using fifo_publish [OF d(4) k conc_invD(4) [OF inv]] PFilled e by (simp add: slot_entry_def)
  then show ?thesis using d s' by (auto simp: in_order_def fifo_inv_def)
qed

lemma cons_step_fifo:
  assumes k: "k < 64" and inv: "conc_inv k s" and f: "fifo_inv k cl r s" and step: "cons_step (2 ^ k) s = Some (l, s')"
  shows "in_order k cl r l s'"
proof -
  let ?slots = "rb_slots (cr_rb s)"
  note d = fifo_invD [OF f]
  show ?thesis
  proof (cases "cr_cons s")
    case CIdle
    with step f show ?thesis by (auto simp: cons_step_def Let_def in_order_def fifo_inv_def read_pos_def split: if_splits)
  next
    case CCopying
    with step f show ?thesis
      by (auto simp: cons_step_def Let_def in_order_def fifo_inv_def read_pos_def bind_eq_Some_conv)
  next
    case CCopied
    then have i: "slot_index (2 ^ k) (rb_read_index (cr_rb s)) = r mod 2 ^ k"
      using d(2) by (simp add: read_pos_def slot_index_of_nat k)
    have c: "sl_ready (nth_slot k ?slots r)" "popped_entry (cr_out s) = slot_entry (nth_slot k ?slots r)"
      using conc_invD(3) [OF inv] CCopied i by (simp_all add: cons_ok_def)
    from step CCopied have s': "l = CPop (popped_entry (cr_out s))" "s' = s\<lparr>cr_rb := (cr_rb s)\<lparr>rb_slots :=
        ?slots[r mod 2 ^ k := (nth_slot k ?slots r)\<lparr>sl_ready := False\<rparr>]\<rparr>, cr_cons := CCleared\<rparr>"
      by (auto simp: cons_step_def Let_def i)
    with fifo_front [OF k d(4) c(1)] fifo_pop [OF d(4) c(1)] c(2) d CCopied show ?thesis
      by (auto simp: in_order_def fifo_inv_def read_pos_def)
  next
    case CCleared
    then have "word_of_nat (r - 1) + 1 = (word_of_nat r :: u64)" using d(5) by (cases r) (simp_all add: add.commute)
    with step CCleared d show ?thesis
      by (auto simp: cons_step_def Let_def in_order_def fifo_inv_def read_pos_def)
  qed
qed

lemma fifo_inv_init: "fifo_inv k [] 0 (CRing_init (2 ^ k))"
  by (simp add: fifo_inv_def CRing_init_def MpscRingBuffer_init_def read_pos_def slots_fifo_def Slot_init_def)

text \<open>The state of the ring tells how many records were popped.\<close>

lemma fifo_inv_popped:
  assumes "k < 64" and "fifo_inv k cl r s" and "fifo_inv k cl r' s"
  shows "r = r'"
proof -
  have dist: "unat (rb_write_index (cr_rb s) - rb_read_index (cr_rb s)) = length cl - read_pos (cr_cons s) q
      \<and> read_pos (cr_cons s) q \<le> length cl \<and> (cr_cons s = CCleared \<longrightarrow> 0 < q)" if "fifo_inv k cl q s" for q
  proof -
    note d = fifo_invD [OF that]
    have "read_pos (cr_cons s) q \<le> length cl" using slots_fifoD(1) [OF d(4)] by (auto simp: read_pos_def)
    with unat_dist [OF assms(1) this d(3)] d show ?thesis by simp
  qed
  have "length cl - read_pos (cr_cons s) r = length cl - read_pos (cr_cons s) r'"
    using dist [OF assms(2)] dist [OF assms(3)] by metis
  with dist [OF assms(2)] dist [OF assms(3)] have "read_pos (cr_cons s) r = read_pos (cr_cons s) r'" by linarith
  with dist [OF assms(2)] dist [OF assms(3)] show ?thesis by (auto simp: read_pos_def split: if_splits)
qed

lemma conc_step_fifo:
  assumes k: "k < 64" and inv: "conc_inv k s" and f: "fifo_inv k cl r s" and step: "conc_step (2 ^ k) s l s'" and room: "roomy (2 ^ k) s'"
  shows "conc_inv k s'" "in_order k cl r l s'"
proof -
  from step show ord: "in_order k cl r l s'"
  proof cases
    case (producer e p)
    then show ?thesis using prod_step_fifo [OF k inv f room] by blast
  next
    case consumer
    then show ?thesis using cons_step_fifo [OF k inv f] by blast
  qed
  then have "fifo_inv k (cl @ c_claimed [l]) (r + length (c_popped [l])) s'" by (simp add: in_order_def)
  with conc_step_inv [OF k inv fifo_not_overtaken [OF k f] step] fifo_not_overtaken [OF k] show "conc_inv k s'" by blast
qed

lemma conc_run_fifo:
  assumes "conc_run (2 ^ k) (roomy (2 ^ k)) s0 ls s" and "k < 64" and "s0 = CRing_init (2 ^ k)"
  shows "conc_inv k s \<and> fifo_inv k (c_claimed ls) (length (c_popped ls)) s
    \<and> c_popped ls = take (length (c_popped ls)) (c_claimed ls) \<and> filter fits (c_rejected ls) = []"
  using assms
proof (induction rule: conc_run.induct)
  case (run_start s)
  then show ?case using conc_inv_init fifo_inv_init by simp
next
  case (run_step s ls s1 l s2)
  note k = run_step.prems(1)
  have IH: "conc_inv k s1" "fifo_inv k (c_claimed ls) (length (c_popped ls)) s1"
    "c_popped ls = take (length (c_popped ls)) (c_claimed ls)" "filter fits (c_rejected ls) = []"
    using run_step.IH [OF run_step.prems] by simp_all
  note step = conc_step_fifo [OF k IH(1,2) run_step.hyps(2,3)]
  note ord = step(2)
  then have fifo: "fifo_inv k (c_claimed (ls @ [l])) (length (c_popped (ls @ [l]))) s2" by (simp add: in_order_def)
  have "conc_inv k s2" by (rule step(1))
  moreover have "c_popped (ls @ [l]) = take (length (c_popped (ls @ [l]))) (c_claimed (ls @ [l]))"
  proof (cases l)
    case (CPop e)
    then have "length (c_popped ls) < length (c_claimed ls)" "e = c_claimed ls ! length (c_popped ls)"
      using ord by (auto simp: in_order_def)
    with IH(3) CPop show ?thesis by (simp add: take_Suc_conv_app_nth)
  qed (use IH(3) slots_fifoD(1) [OF fifo_invD(4) [OF IH(2)]] in auto)
  moreover have "filter fits (c_rejected (ls @ [l])) = []" using IH(4) ord by (simp add: in_order_def)
  ultimately show ?case using fifo by blast
qed

text \<open>Between calls the ring is the bounded queue.\<close>

lemma fifo_quiescent:
  assumes k: "k < 64" and inv: "conc_inv k s" and f: "fifo_inv k cl r s"
    and idle: "\<And>p. cr_prod s p = PIdle" "cr_cons s = CIdle"
  shows "ring_inv k (cr_rb s) \<and> ring_queue k (cr_rb s) = drop r cl"
proof -
  let ?rb = "cr_rb s" and ?n = "length cl"
  note d = fifo_invD [OF f]
  note sl = slots_fifoD [OF d(4)]
  have ri: "rb_read_index ?rb = word_of_nat r" using d(2) idle(2) by (simp add: read_pos_def)
  have fill: "ring_fill ?rb = ?n - r" using unat_dist [OF k, of r ?n] sl(1) d(1) ri by (simp add: ring_fill_def)
  have pos: "pos k (word_of_nat r + word_of_nat j) = (r + j) mod 2 ^ k" for j
    using slot_index_of_nat [OF k, of "r + j"] by (simp add: slot_index_pow2 [OF k])
  have ready: "sl_ready (nth_slot k (rb_slots ?rb) (r + j)) \<and> slot_entry (nth_slot k (rb_slots ?rb) (r + j)) = cl ! (r + j)"
    if "j < ?n - r" for j
    using sl(3) [of "r + j"] that idle(1) by auto
  have "window k ?rb (?n - r)"
    unfolding window_def
  proof (intro conjI allI impI)
    fix j :: nat assume "j < 2 ^ k"
    then show "sl_ready (rb_slots ?rb ! pos k (rb_read_index ?rb + word_of_nat j)) \<longleftrightarrow> j < ?n - r"
      using ready [of j] sl(5) [of "r + j"] by (cases "j < ?n - r") (simp_all add: ri pos)
  qed (use sl(1) in auto)
  moreover have "window_entries k ?rb (?n - r) = drop r cl"
    using ready by (intro nth_equalityI) (simp_all add: window_entries_def ri pos)
  ultimately show ?thesis using conc_invD(1) [OF inv] by (simp add: ring_inv_def ring_queue_def fill)
qed

section \<open>Properties\<close>

text \<open>C10: With any number of producers and the consumer interleaved access by access: while
  \<open>write_index_ - read_index_\<close> stays within the capacity, records are popped in the order of the
  producers' \<open>fetch_add\<close>s, no record that fits is refused, nobody is overtaken and there is no race; and
  whenever all threads are between calls the ring is the bounded queue of the atomic operations,
  holding exactly the claimed records that are not popped yet.\<close>

theorem concurrent_ring_fifo:
  assumes "k < 64" and "conc_run (2 ^ k) (roomy (2 ^ k)) (CRing_init (2 ^ k)) ls s"
  shows "c_popped ls = take (length (c_popped ls)) (c_claimed ls) \<and> filter fits (c_rejected ls) = []
    \<and> \<not> overtaken (2 ^ k) s \<and> \<not> race (2 ^ k) s
    \<and> ((\<forall>p. cr_prod s p = PIdle) \<and> cr_cons s = CIdle \<longrightarrow>
         ring_inv k (cr_rb s) \<and> c_claimed ls = c_popped ls @ ring_queue k (cr_rb s))"
proof -
  have r: "conc_inv k s" "fifo_inv k (c_claimed ls) (length (c_popped ls)) s"
    "c_popped ls = take (length (c_popped ls)) (c_claimed ls)" "filter fits (c_rejected ls) = []"
    using conc_run_fifo [OF assms(2,1) refl] by simp_all
  have "ring_inv k (cr_rb s) \<and> c_claimed ls = c_popped ls @ ring_queue k (cr_rb s)"
    if "\<forall>p. cr_prod s p = PIdle" "cr_cons s = CIdle"
    using fifo_quiescent [OF assms(1) r(1,2)] that r(3) append_take_drop_id [of "length (c_popped ls)" "c_claimed ls"] by simp
  with r fifo_not_overtaken [OF assms(1) r(2)] conc_inv_race_free [OF r(1)] show ?thesis by blast
qed

theorem concurrent_ring_fifo_witness:
  "\<exists>s. conc_run (2 ^ 12) (roomy (2 ^ 12)) (CRing_init (2 ^ 12)) ([] @ [CClaim (4, 10, 0, [7])]) s
     \<and> \<not> overtaken (2 ^ 12) s \<and> \<not> race (2 ^ 12) s"
proof -
  have "roomy (2 ^ 12) (CRing_init (2 ^ 12))" "roomy (2 ^ 12) (after_claim (4, 10, 0, [7]))"
    by (simp_all add: roomy_def after_claim_def CRing_init_def MpscRingBuffer_init_def)
  then have run: "conc_run (2 ^ 12) (roomy (2 ^ 12)) (CRing_init (2 ^ 12)) ([] @ [CClaim (4, 10, 0, [7])])
      (after_claim (4, 10, 0, [7]))"
    by (intro run_step [OF run_start first_claim] fits_small)
  from concurrent_ring_fifo [OF _ run] run show ?thesis by (intro exI [of _ "after_claim (4, 10, 0, [7])"]) simp
qed

end
