(* ===== verification/Simulation.thy ===== *)
theory Simulation
  imports Main
begin

text \<open>
  Runs of a labelled step relation, and the interface of a forward simulation: every step of the
  detailed system is matched by one abstract step with the same observation, or by none when it
  shows nothing. Proved once: runs are matched by runs. The projection of the interleaved writer to its ring (\<open>Concurrent_Writer\<close>) and the
  refinement of the writer to a log (\<open>Session_Log\<close>) are its two instances.
\<close>

inductive run_of :: "('s \<Rightarrow> 'l \<Rightarrow> 's \<Rightarrow> bool) \<Rightarrow> 's \<Rightarrow> 'l list \<Rightarrow> 's \<Rightarrow> bool" for step where
  run_nil: "run_of step s [] s"
| run_snoc: "run_of step s ls s1 \<Longrightarrow> step s1 l s2 \<Longrightarrow> run_of step s (ls @ [l]) s2"

locale stuttering_simulation =
  fixes cstep :: "'c \<Rightarrow> 'l \<Rightarrow> 'c \<Rightarrow> bool" and astep :: "'a \<Rightarrow> 'm \<Rightarrow> 'a \<Rightarrow> bool"
    and rel :: "'c \<Rightarrow> 'a \<Rightarrow> bool" and cobs :: "'l \<Rightarrow> 'o list" and aobs :: "'m \<Rightarrow> 'o list"
  assumes match: "cstep c l c' \<Longrightarrow> rel c a \<Longrightarrow>
    (\<exists>m a'. astep a m a' \<and> aobs m = cobs l \<and> rel c' a') \<or> cobs l = [] \<and> rel c' a"
begin

text \<open>Runs are matched by runs.\<close>

lemma simulate:
  assumes "run_of cstep c ls c'" and "rel c a"
  shows "\<exists>ms a'. run_of astep a ms a' \<and> concat (map aobs ms) = concat (map cobs ls) \<and> rel c' a'"
  using assms
proof (induction rule: run_of.induct)
  case (run_nil c)
  then show ?case by (intro exI [of _ "[]"] exI [of _ a]) (simp add: run_of.run_nil)
next
  case (run_snoc c ls c1 l c2)
  then obtain ms a1 where IH: "run_of astep a ms a1" "concat (map aobs ms) = concat (map cobs ls)" "rel c1 a1" by blast
  from match [OF run_snoc.hyps(2) IH(3)] show ?case
  proof (elim disjE exE conjE)
    fix m a' assume "astep a1 m a'" "aobs m = cobs l" "rel c2 a'"
    with IH run_of.run_snoc [OF IH(1)] show ?thesis by (intro exI [of _ "ms @ [m]"] exI [of _ a']) simp
  next
    assume "cobs l = []" "rel c2 a1"
    with IH show ?thesis by (intro exI [of _ ms] exI [of _ a1]) simp
  qed
qed

end

end
