(* ===== verification/Concurrent_Writer.thy ===== *)
theory Concurrent_Writer
  imports Mpsc_Fifo Record_Writer Simulation
begin

text \<open>
  The recording engine with the ring's calls interleaved access by access. \<open>Record_Writer\<close> lets a push
  and an iteration of the writer thread's drain loop happen at once; here producers and the
  writer thread take the single accesses of \<open>Mpsc_Concurrent\<close>, and the thread's \<open>WriteRecord\<close>, its
  loop tests and flushes and the shutdown request fall anywhere between them. Shown: the ring inside
  the writer refines the interleaved ring (a simulation with stuttering), and at every moment the
  file holds the popped records but the one in hand; once the producers are done the thread writes
  all that they claimed and returns; and what happens when a producer is still inside \<open>TryPush\<close> at the final drain.
\<close>

section \<open>States and steps\<close>

record CWriter =
  cw_w :: RecordWriter
  cw_prod :: "nat \<Rightarrow> prod_pc"
  cw_cons :: cons_pc  \<comment> \<open>where the writer thread is inside \<open>TryPop\<close>\<close>
  cw_got :: bool  \<comment> \<open>\<open>TryPop\<close> returned true, \<open>WriteRecord\<close> is next\<close>

text \<open>After \<open>Open\<close>, before any call.\<close>

definition CWriter_start :: "RecordWriter \<Rightarrow> CWriter" where
  "CWriter_start w = \<lparr>cw_w = w, cw_prod = (\<lambda>_. PIdle), cw_cons = CIdle, cw_got = False\<rparr>"

text \<open>The ring as its users see it: the thread's local \<open>rec\<close> is the \<open>out\<close> of its calls.\<close>

definition ring_of :: "CWriter \<Rightarrow> CRing" where
  "ring_of c = \<lparr>cr_rb = rw_ring (cw_w c), cr_prod = cw_prod c, cr_cons = cw_cons c, cr_out = rw_rec (cw_w c)\<rparr>"

definition with_ring :: "CRing \<Rightarrow> CWriter \<Rightarrow> CWriter" where
  "with_ring s c = c\<lparr>cw_w := (cw_w c)\<lparr>rw_ring := cr_rb s, rw_rec := cr_out s\<rparr>, cw_prod := cr_prod s, cw_cons := cr_cons s\<rparr>"

fun draining :: "thread_pc \<Rightarrow> bool" where
  "draining (Draining d) = True"
| "draining FinalDrain = True"
| "draining _ = False"

text \<open>Where the thread goes on after \<open>TryPop\<close> returned (and, on true, the record was written).\<close>

fun after_pop :: "thread_pc \<Rightarrow> bool \<Rightarrow> thread_pc" where
  "after_pop (Draining drained_any) got = (if got then Draining True else AfterDrain drained_any)"
| "after_pop FinalDrain got = (if got then FinalDrain else FinalFlush)"
| "after_pop pc got = pc"

abbreviation ring_size :: nat where
  "ring_size \<equiv> 2 ^ ring_exponent"

text \<open>One access of the drain loops \<open>while (ring_.TryPop(rec)) { WriteRecord(rec); ... }\<close>.\<close>

definition drain_access :: "thread_pc \<Rightarrow> CWriter \<Rightarrow> (clabel \<times> CWriter) option" where
  "drain_access pc c =
     (if cw_got c
      then do {
        (_, w) \<leftarrow> WriteRecord (rw_rec (cw_w c)) (cw_w c);
        Some (CTau, c\<lparr>cw_w := w\<lparr>rw_thread := Some (after_pop pc True)\<rparr>, cw_got := False\<rparr>) }
      else do {
        (l, s) \<leftarrow> cons_step ring_size (ring_of c);
        if cw_cons c = CIdle \<and> cr_cons s = CIdle
        then Some (l, c\<lparr>cw_w := (cw_w c)\<lparr>rw_thread := Some (after_pop pc False)\<rparr>\<rparr>)
        else Some (l, (with_ring s c)\<lparr>cw_got := (cw_cons c = CCleared)\<rparr>) })"

text \<open>One step of the writer thread.\<close>

definition cthread_step :: "CWriter \<Rightarrow> (clabel \<times> CWriter) option" where
  "cthread_step c =
     (case rw_thread (cw_w c) of
        None \<Rightarrow> None
      | Some pc \<Rightarrow>
          if draining pc then drain_access pc c
          else do { w \<leftarrow> thread_step pc (cw_w c); Some (CTau, c\<lparr>cw_w := w\<rparr>) })"

text \<open>The first half of \<open>Close\<close>: the request, before the join.\<close>

definition request_shutdown :: "CWriter \<Rightarrow> CWriter" where
  "request_shutdown c = c\<lparr>cw_w := (cw_w c)\<lparr>rw_shutdown := True\<rparr>\<rparr>"

inductive cw_step :: "CWriter \<Rightarrow> clabel \<Rightarrow> CWriter \<Rightarrow> bool" where
  push_access: "length (entry_payload e) < 2 ^ 32 \<Longrightarrow> prod_step ring_size p e (ring_of c) = Some (l, s) \<Longrightarrow>
    cw_step c l (with_ring s c)"
| thread_access: "cthread_step c = Some (l, c') \<Longrightarrow> cw_step c l c'"
| close_request: "cw_step c CTau (request_shutdown c)"

text \<open>Runs in which the distance of the ring's indices stays within the capacity.\<close>

inductive cw_run :: "CWriter \<Rightarrow> clabel list \<Rightarrow> CWriter \<Rightarrow> bool" where
  cw_begin: "roomy ring_size (ring_of c) \<Longrightarrow> cw_run c [] c"
| cw_more: "cw_run c ls c1 \<Longrightarrow> cw_step c1 l c2 \<Longrightarrow> roomy ring_size (ring_of c2) \<Longrightarrow> cw_run c (ls @ [l]) c2"

text \<open>The thread left alone for \<open>n\<close> steps.\<close>

fun cthread_alone :: "nat \<Rightarrow> CWriter \<Rightarrow> CWriter option" where
  "cthread_alone 0 c = Some c"
| "cthread_alone (Suc n) c = do { (_, c) \<leftarrow> cthread_step c; cthread_alone n c }"

section \<open>The ring inside the writer refines the interleaved ring\<close>

lemma ring_of_with [simp]: "ring_of (with_ring s c) = s"
  by (simp add: ring_of_def with_ring_def)

lemma with_ring_twice [simp]: "with_ring s (with_ring s' c) = with_ring s c"
  by (simp add: with_ring_def)

lemma with_ring_fields [simp]:
  "cw_prod (with_ring s c) = cr_prod s" "cw_cons (with_ring s c) = cr_cons s" "cw_got (with_ring s c) = cw_got c"
  "rw_ring (cw_w (with_ring s c)) = cr_rb s" "rw_rec (cw_w (with_ring s c)) = cr_out s"
  "rw_thread (cw_w (with_ring s c)) = rw_thread (cw_w c)" "rw_shutdown (cw_w (with_ring s c)) = rw_shutdown (cw_w c)"
  "rw_os (cw_w (with_ring s c)) = rw_os (cw_w c)" "rw_bin_fd (cw_w (with_ring s c)) = rw_bin_fd (cw_w c)"
  by (simp_all add: with_ring_def)

lemma ring_of_fields [simp]:
  "cr_rb (ring_of c) = rw_ring (cw_w c)" "cr_prod (ring_of c) = cw_prod c" "cr_cons (ring_of c) = cw_cons c"
  "cr_out (ring_of c) = rw_rec (cw_w c)"
  by (simp_all add: ring_of_def)

lemma ring_of_got [simp]: "ring_of (c\<lparr>cw_got := b\<rparr>) = ring_of c"
  by (simp add: ring_of_def)

text \<open>What the thread does outside \<open>TryPop\<close> leaves the ring and the local record alone.\<close>

lemma WriteRecord_frame:
  assumes "WriteRecord r w = Some (ok, w')"
  shows "rw_ring w' = rw_ring w" "rw_rec w' = rw_rec w" "rw_shutdown w' = rw_shutdown w" "rw_bin_fd w' = rw_bin_fd w"
  using assms by (auto simp: WriteRecord_def bind_eq_Some_conv split: if_splits prod.splits)

lemma thread_step_frame:
  assumes "thread_step pc w = Some w'" and "\<not> draining pc"
  shows "rw_ring w' = rw_ring w" "rw_rec w' = rw_rec w"
  using assms by (cases pc; auto simp: MaybeFlush_def Let_def steady_now_def split: if_splits)+

text \<open>The cases of a thread step: a call outside the drain loops, \<open>WriteRecord\<close>, a \<open>TryPop\<close> that finds
  nothing, any other access of \<open>TryPop\<close>.\<close>

lemma cthread_step_cases:
  assumes "cthread_step c = Some (l, c')"
  obtains (other) pc w where "rw_thread (cw_w c) = Some pc" "\<not> draining pc" "thread_step pc (cw_w c) = Some w"
      "l = CTau" "c' = c\<lparr>cw_w := w\<rparr>"
  | (wrote) pc ok w where "rw_thread (cw_w c) = Some pc" "draining pc" "cw_got c"
      "WriteRecord (rw_rec (cw_w c)) (cw_w c) = Some (ok, w)" "l = CTau"
      "c' = c\<lparr>cw_w := w\<lparr>rw_thread := Some (after_pop pc True)\<rparr>, cw_got := False\<rparr>"
  | (miss) pc where "rw_thread (cw_w c) = Some pc" "draining pc" "\<not> cw_got c" "cw_cons c = CIdle"
      "\<not> sl_ready (slot_at ring_size (ring_of c) (rb_read_index (rw_ring (cw_w c))))" "l = CTau"
      "cons_step ring_size (ring_of c) = Some (l, ring_of c)"
      "c' = c\<lparr>cw_w := (cw_w c)\<lparr>rw_thread := Some (after_pop pc False)\<rparr>\<rparr>"
  | (access) pc s where "rw_thread (cw_w c) = Some pc" "draining pc" "\<not> cw_got c"
      "cons_step ring_size (ring_of c) = Some (l, s)" "cw_cons c = CIdle \<longrightarrow> cr_cons s = CCopying"
      "c' = (with_ring s c)\<lparr>cw_got := (cw_cons c = CCleared)\<rparr>"
proof -
  obtain pc where pc: "rw_thread (cw_w c) = Some pc" using assms by (auto simp: cthread_step_def split: option.splits)
  show thesis
  proof (cases "draining pc")
    case False
    with assms pc other [OF pc False] show thesis by (auto simp: cthread_step_def bind_eq_Some_conv)
  next
    case True
    with assms pc have d: "drain_access pc c = Some (l, c')" by (simp add: cthread_step_def)
    show thesis
    proof (cases "cw_got c")
      case got: True
      with d obtain ok w where "WriteRecord (rw_rec (cw_w c)) (cw_w c) = Some (ok, w)" "l = CTau"
        "c' = c\<lparr>cw_w := w\<lparr>rw_thread := Some (after_pop pc True)\<rparr>, cw_got := False\<rparr>"
        by (auto simp: drain_access_def bind_eq_Some_conv)
      with pc True got show thesis by (rule wrote)
    next
      case False
      with d obtain s where s: "cons_step ring_size (ring_of c) = Some (l, s)"
        and c': "if cw_cons c = CIdle \<and> cr_cons s = CIdle
          then c' = c\<lparr>cw_w := (cw_w c)\<lparr>rw_thread := Some (after_pop pc False)\<rparr>\<rparr>
          else c' = (with_ring s c)\<lparr>cw_got := (cw_cons c = CCleared)\<rparr>"
        by (auto simp: drain_access_def bind_eq_Some_conv split: if_splits)
      have idle: "s = ring_of c \<and> l = CTau \<and> \<not> sl_ready (slot_at ring_size (ring_of c) (rb_read_index (rw_ring (cw_w c))))
          \<or> cr_cons s = CCopying" if "cw_cons c = CIdle"
        using s that by (auto simp: cons_step_def Let_def split: if_splits)
      show thesis
      proof (cases "cw_cons c = CIdle \<and> cr_cons s = CIdle")
        case True
        with idle c' s pc \<open>draining pc\<close> False show thesis by (intro miss [of pc]) auto
      next
        case no: False
        with idle c' s pc \<open>draining pc\<close> False show thesis by (intro access [of pc s]) auto
      qed
    qed
  qed
qed

lemma cthread_step_sim:
  assumes "cthread_step c = Some (l, c')"
  shows "cons_step ring_size (ring_of c) = Some (l, ring_of c') \<or> l = CTau \<and> ring_of c' = ring_of c"
  using assms
proof (cases rule: cthread_step_cases)
  case (other pc w)
  then show ?thesis using thread_step_frame [of pc "cw_w c" w] by (simp add: ring_of_def)
next
  case (wrote pc ok w)
  then show ?thesis using WriteRecord_frame [of "rw_rec (cw_w c)" "cw_w c" ok w] by (simp add: ring_of_def)
next
  case (miss pc)
  then show ?thesis by (simp add: ring_of_def)
next
  case (access pc s)
  then show ?thesis by simp
qed

lemma cw_step_sim:
  assumes "cw_step c l c'"
  shows "conc_step ring_size (ring_of c) l (ring_of c') \<or> (l = CTau \<and> ring_of c' = ring_of c)"
  using assms
proof cases
  case (push_access e p s)
  then show ?thesis by (auto intro: conc_step.producer)
next
  case thread_access
  then show ?thesis using cthread_step_sim [of c l c'] by (auto intro: conc_step.consumer)
next
  case close_request
  then show ?thesis by (simp add: ring_of_def request_shutdown_def)
qed

text \<open>The steps of a run that are visible to the ring's users.\<close>

definition visible :: "clabel list \<Rightarrow> clabel list" where
  "visible ls = filter (\<lambda>l. l \<noteq> CTau) ls"

lemma visible_append [simp]: "visible (ls @ ls') = visible ls @ visible ls'"
  by (simp add: visible_def)

lemma visible_labels [simp]: "c_claimed (visible ls) = c_claimed ls" "c_popped (visible ls) = c_popped ls"
    "c_accepted (visible ls) = c_accepted ls" "c_rejected (visible ls) = c_rejected ls"
  by (induction ls rule: c_claimed.induct) (simp_all add: visible_def)

lemma visible_eqD:
  assumes "visible ls = visible ls'"
  shows "c_claimed ls = c_claimed ls'" "c_popped ls = c_popped ls'" "c_accepted ls = c_accepted ls'" "c_rejected ls = c_rejected ls'"
  using assms visible_labels by metis+

text \<open>Both kinds of runs are runs of a step relation whose states stay roomy.\<close>

abbreviation roomy_step :: "CWriter \<Rightarrow> clabel \<Rightarrow> CWriter \<Rightarrow> bool" where
  "roomy_step c l c' \<equiv> cw_step c l c' \<and> roomy ring_size (ring_of c')"

lemma cw_run_iff: "cw_run c ls c' \<longleftrightarrow> roomy ring_size (ring_of c) \<and> run_of roomy_step c ls c'"
proof
  show "roomy ring_size (ring_of c) \<and> run_of roomy_step c ls c'" if "cw_run c ls c'"
    using that by (induction rule: cw_run.induct) (auto intro: run_of.intros)
  have "cw_run c ls c'" if "run_of roomy_step c ls c'" "roomy ring_size (ring_of c)"
    using that by (induction rule: run_of.induct) (auto intro: cw_run.intros)
  then show "roomy ring_size (ring_of c) \<and> run_of roomy_step c ls c' \<Longrightarrow> cw_run c ls c'" by blast
qed

lemma conc_run_iff: "conc_run C ok s ls s' \<longleftrightarrow> ok s \<and> run_of (\<lambda>s l s'. conc_step C s l s' \<and> ok s') s ls s'"
proof
  show "ok s \<and> run_of (\<lambda>s l s'. conc_step C s l s' \<and> ok s') s ls s'" if "conc_run C ok s ls s'"
    using that by (induction rule: conc_run.induct) (auto intro: run_of.intros)
  have "conc_run C ok s ls s'" if "run_of (\<lambda>s l s'. conc_step C s l s' \<and> ok s') s ls s'" "ok s"
    using that by (induction rule: run_of.induct) (auto intro: conc_run.intros)
  then show "ok s \<and> run_of (\<lambda>s l s'. conc_step C s l s' \<and> ok s') s ls s' \<Longrightarrow> conc_run C ok s ls s'" by blast
qed

definition shown :: "clabel \<Rightarrow> clabel list" where
  "shown l = (if l = CTau then [] else [l])"

lemma visible_shown: "visible ls = concat (map shown ls)"
  by (induction ls) (simp_all add: visible_def shown_def)

interpretation ring_sim: stuttering_simulation roomy_step "\<lambda>s l s'. conc_step ring_size s l s' \<and> roomy ring_size s'"
  "\<lambda>c s. s = ring_of c" shown shown
  using cw_step_sim by unfold_locales (fastforce simp: shown_def)

lemma cw_run_sim:
  assumes "cw_run c ls c'"
  shows "\<exists>ls'. conc_run ring_size (roomy ring_size) (ring_of c) ls' (ring_of c') \<and> visible ls' = visible ls"
  using ring_sim.simulate [of c ls c' "ring_of c"] assms by (auto simp: cw_run_iff conc_run_iff visible_shown)

lemma cw_run_trans: "cw_run c1 ls' c2 \<Longrightarrow> cw_run c ls c1 \<Longrightarrow> cw_run c (ls @ ls') c2"
proof (induction rule: cw_run.induct)
  case (cw_more c1 ls' c2 l c3)
  then show ?case using cw_run.cw_more [of c "ls @ ls'" c2 l c3] by simp
qed simp

section \<open>The file along a run\<close>

text \<open>What \<open>Open\<close> leaves when the writer is new.\<close>

definition opened :: "bytes \<Rightarrow> RecordWriter \<Rightarrow> bool" where
  "opened prefix w \<longleftrightarrow> rw_ring w = MpscRingBuffer_init ring_size \<and> rw_rec w = PoppedRecord_init
     \<and> 0 \<le> rw_bin_fd w \<and> good_disk (rw_os w) \<and> file_of w = prefix \<and> rw_thread w = Some LoopTest \<and> \<not> rw_shutdown w
     \<and> os_synced (rw_os w) = 0 \<and> rw_pending w = 0"

lemma ring_of_start: "opened prefix w \<Longrightarrow> ring_of (CWriter_start w) = CRing_init ring_size"
  by (simp add: opened_def ring_of_def CWriter_start_def CRing_init_def)

text \<open>Everything the ring's theory says about a run holds of the ring inside the writer.\<close>

lemma cw_run_fifo:
  assumes "opened prefix w0" and "cw_run (CWriter_start w0) ls c"
  shows "conc_inv ring_exponent (ring_of c)"
    "fifo_inv ring_exponent (c_claimed ls) (length (c_popped ls)) (ring_of c)"
    "c_popped ls = take (length (c_popped ls)) (c_claimed ls)" "filter fits (c_rejected ls) = []"
proof -
  obtain ls' where "conc_run ring_size (roomy ring_size) (CRing_init ring_size) ls' (ring_of c)" and v: "visible ls' = visible ls"
    using cw_run_sim [OF assms(2)] ring_of_start [OF assms(1)] by auto
  from conc_run_fifo [OF this(1) ring_exponent_less refl] visible_eqD [OF v]
  show "conc_inv ring_exponent (ring_of c)"
    "fifo_inv ring_exponent (c_claimed ls) (length (c_popped ls)) (ring_of c)"
    "c_popped ls = take (length (c_popped ls)) (c_claimed ls)" "filter fits (c_rejected ls) = []" by simp_all
qed

text \<open>The record popped and not yet written.\<close>

definition in_hand :: "CWriter \<Rightarrow> entry list" where
  "in_hand c = (if cw_got c \<or> cw_cons c = CCleared then [popped_entry (rw_rec (cw_w c))] else [])"

definition cw_inv :: "bytes \<Rightarrow> entry list \<Rightarrow> CWriter \<Rightarrow> bool" where
  "cw_inv prefix popped c \<longleftrightarrow>
     (\<exists>ws. popped = ws @ in_hand c \<and> file_of (cw_w c) = prefix @ records_bytes ws)
     \<and> 0 \<le> rw_bin_fd (cw_w c) \<and> good_disk (rw_os (cw_w c))
     \<and> (cw_got c \<or> cw_cons c = CCopied \<or> cw_cons c = CCleared \<longrightarrow> unat (pr_payload_len (rw_rec (cw_w c))) \<le> kMaxPayloadBytes)
     \<and> (cw_got c \<longrightarrow> cw_cons c = CIdle)
     \<and> (\<exists>pc. rw_thread (cw_w c) = Some pc \<and> (cw_got c \<or> cw_cons c \<noteq> CIdle \<longrightarrow> draining pc) \<and> (rw_shutdown (cw_w c) \<or> live pc))"

lemma cw_invD:
  assumes "cw_inv prefix popped c"
  obtains ws pc where "popped = ws @ in_hand c" "file_of (cw_w c) = prefix @ records_bytes ws" "0 \<le> rw_bin_fd (cw_w c)" "good_disk (rw_os (cw_w c))"
    "cw_got c \<or> cw_cons c = CCopied \<or> cw_cons c = CCleared \<longrightarrow> unat (pr_payload_len (rw_rec (cw_w c))) \<le> kMaxPayloadBytes"
    "cw_got c \<longrightarrow> cw_cons c = CIdle"
    "rw_thread (cw_w c) = Some pc" "cw_got c \<or> cw_cons c \<noteq> CIdle \<longrightarrow> draining pc" "rw_shutdown (cw_w c) \<or> live pc"
  using assms unfolding cw_inv_def by blast

lemma cw_inv_start: "opened prefix w \<Longrightarrow> cw_inv prefix [] (CWriter_start w)"
  by (simp add: opened_def cw_inv_def CWriter_start_def in_hand_def)

lemma cw_invI:
  assumes "popped = ws @ in_hand c" "file_of (cw_w c) = prefix @ records_bytes ws" "0 \<le> rw_bin_fd (cw_w c)" "good_disk (rw_os (cw_w c))"
    "cw_got c \<or> cw_cons c = CCopied \<or> cw_cons c = CCleared \<Longrightarrow> unat (pr_payload_len (rw_rec (cw_w c))) \<le> kMaxPayloadBytes"
    "cw_got c \<Longrightarrow> cw_cons c = CIdle"
    "rw_thread (cw_w c) = Some pc" "cw_got c \<or> cw_cons c \<noteq> CIdle \<Longrightarrow> draining pc" "rw_shutdown (cw_w c) \<or> live pc"
  shows "cw_inv prefix popped c"
  using assms unfolding cw_inv_def by blast

text \<open>Steps that move neither the file nor the record in hand.\<close>

lemma cw_inv_frame:
  assumes inv: "cw_inv prefix popped c"
    and "cw_got c' = cw_got c" "cw_cons c' = cw_cons c" "rw_rec (cw_w c') = rw_rec (cw_w c)" "file_of (cw_w c') = file_of (cw_w c)"
      "rw_bin_fd (cw_w c') = rw_bin_fd (cw_w c)" "good_disk (rw_os (cw_w c)) \<Longrightarrow> good_disk (rw_os (cw_w c'))"
    and pc: "rw_thread (cw_w c') = Some pc'" "cw_got c \<or> cw_cons c \<noteq> CIdle \<Longrightarrow> rw_thread (cw_w c') = rw_thread (cw_w c)"
      "\<And>pc. rw_thread (cw_w c) = Some pc \<Longrightarrow> rw_shutdown (cw_w c) \<or> live pc \<Longrightarrow> rw_shutdown (cw_w c') \<or> live pc'"
  shows "cw_inv prefix popped c'"
proof -
  from inv obtain ws pc where ws: "popped = ws @ in_hand c" "file_of (cw_w c) = prefix @ records_bytes ws"
    and d: "0 \<le> rw_bin_fd (cw_w c)" "good_disk (rw_os (cw_w c))"
      "cw_got c \<or> cw_cons c = CCopied \<or> cw_cons c = CCleared \<longrightarrow> unat (pr_payload_len (rw_rec (cw_w c))) \<le> kMaxPayloadBytes"
      "cw_got c \<longrightarrow> cw_cons c = CIdle"
      "rw_thread (cw_w c) = Some pc" "cw_got c \<or> cw_cons c \<noteq> CIdle \<longrightarrow> draining pc" "rw_shutdown (cw_w c) \<or> live pc"
    by (rule cw_invD)
  with assms(2-7) pc show ?thesis by (intro cw_invI [of _ ws _ _ pc']) (auto simp: in_hand_def)
qed

lemma cw_inv_push:
  assumes "cw_inv prefix popped c" and "prod_step ring_size p e (ring_of c) = Some (l, s)"
  shows "cw_inv prefix (popped @ c_popped [l]) (with_ring s c)"
proof -
  have f: "c_popped [l] = []" "cr_cons s = cw_cons c" "cr_out s = rw_rec (cw_w c)"
    using assms(2) by (auto simp: prod_step_simps bind_eq_Some_conv split: prod_pc.splits if_splits prod.splits)
  obtain pc where "rw_thread (cw_w c) = Some pc" using assms(1) by (rule cw_invD)
  with cw_inv_frame [OF assms(1), of "with_ring s c" pc] f show ?thesis by simp
qed

lemma live_after_pop: "live pc \<Longrightarrow> live (after_pop pc got)"
  by (cases pc) simp_all

lemma draining_after_pop: "draining pc \<Longrightarrow> draining (after_pop pc True)"
  by (cases pc) simp_all

lemma cw_inv_other:
  assumes inv: "cw_inv prefix popped c" and pc: "rw_thread (cw_w c) = Some pc" "\<not> draining pc"
    and step: "thread_step pc (cw_w c) = Some w"
  shows "cw_inv prefix popped (c\<lparr>cw_w := w\<rparr>)"
proof -
  obtain pc' where pc': "rw_thread w = Some pc'" "rw_shutdown (cw_w c) \<or> live pc \<Longrightarrow> rw_shutdown w \<or> live pc'"
    using step pc MaybeFlush_frame(2) [of "cw_w c"] by (cases pc) (auto split: if_splits)
  have f: "file_of w = file_of (cw_w c)" "rw_bin_fd w = rw_bin_fd (cw_w c)" "good_disk (rw_os (cw_w c)) \<Longrightarrow> good_disk (rw_os w)"
    using step pc(2)
    by (cases pc; auto simp: MaybeFlush_def Let_def steady_now_def sys_fsync_def good_disk_def split: if_splits)+
  have "\<not> cw_got c" "cw_cons c = CIdle" using inv pc by (auto simp: cw_inv_def)
  then show ?thesis
    using cw_inv_frame [OF inv, of "c\<lparr>cw_w := w\<rparr>" pc'] f pc pc' thread_step_frame(2) [OF step pc(2)] by simp
qed

lemma cw_inv_wrote:
  assumes inv: "cw_inv prefix popped c" and out: "out_wf (rw_rec (cw_w c))" and pc: "rw_thread (cw_w c) = Some pc" "draining pc"
    and got: "cw_got c" and wr: "WriteRecord (rw_rec (cw_w c)) (cw_w c) = Some (ok, w)"
  shows "cw_inv prefix popped (c\<lparr>cw_w := w\<lparr>rw_thread := Some (after_pop pc True)\<rparr>, cw_got := False\<rparr>)"
proof -
  let ?r = "rw_rec (cw_w c)"
  from inv obtain ws pc' where ws: "popped = ws @ in_hand c" "file_of (cw_w c) = prefix @ records_bytes ws"
    and h: "0 \<le> rw_bin_fd (cw_w c)" "good_disk (rw_os (cw_w c))"
      "cw_got c \<or> cw_cons c = CCopied \<or> cw_cons c = CCleared \<longrightarrow> unat (pr_payload_len ?r) \<le> kMaxPayloadBytes"
      "cw_got c \<longrightarrow> cw_cons c = CIdle"
      "rw_thread (cw_w c) = Some pc'" "cw_got c \<or> cw_cons c \<noteq> CIdle \<longrightarrow> draining pc'" "rw_shutdown (cw_w c) \<or> live pc'"
    by (rule cw_invD)
  obtain os where os: "w = (cw_w c)\<lparr>rw_os := os, rw_pending := rw_pending (cw_w c) + 1\<rparr>"
    "appended (rw_os (cw_w c)) (record_bytes (popped_entry ?r)) os"
    using WriteRecord_good [OF h(1,2), of ?r] h(3) got out wr by (auto simp: out_wf_def)
  have "file_of w = prefix @ records_bytes (ws @ in_hand c)" "good_disk (rw_os w)"
    using os(1) appended_frame(1) [OF os(2)] appended_good [OF os(2) h(2)] ws(2) got by (simp_all add: in_hand_def)
  with ws os(1) h got draining_after_pop [OF pc(2)] live_after_pop [of pc True] pc show ?thesis
    by (intro cw_invI [of _ popped _ _ "after_pop pc True"]) (auto simp: in_hand_def)
qed

lemma cw_inv_access:
  assumes inv: "cw_inv prefix popped c" and ring: "conc_inv ring_exponent (ring_of c)"
    and pc: "rw_thread (cw_w c) = Some pc" "draining pc" and got: "\<not> cw_got c"
    and step: "cons_step ring_size (ring_of c) = Some (l, s)"
  shows "cw_inv prefix (popped @ c_popped [l]) ((with_ring s c)\<lparr>cw_got := (cw_cons c = CCleared)\<rparr>)"
proof -
  from inv obtain ws pc' where ws: "popped = ws @ in_hand c" "file_of (cw_w c) = prefix @ records_bytes ws"
    and h: "0 \<le> rw_bin_fd (cw_w c)" "good_disk (rw_os (cw_w c))"
      "cw_got c \<or> cw_cons c = CCopied \<or> cw_cons c = CCleared \<longrightarrow> unat (pr_payload_len (rw_rec (cw_w c))) \<le> kMaxPayloadBytes"
      "cw_got c \<longrightarrow> cw_cons c = CIdle"
      "rw_thread (cw_w c) = Some pc'" "cw_got c \<or> cw_cons c \<noteq> CIdle \<longrightarrow> draining pc'" "rw_shutdown (cw_w c) \<or> live pc'"
    by (rule cw_invD)
  let ?slot = "slot_at ring_size (ring_of c) (rb_read_index (rw_ring (cw_w c)))" and ?r = "rw_rec (cw_w c)"
  have "slot_wf ?slot" "out_wf ?r"
    using conc_invD [OF ring] ring_wf_slot(2) [OF ring_exponent_less] by (auto simp: cons_ok_def)
  then obtain r where r: "copy_slot ?slot ?r = Some r" "unat (pr_payload_len r) \<le> kMaxPayloadBytes"
    by (rule copy_slot_wf)
  have "popped @ c_popped [l] = ws @ in_hand ((with_ring s c)\<lparr>cw_got := (cw_cons c = CCleared)\<rparr>)"
    using step ws(1) got r(1) by (cases "cw_cons c") (auto simp: cons_step_def Let_def in_hand_def split: if_splits)
  moreover have "cr_cons s = CCopied \<or> cr_cons s = CCleared \<or> cw_cons c = CCleared \<Longrightarrow> unat (pr_payload_len (cr_out s)) \<le> kMaxPayloadBytes"
    "cw_cons c = CCleared \<Longrightarrow> cr_cons s = CIdle"
    using step r h(3) by (cases "cw_cons c"; auto simp: cons_step_def Let_def split: if_splits)+
  ultimately show ?thesis using ws(2) h pc by (intro cw_invI [of _ ws _ _ pc]) auto
qed

lemma cw_inv_thread:
  assumes inv: "cw_inv prefix popped c" and ring: "conc_inv ring_exponent (ring_of c)" and step: "cthread_step c = Some (l, c')"
  shows "cw_inv prefix (popped @ c_popped [l]) c'"
  using step
proof (cases rule: cthread_step_cases)
  case (other pc w)
  then show ?thesis using cw_inv_other [OF inv] by simp
next
  case (wrote pc ok w)
  moreover have "out_wf (rw_rec (cw_w c))" using conc_invD(3) [OF ring] by (simp add: cons_ok_def)
  ultimately show ?thesis using cw_inv_wrote [OF inv] by simp
next
  case (miss pc)
  with cw_inv_frame [OF inv, of c' "after_pop pc False"] live_after_pop [of pc False] show ?thesis by auto
next
  case (access pc s)
  then show ?thesis using cw_inv_access [OF inv ring] by simp
qed

lemma cw_step_inv:
  assumes inv: "cw_inv prefix popped c" and ring: "conc_inv ring_exponent (ring_of c)" and step: "cw_step c l c'"
  shows "cw_inv prefix (popped @ c_popped [l]) c'"
  using step
proof cases
  case (push_access e p s)
  then show ?thesis using cw_inv_push [OF inv] by blast
next
  case thread_access
  then show ?thesis using cw_inv_thread [OF inv ring] by blast
next
  case close_request
  obtain pc where "rw_thread (cw_w c) = Some pc" using inv by (rule cw_invD)
  with cw_inv_frame [OF inv, of c' pc] close_request show ?thesis by (simp add: request_shutdown_def)
qed

lemma cw_run_inv:
  assumes "cw_run c0 ls c" and "opened prefix w0" and "c0 = CWriter_start w0"
  shows "cw_inv prefix (c_popped ls) c"
  using assms
proof (induction rule: cw_run.induct)
  case (cw_begin c)
  then show ?case using cw_inv_start by simp
next
  case (cw_more c ls c1 l c2)
  then have "cw_inv prefix (c_popped ls) c1" "conc_inv ring_exponent (ring_of c1)" using cw_run_fifo(1) by blast+
  from cw_step_inv [OF this cw_more.hyps(2)] show ?case by simp
qed

section \<open>The thread makes progress\<close>

lemma fifo_roomy:
  assumes "k < 64" and "fifo_inv k cl r s"
  shows "roomy (2 ^ k) s"
proof -
  note d = fifo_invD [OF assms(2)]
  have "read_pos (cr_cons s) r \<le> length cl" using slots_fifoD(1) [OF d(4)] by (auto simp: read_pos_def)
  with unat_dist [OF assms(1) this d(3)] d(1-3) show ?thesis by (simp add: roomy_def)
qed

text \<open>The thread's own steps never bring the indices further apart.\<close>

lemma thread_keeps_room:
  assumes "opened prefix w0" and "cw_run (CWriter_start w0) ls c" and "cthread_step c = Some (l, c')"
  shows "cw_step c l c'" "roomy ring_size (ring_of c')"
proof -
  show "cw_step c l c'" using assms(3) by (rule thread_access)
  note f = cw_run_fifo [OF assms(1,2)]
  from cthread_step_sim [OF assms(3)] show "roomy ring_size (ring_of c')"
  proof
    assume "cons_step ring_size (ring_of c) = Some (l, ring_of c')"
    from cons_step_fifo [OF ring_exponent_less f(1,2) this] fifo_roomy [OF ring_exponent_less] show ?thesis
      by (auto simp: in_order_def)
  next
    assume "l = CTau \<and> ring_of c' = ring_of c"
    with fifo_roomy [OF ring_exponent_less f(2)] show ?thesis by simp
  qed
qed

lemma cons_step_total:
  assumes "k < 64" and "conc_inv k s"
  shows "\<exists>l s'. cons_step (2 ^ k) s = Some (l, s')"
proof -
  have "slot_wf (slot_at (2 ^ k) s (rb_read_index (cr_rb s)))" "out_wf (cr_out s)"
    using conc_invD [OF assms(2)] ring_wf_slot(2) [OF assms(1)] by (auto simp: cons_ok_def)
  then obtain r where "copy_slot (slot_at (2 ^ k) s (rb_read_index (cr_rb s))) (cr_out s) = Some r" by (rule copy_slot_wf)
  then show ?thesis by (cases "cr_cons s") (simp_all add: cons_step_def Let_def)
qed

lemma thread_step_total: "\<not> draining pc \<Longrightarrow> \<exists>w'. thread_step pc w = Some w'"
  by (cases pc) (simp_all add: Let_def)

lemma cthread_step_total:
  assumes "opened prefix w0" and "cw_run (CWriter_start w0) ls c"
  shows "\<exists>l c'. cthread_step c = Some (l, c')"
proof -
  from cw_run_inv [OF assms(2,1) refl] obtain ws pc where
    h: "0 \<le> rw_bin_fd (cw_w c)" "good_disk (rw_os (cw_w c))"
      "cw_got c \<or> cw_cons c = CCopied \<or> cw_cons c = CCleared \<longrightarrow> unat (pr_payload_len (rw_rec (cw_w c))) \<le> kMaxPayloadBytes"
    and pc: "rw_thread (cw_w c) = Some pc"
    by (rule cw_invD)
  have ring: "conc_inv ring_exponent (ring_of c)" by (rule cw_run_fifo [OF assms])
  have "out_wf (rw_rec (cw_w c))" using conc_invD(3) [OF ring] by (simp add: cons_ok_def)
  then have "cw_got c \<Longrightarrow> \<exists>ok w. WriteRecord (rw_rec (cw_w c)) (cw_w c) = Some (ok, w)"
    using WriteRecord_good [OF h(1,2), of "rw_rec (cw_w c)"] h(3) by (auto simp: out_wf_def)
  with cons_step_total [OF ring_exponent_less ring] thread_step_total [of pc "cw_w c"] pc show ?thesis
    by (auto simp: cthread_step_def drain_access_def)
qed

text \<open>Once shutdown is requested every step brings the thread closer to its return.\<close>

definition access_rank :: "CWriter \<Rightarrow> nat" where
  "access_rank c = (if cw_got c then 1 else case cw_cons c of CIdle \<Rightarrow> 5 | CCopying \<Rightarrow> 4 | CCopied \<Rightarrow> 3 | CCleared \<Rightarrow> 2)"

definition cw_load :: "clabel list \<Rightarrow> CWriter \<Rightarrow> nat" where
  "cw_load ls c = 100 * (length (c_claimed ls) + length (in_hand c) - length (c_popped ls)) + access_rank c"

definition cw_work :: "clabel list \<Rightarrow> CWriter \<Rightarrow> nat" where
  "cw_work ls c = 10 * (case rw_thread (cw_w c) of None \<Rightarrow> 0 | Some pc \<Rightarrow> rank pc) + cw_load ls c"

lemma cthread_step_shutdown:
  assumes "cthread_step c = Some (l, c')"
  shows "rw_shutdown (cw_w c') = rw_shutdown (cw_w c)" "cw_prod c' = cw_prod c" "c_claimed [l] = []"
proof -
  have cons: "cr_prod s = cw_prod c \<and> c_claimed [l] = []" if "cons_step ring_size (ring_of c) = Some (l, s)" for s
    using that by (auto simp: cons_step_def Let_def bind_eq_Some_conv split: cons_pc.splits)
  have flush: "rw_shutdown w = rw_shutdown (cw_w c)" if "thread_step pc (cw_w c) = Some w" "\<not> draining pc" for pc w
    using that MaybeFlush_frame(2) [of "cw_w c"] by (cases pc) (auto split: if_splits)
  have "rw_shutdown (cw_w c') = rw_shutdown (cw_w c) \<and> cw_prod c' = cw_prod c \<and> c_claimed [l] = []"
    using assms
  proof (cases rule: cthread_step_cases)
    case (other pc w)
    then show ?thesis using flush by simp
  next
    case (wrote pc ok w)
    then show ?thesis using WriteRecord_frame(3) [of "rw_rec (cw_w c)" "cw_w c" ok w] by simp
  next
    case (access pc s)
    then show ?thesis using cons by simp
  qed simp
  then show "rw_shutdown (cw_w c') = rw_shutdown (cw_w c)" "cw_prod c' = cw_prod c" "c_claimed [l] = []" by simp_all
qed

text \<open>A step inside the drain loops takes from the load; the others leave it and move the thread.\<close>

lemma cw_load_step:
  assumes start: "opened prefix w0" and run: "cw_run (CWriter_start w0) ls c" and step: "cthread_step c = Some (l, c')"
  obtains (drained) pc where "rw_thread (cw_w c) = Some pc" "draining pc" "cw_load (ls @ [l]) c' < cw_load ls c"
      "rw_thread (cw_w c') = Some pc \<or> rw_thread (cw_w c') = Some (after_pop pc True)"
  | (missed) pc where "rw_thread (cw_w c) = Some pc" "draining pc" "l = CTau" "cw_load (ls @ [l]) c' = cw_load ls c"
      "cw_cons c = CIdle" "in_hand c' = []" "\<not> sl_ready (slot_at ring_size (ring_of c) (rb_read_index (rw_ring (cw_w c))))"
      "rw_thread (cw_w c') = Some (after_pop pc False)"
  | (moved) pc w where "rw_thread (cw_w c) = Some pc" "\<not> draining pc" "l = CTau" "cw_load (ls @ [l]) c' = cw_load ls c"
      "thread_step pc (cw_w c) = Some w" "c' = c\<lparr>cw_w := w\<rparr>"
proof -
  have le: "length (c_popped ls) \<le> length (c_claimed ls)"
    using cw_run_fifo(3) [OF start run] by (metis length_take min.cobounded1)
  from cw_run_inv [OF run start refl] have got: "cw_got c \<longrightarrow> cw_cons c = CIdle" by (simp add: cw_inv_def)
  from step show thesis
  proof (cases rule: cthread_step_cases)
    case (other pc w)
    have "in_hand c' = in_hand c" "access_rank c' = access_rank c"
      using other thread_step_frame(2) [of pc "cw_w c" w] by (simp_all add: in_hand_def access_rank_def)
    with other show thesis by (intro moved) (simp_all add: cw_load_def)
  next
    case (wrote pc ok w)
    have "in_hand c = [popped_entry (rw_rec (cw_w c))]" "in_hand c' = []" "access_rank c' \<le> 5" "access_rank c = 1"
      using wrote got by (simp_all add: in_hand_def access_rank_def)
    with wrote le show thesis by (intro drained [of pc]) (simp_all add: cw_load_def)
  next
    case (miss pc)
    then show thesis by (intro missed [of pc]) (simp_all add: cw_load_def in_hand_def access_rank_def)
  next
    case (access pc s)
    have "c_claimed [l] = []" by (rule cthread_step_shutdown [OF step])
    moreover have "length (in_hand c') = length (in_hand c) + length (c_popped [l])" "access_rank c' < access_rank c"
      using access(3-6)
      by (cases "cw_cons c"; auto simp: cons_step_def Let_def in_hand_def access_rank_def bind_eq_Some_conv split: if_splits)+
    ultimately show thesis using access by (intro drained [of pc]) (simp_all add: cw_load_def)
  qed
qed

lemma cw_work_less:
  assumes start: "opened prefix w0" and run: "cw_run (CWriter_start w0) ls c"
    and sd: "rw_shutdown (cw_w c)" "rw_thread (cw_w c) \<noteq> Some Exited" and step: "cthread_step c = Some (l, c')"
  shows "cw_work (ls @ [l]) c' < cw_work ls c"
  using start run step
proof (cases rule: cw_load_step)
  case (drained pc)
  then have "rank (after_pop pc True) = rank pc" by (cases pc) simp_all
  with drained show ?thesis by (auto simp: cw_work_def)
next
  case (missed pc)
  then have "rank (after_pop pc False) < rank pc" by (cases pc) simp_all
  with missed show ?thesis by (simp add: cw_work_def)
next
  case (moved pc w)
  have "\<exists>pc'. rw_thread w = Some pc' \<and> rank pc' < rank pc"
    using moved sd by (cases pc) (auto split: if_splits)
  with moved show ?thesis by (auto simp: cw_work_def)
qed

text \<open>The thread left alone reaches what its steps bring closer.\<close>

lemma thread_runs_until:
  fixes m :: "clabel list \<Rightarrow> CWriter \<Rightarrow> nat"
  assumes o: "opened prefix w0" and "cw_run (CWriter_start w0) ls c" and "Q c"
    and progress: "\<And>ls c l c'. cw_run (CWriter_start w0) ls c \<Longrightarrow> Q c \<Longrightarrow> \<not> P ls c \<Longrightarrow> cthread_step c = Some (l, c') \<Longrightarrow>
      P (ls @ [l]) c' \<or> (Q c' \<and> m (ls @ [l]) c' < m ls c)"
  shows "\<exists>n c' ls'. cthread_alone n c = Some c' \<and> cw_run c ls' c' \<and> c_claimed ls' = [] \<and> P (ls @ ls') c'"
  using assms(2,3)
proof (induction "m ls c" arbitrary: ls c rule: less_induct)
  case less
  have room: "roomy ring_size (ring_of c)" using fifo_roomy [OF ring_exponent_less] cw_run_fifo(2) [OF o less.prems(1)] .
  have here: "cthread_alone 0 c = Some c \<and> cw_run c [] c \<and> c_claimed [] = []" using room by (simp add: cw_begin)
  show ?case
  proof (cases "P ls c")
    case True
    with here show ?thesis by (metis append_Nil2)
  next
    case False
    obtain l c1 where step: "cthread_step c = Some (l, c1)" using cthread_step_total [OF o less.prems(1)] by blast
    note keep = thread_keeps_room [OF o less.prems(1) step] and frame = cthread_step_shutdown(3) [OF step]
    have run: "cw_run (CWriter_start w0) (ls @ [l]) c1" using less.prems(1) keep by (rule cw_more)
    have "\<exists>n c' ls'. cthread_alone n c1 = Some c' \<and> cw_run c1 ls' c' \<and> c_claimed ls' = [] \<and> P ((ls @ [l]) @ ls') c'"
      using progress [OF less.prems False step]
    proof
      assume "P (ls @ [l]) c1"
      with keep(2) show ?thesis by (intro exI [of _ 0] exI [of _ c1] exI [of _ "[]"]) (simp add: cw_begin)
    qed (use less.hyps [OF _ run] in blast)
    then obtain n c' ls' where c': "cthread_alone n c1 = Some c'" "cw_run c1 ls' c'" "c_claimed ls' = []"
      "P ((ls @ [l]) @ ls') c'" by blast
    have "cw_run c ([l] @ ls') c'" using cw_run_trans [OF c'(2) cw_more [OF cw_begin [OF room] keep]] by simp
    moreover have "c_claimed ([l] @ ls') = []" by (simp only: c_claimed_append frame c'(3) append_Nil)
    ultimately show ?thesis using c'(1,4) step by (intro exI [of _ "Suc n"] exI [of _ c'] exI [of _ "[l] @ ls'"]) simp
  qed
qed

lemma thread_exits:
  assumes "opened prefix w0" and "cw_run (CWriter_start w0) ls c" and "rw_shutdown (cw_w c)"
  shows "\<exists>n c' ls'. cthread_alone n c = Some c' \<and> cw_run c ls' c' \<and> c_claimed ls' = [] \<and> rw_thread (cw_w c') = Some Exited"
  using thread_runs_until [OF assms(1,2), of "\<lambda>c. rw_shutdown (cw_w c)" "\<lambda>ls c. rw_thread (cw_w c) = Some Exited" cw_work]
    assms(3) cw_work_less [OF assms(1)] cthread_step_shutdown(1) by fastforce

section \<open>When the producers are done\<close>

definition past_drain :: "CWriter \<Rightarrow> bool" where
  "past_drain c \<longleftrightarrow> rw_thread (cw_w c) = Some FinalFlush \<or> rw_thread (cw_w c) = Some Exited"

lemma past_drain_file:
  assumes "cw_inv prefix popped c" and "past_drain c"
  shows "file_of (cw_w c) = prefix @ records_bytes popped"
  using assms by (auto simp: cw_inv_def past_drain_def in_hand_def)

text \<open>With no push in progress, a \<open>TryPop\<close> that finds nothing means that every claimed record was popped.\<close>

lemma miss_complete:
  assumes "opened prefix w0" and "cw_run (CWriter_start w0) ls c" and idle: "\<forall>p. cw_prod c p = PIdle"
    and "cw_cons c = CIdle" and "\<not> sl_ready (slot_at ring_size (ring_of c) (rb_read_index (rw_ring (cw_w c))))"
  shows "c_popped ls = c_claimed ls"
proof -
  note f = cw_run_fifo [OF assms(1,2)]
  note d = fifo_invD [OF f(2)]
  let ?r = "length (c_popped ls)"
  have i: "slot_index ring_size (rb_read_index (rw_ring (cw_w c))) = ?r mod ring_size"
    using d(2) assms(4) slot_index_of_nat [OF ring_exponent_less] by (simp add: read_pos_def)
  have "\<not> ?r < length (c_claimed ls)" using slots_fifoD(3) [OF d(4), of ?r] assms(5) idle i by auto
  with f(3) show ?thesis by simp
qed

lemma past_drain_step:
  assumes step: "cthread_step c = Some (l, c')" and past: "past_drain c'"
  shows "past_drain c \<and> l = CTau \<or> cw_cons c = CIdle \<and> l = CTau
    \<and> \<not> sl_ready (slot_at ring_size (ring_of c) (rb_read_index (rw_ring (cw_w c))))"
  using step
proof (cases rule: cthread_step_cases)
  case (other pc w)
  with past show ?thesis by (cases pc) (auto simp: past_drain_def split: if_splits)
next
  case (wrote pc ok w)
  with past show ?thesis by (cases pc) (auto simp: past_drain_def)
next
  case (miss pc)
  then show ?thesis by blast
next
  case (access pc s)
  with past show ?thesis by (cases pc) (auto simp: past_drain_def)
qed

lemma push_unclaimed:
  assumes "prod_step C p e s = Some (l, s')" and "cr_prod s p = PIdle" and "c_claimed [l] = []"
  shows "s' = s" "c_popped [l] = []"
  using assms by (auto simp: prod_step_simps split: if_splits)

lemma with_ring_of [simp]: "with_ring (ring_of c) c = c"
  by (simp add: with_ring_def ring_of_def)

lemma quiet_run:
  assumes "cw_run c ls' c'" and "opened prefix w0" and "cw_run (CWriter_start w0) ls c"
    and "\<forall>p. cw_prod c p = PIdle" and "\<not> past_drain c" and "c_claimed ls' = []"
  shows "(\<forall>p. cw_prod c' p = PIdle) \<and> (past_drain c' \<longrightarrow> c_popped (ls @ ls') = c_claimed ls)"
  using assms
proof (induction rule: cw_run.induct)
  case (cw_more c ls' c1 l c2)
  have cl: "c_claimed ls' = []" "c_claimed [l] = []" using cw_more.prems(5) by (cases l; simp)+
  have IH: "\<forall>p. cw_prod c1 p = PIdle" "past_drain c1 \<longrightarrow> c_popped (ls @ ls') = c_claimed ls"
    using cw_more.IH [OF cw_more.prems(1-4) cl(1)] by simp_all
  have run: "cw_run (CWriter_start w0) (ls @ ls') c1" using cw_run_trans [OF cw_more.hyps(1) cw_more.prems(2)] .
  from cw_more.hyps(2) show ?case
  proof cases
    case (push_access e p s)
    then have "c2 = c1" "c_popped [l] = []" using push_unclaimed [OF push_access(3) _ cl(2)] IH(1) by simp_all
    with IH show ?thesis by (cases l) simp_all
  next
    case thread_access
    have "c_popped (ls @ ls' @ [l]) = c_claimed ls" if past: "past_drain c2"
    proof -
      from past_drain_step [OF thread_access past] have "l = CTau" "c_popped (ls @ ls') = c_claimed ls"
        using IH miss_complete [OF cw_more.prems(1) run] cl(1) by auto
      then show ?thesis by simp
    qed
    with IH(1) cthread_step_shutdown(2) [OF thread_access] show ?thesis by simp
  next
    case close_request
    with IH show ?thesis by (simp add: request_shutdown_def past_drain_def)
  qed
qed simp

lemma quiet_run_file:
  assumes "opened prefix w0" and "cw_run (CWriter_start w0) ls c" and "\<forall>p. cw_prod c p = PIdle" and "\<not> past_drain c"
    and "cw_run c ls' c'" and "c_claimed ls' = []" and "rw_thread (cw_w c') = Some Exited"
  shows "file_of (cw_w c') = prefix @ records_bytes (c_claimed ls)"
proof -
  have past: "past_drain c'" using assms(7) by (simp add: past_drain_def)
  have run: "cw_run (CWriter_start w0) (ls @ ls') c'" using cw_run_trans [OF assms(5,2)] .
  have "c_popped (ls @ ls') = c_claimed ls" using quiet_run [OF assms(5,1-4,6)] past by blast
  with past_drain_file [OF cw_run_inv [OF run assms(1) refl] past] show ?thesis by (simp only:)
qed

text \<open>The rest of \<open>Close\<close> when the thread has returned.\<close>

lemma Close_exited:
  assumes "rw_thread w = Some Exited" and "0 \<le> rw_bin_fd w"
  shows "RecordWriter_Close w = Some (closed (w\<lparr>rw_shutdown := True\<rparr>))"
  using assms by (simp add: RecordWriter_Close_def WriterThreadMain.simps [of "w\<lparr>rw_shutdown := True\<rparr>"] closed_def)

lemma Open_opened:
  assumes "0 \<le> os_open_fd os" and "good_disk os"
  shows "\<exists>w0. RecordWriter_Open base topics (RecordWriter_init fi ip os) = Some (True, w0) \<and> opened (session_prefix topics os) w0"
  using Open_good [of "RecordWriter_init fi ip os" base topics] assms
  by (auto simp: opened_def RecordWriter_init_def)

lemma cw_run_start: "opened prefix w0 \<Longrightarrow> cw_run (CWriter_start w0) [] (CWriter_start w0)"
  using fifo_roomy [OF ring_exponent_less fifo_inv_init] ring_of_start [of prefix w0] by (intro cw_begin) simp

text \<open>From a moment without pushes in progress the thread alone brings the session to its end.\<close>

lemma finished_run:
  assumes o: "opened prefix w0" and run: "cw_run (CWriter_start w0) ls c" and idle: "\<forall>p. cw_prod c p = PIdle"
    and sd: "\<not> rw_shutdown (cw_w c)"
  shows "\<exists>n c' ls'. cthread_alone n (request_shutdown c) = Some c' \<and> cw_run c ls' c' \<and> c_claimed ls' = []
    \<and> rw_thread (cw_w c') = Some Exited \<and> file_of (cw_w c') = prefix @ records_bytes (c_claimed ls)"
proof -
  have past: "\<not> past_drain c" using cw_run_inv [OF run o refl] sd by (auto simp: cw_inv_def past_drain_def)
  let ?c = "request_shutdown c"
  have "roomy ring_size (ring_of c)" using fifo_roomy [OF ring_exponent_less cw_run_fifo(2) [OF o run]] .
  then have req: "cw_run c ([] @ [CTau]) ?c"
    by (intro cw_more [OF cw_begin close_request]) (simp_all add: request_shutdown_def ring_of_def roomy_def)
  have run': "cw_run (CWriter_start w0) (ls @ [CTau]) ?c" using cw_run_trans [OF req run] by simp
  have "rw_shutdown (cw_w ?c)" by (simp add: request_shutdown_def)
  from thread_exits [OF o run' this] obtain n c' ls' where c': "cthread_alone n ?c = Some c'" "cw_run ?c ls' c'"
    "c_claimed ls' = []" "rw_thread (cw_w c') = Some Exited" by blast
  have all: "cw_run c (([] @ [CTau]) @ ls') c'" using cw_run_trans [OF c'(2) req] .
  have none: "c_claimed (([] @ [CTau]) @ ls') = []" using c'(3) by simp
  from quiet_run_file [OF o run idle past all none c'(4)] all none c'(1,4) show ?thesis by blast
qed

section \<open>A push in progress at the final drain\<close>

lemma roomy_run_not_overtaken:
  assumes "conc_run (2 ^ k) (roomy (2 ^ k)) s0 ls s" and "k < 64" and "s0 = CRing_init (2 ^ k)"
  shows "conc_run (2 ^ k) (\<lambda>s. \<not> overtaken (2 ^ k) s) s0 ls s"
  using assms
proof (induction rule: conc_run.induct)
  case (run_start s)
  then show ?case using fifo_not_overtaken [OF _ fifo_inv_init] by (intro conc_run.run_start) simp
next
  case (run_step s ls s1 l s2)
  have "conc_run (2 ^ k) (roomy (2 ^ k)) s (ls @ [l]) s2" by (rule conc_run.run_step) (rule run_step.hyps)+
  from conc_run_fifo [OF this run_step.prems] have "\<not> overtaken (2 ^ k) s2" using fifo_not_overtaken [OF run_step.prems(1)] by blast
  with run_step show ?case by (intro conc_run.run_step) auto
qed

text \<open>The books of the ring along a run of the writer.\<close>

lemma cw_run_books:
  assumes "opened prefix w0" and "cw_run (CWriter_start w0) ls c"
  shows "mset (c_accepted ls) = mset (c_popped ls) + ready_entries (rw_ring (cw_w c))" "RecordWriter_DroppedCount (cw_w c) = 0"
proof -
  obtain ls' where run: "conc_run ring_size (roomy ring_size) (CRing_init ring_size) ls' (ring_of c)" and v: "visible ls' = visible ls"
    using cw_run_sim [OF assms(2)] ring_of_start [OF assms(1)] by auto
  have "filter fits (c_rejected ls') = []" using cw_run_fifo(4) [OF assms] visible_eqD(4) [OF v] by simp
  moreover have "ready_entries (cr_rb (CRing_init ring_size)) = {#}" "rb_dropped_count (cr_rb (CRing_init ring_size)) = 0"
    by (simp_all add: CRing_init_def MpscRingBuffer_init_def ready_entries_def Slot_init_def)
  ultimately show "mset (c_accepted ls) = mset (c_popped ls) + ready_entries (rw_ring (cw_w c))" "RecordWriter_DroppedCount (cw_w c) = 0"
    using conc_run_inv [OF roomy_run_not_overtaken [OF run ring_exponent_less refl] ring_exponent_less conc_inv_init] visible_eqD [OF v]
    by (simp_all add: RecordWriter_DroppedCount_def DroppedCount_def)
qed

text \<open>The slot of a call in progress is not ready: the final drain stops there.\<close>

lemma drain_stops:
  assumes "opened prefix w0" and "cw_run (CWriter_start w0) ls c"
    and pc: "rw_thread (cw_w c) = Some FinalDrain" "\<not> cw_got c" "cw_cons c = CIdle"
    and fl: "inflight (cw_prod c p) = Some (rb_read_index (rw_ring (cw_w c)), e)"
  shows "\<exists>c'. cthread_alone 2 c = Some c' \<and> rw_thread (cw_w c') = Some Exited \<and> rw_ring (cw_w c') = rw_ring (cw_w c)
    \<and> file_of (cw_w c') = prefix @ records_bytes (c_popped ls)"
proof -
  note f = cw_run_fifo [OF assms(1,2)]
  have "\<not> sl_ready (slot_at ring_size (ring_of c) (rb_read_index (rw_ring (cw_w c))))"
    using slots_fifoD(4) [OF fifo_invD(4) [OF f(2)], of p] fl by (auto simp: slot_index_of_nat)
  then have "cthread_step c = Some (CTau, c\<lparr>cw_w := (cw_w c)\<lparr>rw_thread := Some FinalFlush\<rparr>\<rparr>)"
    using pc by (simp add: cthread_step_def drain_access_def cons_step_def Let_def)
  then have two: "cthread_alone 2 c = Some (c\<lparr>cw_w := (MaybeFlush ((cw_w c)\<lparr>rw_thread := Some FinalFlush\<rparr>))\<lparr>rw_thread := Some Exited\<rparr>\<rparr>)"
    by (simp add: numeral_2_eq_2 cthread_step_def)
  have "file_of (cw_w c) = prefix @ records_bytes (c_popped ls)"
    using cw_run_inv [OF assms(2,1) refl] pc by (simp add: cw_inv_def in_hand_def)
  with two MaybeFlush_frame(1) [of "(cw_w c)\<lparr>rw_thread := Some FinalFlush\<rparr>"] show ?thesis by (simp add: idle_def)
qed

lemma cw_push:
  assumes "cw_run c0 ls c" and "fits e" and "prod_step ring_size p e (ring_of c) = Some (l, s)" and "roomy ring_size s"
  shows "cw_run c0 (ls @ [l]) (with_ring s c)"
proof -
  have "length (entry_payload e) < 2 ^ 32" using assms(2) by (cases e) (simp add: fits_def wire_sizes entry_payload_def)
  with assms show ?thesis by (intro cw_more [OF assms(1) push_access]) simp_all
qed

text \<open>A concrete session: one push, start to end.\<close>

lemma one_push_session:
  assumes o: "opened prefix w0" and e: "fits e"
  shows "\<exists>c. cw_run (CWriter_start w0) [CClaim e, CTau, CTau, CAccept e] c \<and> (\<forall>p. cw_prod c p = PIdle) \<and> \<not> rw_shutdown (cw_w c)"
proof -
  let ?rb = "MpscRingBuffer_init ring_size" and ?S = "rb_slots (MpscRingBuffer_init ring_size)"
  obtain t st sq pl where e': "e = (t, st, sq, pl)" by (cases e)
  have len: "length (entry_payload e) < 2 ^ 32" using e by (cases e) (simp add: fits_def wire_sizes entry_payload_def)
  have i: "slot_index ring_size 0 = 0" by (simp add: slot_index_def)
  have slots: "0 < length ?S" "?S ! 0 = Slot_init" "\<not> sl_ready Slot_init" by (simp_all add: MpscRingBuffer_init_def Slot_init_def)
  have "slot_wf Slot_init" by (simp add: slot_wf_def Slot_init_def)
  then obtain slot where slot: "fill_slot t st sq pl (word_of_nat (length pl)) Slot_init = Some slot"
    using fill_any [of Slot_init t st sq pl] e e' by auto
  define s where "s = (\<lambda>slots pc. (CRing_init ring_size)\<lparr>cr_rb := ?rb\<lparr>rb_write_index := 1, rb_slots := slots\<rparr>,
    cr_prod := (\<lambda>_. PIdle)(0 := pc)\<rparr>)"
  have rest: "cr_rb (s slots pc) = ?rb\<lparr>rb_write_index := 1, rb_slots := slots\<rparr>" "cr_prod (s slots pc) = (\<lambda>_. PIdle)(0 := pc)" for slots pc
    by (simp_all add: s_def)
  have room: "roomy ring_size (s slots pc)" for slots pc
    by (simp add: roomy_def rest MpscRingBuffer_init_def ring_exponent_def)
  let ?c = "\<lambda>slots pc. with_ring (s slots pc) (CWriter_start w0)"
  have go: "cw_run (CWriter_start w0) (ls @ [l]) (?c slots' pc')"
    if "cw_run (CWriter_start w0) ls (?c slots pc)" "prod_step ring_size 0 e (s slots pc) = Some (l, s slots' pc')" for ls l slots slots' pc pc'
    using cw_push [OF that(1) e, of 0 l "s slots' pc'"] that(2) room by simp
  have "prod_step ring_size 0 e (CRing_init ring_size) = Some (CClaim e, s ?S (PClaimed 0 e))"
    using small_fits [OF len] e by (simp add: prod_step_simps s_def CRing_init_def MpscRingBuffer_init_def)
  with cw_push [OF cw_run_start [OF o] e, of 0] room ring_of_start [OF o]
  have "cw_run (CWriter_start w0) [CClaim e] (?c ?S (PClaimed 0 e))" by simp
  then have "cw_run (CWriter_start w0) ([CClaim e] @ [CTau]) (?c ?S (PFilling 0 e))"
    by (rule go) (use slots in \<open>simp add: prod_step_simps rest i\<close>, simp add: s_def)
  then have "cw_run (CWriter_start w0) (([CClaim e] @ [CTau]) @ [CTau]) (?c (?S[0 := slot]) (PFilled 0 e))"
    by (rule go) (use slots slot e' in \<open>simp add: prod_step_simps rest i\<close>, simp add: s_def)
  then have "cw_run (CWriter_start w0) ((([CClaim e] @ [CTau]) @ [CTau]) @ [CAccept e]) (?c (?S[0 := slot\<lparr>sl_ready := True\<rparr>]) PIdle)"
    by (rule go) (use slots in \<open>simp add: prod_step_simps rest i\<close>, simp add: s_def)
  moreover have "\<not> rw_shutdown (cw_w (CWriter_start w0))" using o by (simp add: opened_def CWriter_start_def)
  ultimately show ?thesis by (intro exI [of _ "?c (?S[0 := slot\<lparr>sl_ready := True\<rparr>]) PIdle"]) (simp add: rest)
qed

text \<open>A concrete session: producer 0 stops inside its first push, producer 1 completes one, then \<open>Close\<close> is
  called and the thread reaches its final drain.\<close>

lemma stalled_session:
  assumes o: "opened prefix w0" and e: "fits e0" "fits e1"
  shows "\<exists>c. cw_run (CWriter_start w0) [CClaim e0, CClaim e1, CTau, CTau, CAccept e1, CTau, CTau] c
    \<and> rw_thread (cw_w c) = Some FinalDrain \<and> \<not> cw_got c \<and> cw_cons c = CIdle
    \<and> inflight (cw_prod c 0) = Some (rb_read_index (rw_ring (cw_w c)), e0)"
proof -
  let ?rb = "MpscRingBuffer_init ring_size"
  obtain t st sq pl where e1: "e1 = (t, st, sq, pl)" by (cases e1)
  have len: "length (entry_payload e) < 2 ^ 32" if "fits e" for e :: entry
    using that by (cases e) (simp add: fits_def wire_sizes entry_payload_def)
  note small = small_fits [OF len]
  have i: "slot_index ring_size 1 = 1" "slot_index ring_size 0 = 0"
    by (simp_all add: ring_exponent_def slot_index_def)
  have n: "Suc 0 < ring_size" by (simp add: ring_exponent_def)
  then have slots: "length (rb_slots ?rb) = ring_size" "rb_slots ?rb ! 1 = Slot_init" "\<not> sl_ready Slot_init"
    by (simp_all add: MpscRingBuffer_init_def Slot_init_def)
  have "slot_wf Slot_init" by (simp add: slot_wf_def Slot_init_def)
  then obtain slot where slot: "fill_slot t st sq pl (word_of_nat (length pl)) Slot_init = Some slot"
    using fill_any [of Slot_init t st sq pl] e(2) e1 by auto
  define s where "s = (\<lambda>w slots p1. (CRing_init ring_size)\<lparr>cr_rb := ?rb\<lparr>rb_write_index := w, rb_slots := slots\<rparr>,
    cr_prod := (\<lambda>_. PIdle)(0 := PClaimed 0 e0, Suc 0 := p1)\<rparr>)"
  have rest: "cr_rb (s w slots p1) = ?rb\<lparr>rb_write_index := w, rb_slots := slots\<rparr>" "cr_cons (s w slots p1) = CIdle"
    "cr_prod (s w slots p1) = (\<lambda>_. PIdle)(0 := PClaimed 0 e0, Suc 0 := p1)" for w slots p1
    by (simp_all add: s_def CRing_init_def)
  have room: "roomy ring_size (s w slots p1)" if "w = 1 \<or> w = 2" for w slots p1
    using that by (auto simp: roomy_def rest MpscRingBuffer_init_def ring_exponent_def)
  have ring: "ring_of (CWriter_start w0) = CRing_init ring_size" by (rule ring_of_start [OF o])
  let ?S = "rb_slots ?rb" and ?c = "\<lambda>w slots p1. with_ring (s w slots p1) (CWriter_start w0)"
  let ?full = "?S[1 := slot]" and ?ready = "?S[1 := slot\<lparr>sl_ready := True\<rparr>]"
  have go: "cw_run (CWriter_start w0) (ls @ [l]) (?c w slots' p1')"
    if "cw_run (CWriter_start w0) ls (?c w' slots p1)" "prod_step ring_size 1 e1 (s w' slots p1) = Some (l, s w slots' p1')" "w = 1 \<or> w = 2"
    for ls l w w' slots slots' p1 p1'
    using cw_push [OF that(1) e(2), of 1 l "s w slots' p1'"] that(2) room [OF that(3)] by simp
  have "prod_step ring_size 0 e0 (CRing_init ring_size) = Some (CClaim e0, s 1 ?S PIdle)"
    using small [OF e(1)] e(1) by (simp add: prod_step_simps s_def CRing_init_def MpscRingBuffer_init_def fun_upd_idem)
  with cw_push [OF cw_run_start [OF o] e(1), of 0] room ring
  have "cw_run (CWriter_start w0) [CClaim e0] (?c 1 ?S PIdle)" by simp
  then have "cw_run (CWriter_start w0) ([CClaim e0] @ [CClaim e1]) (?c 2 ?S (PClaimed 1 e1))"
    by (rule go) (use small [OF e(2)] e(2) in \<open>simp_all add: prod_step_simps rest\<close>, simp add: s_def)
  then have "cw_run (CWriter_start w0) (([CClaim e0] @ [CClaim e1]) @ [CTau]) (?c 2 ?S (PFilling 1 e1))"
    by (rule go) (use slots in \<open>simp_all add: prod_step_simps rest i\<close>, simp add: s_def)
  then have "cw_run (CWriter_start w0) ((([CClaim e0] @ [CClaim e1]) @ [CTau]) @ [CTau]) (?c 2 ?full (PFilled 1 e1))"
    by (rule go) (use slots slot e1 in \<open>simp_all add: prod_step_simps rest i\<close>, simp add: s_def)
  then have "cw_run (CWriter_start w0) (((([CClaim e0] @ [CClaim e1]) @ [CTau]) @ [CTau]) @ [CAccept e1]) (?c 2 ?ready PIdle)"
    by (rule go) (use slots n in \<open>simp_all add: prod_step_simps rest i\<close>, simp add: s_def)
  from cw_more [OF this close_request] room
  have sh: "cw_run (CWriter_start w0) ((((([CClaim e0] @ [CClaim e1]) @ [CTau]) @ [CTau]) @ [CAccept e1]) @ [CTau])
      (request_shutdown (?c 2 ?ready PIdle))" by (simp add: request_shutdown_def ring_of_def rest roomy_def)
  let ?d = "(request_shutdown (?c 2 ?ready PIdle))" let ?d' = "?d\<lparr>cw_w := (cw_w ?d)\<lparr>rw_thread := Some FinalDrain\<rparr>\<rparr>"
  have th: "rw_thread (cw_w ?d) = Some LoopTest" "rw_shutdown (cw_w ?d)"
    using o by (simp_all add: request_shutdown_def CWriter_start_def opened_def)
  then have "cthread_step ?d = Some (CTau, ?d')" by (simp add: cthread_step_def)
  from cw_more [OF sh thread_access [OF this]] thread_keeps_room(2) [OF o sh this]
  have "cw_run (CWriter_start w0) [CClaim e0, CClaim e1, CTau, CTau, CAccept e1, CTau, CTau] ?d'" by simp
  then show ?thesis
    by (intro exI [of _ ?d']) (simp add: request_shutdown_def rest CWriter_start_def MpscRingBuffer_init_def)
qed

section \<open>Properties\<close>

text \<open>C8: Nothing is lost when the producers stop first. If no push is in progress when \<open>Close\<close> requests
  the shutdown, wherever the writer thread then is, the thread left alone returns, and \<open>Close\<close> with it, with
  every claimed record in the file, in the order of the claims, and the file synced and closed; and
  whatever else is scheduled meanwhile, as long as no new record is claimed, the file is the same once the thread
  has returned.\<close>

theorem concurrent_session_complete:
  assumes "0 \<le> os_open_fd os" and "good_disk os"
    and "RecordWriter_Open base topics (RecordWriter_init fi ip os) = Some (True, w0)"
    and "cw_run (CWriter_start w0) ls c" and "\<forall>p. cw_prod c p = PIdle" and "\<not> rw_shutdown (cw_w c)"
  shows "(\<exists>n c' w'. cthread_alone n (request_shutdown c) = Some c' \<and> RecordWriter_Close (cw_w c') = Some w'
      \<and> file_of w' = session_prefix topics os @ records_bytes (c_claimed ls)
      \<and> os_synced (rw_os w') = length (file_of w') \<and> rw_bin_fd w' = -1 \<and> rw_thread w' = None)
    \<and> (\<forall>ls' c'. cw_run c ls' c' \<and> c_claimed ls' = [] \<and> rw_thread (cw_w c') = Some Exited \<longrightarrow>
        file_of (cw_w c') = session_prefix topics os @ records_bytes (c_claimed ls))"
proof -
  have o: "opened (session_prefix topics os) w0" using Open_opened [OF assms(1,2), of base topics fi ip] assms(3) by auto
  have past: "\<not> past_drain c" using cw_run_inv [OF assms(4) o refl] assms(6) by (auto simp: cw_inv_def past_drain_def)
  note fin = quiet_run_file [OF o assms(4,5) past]
  let ?c = "request_shutdown c"
  obtain n c' ls' where c': "cthread_alone n ?c = Some c'" "cw_run c ls' c'" "c_claimed ls' = []" "rw_thread (cw_w c') = Some Exited"
    and fl: "file_of (cw_w c') = session_prefix topics os @ records_bytes (c_claimed ls)"
    using finished_run [OF o assms(4-6)] by blast
  have fd: "0 \<le> rw_bin_fd (cw_w c')" using cw_run_inv [OF cw_run_trans [OF c'(2) assms(4)] o refl] by (simp add: cw_inv_def)
  have "os_synced (rw_os (closed ((cw_w c')\<lparr>rw_shutdown := True\<rparr>))) = length (file_of (cw_w c'))"
    using fd by (simp add: closed_def sys_fsync_def)
  with c'(1) Close_exited [OF c'(4) fd] fl
  have "\<exists>n c' w'. cthread_alone n ?c = Some c' \<and> RecordWriter_Close (cw_w c') = Some w'
      \<and> file_of w' = session_prefix topics os @ records_bytes (c_claimed ls)
      \<and> os_synced (rw_os w') = length (file_of w') \<and> rw_bin_fd w' = -1 \<and> rw_thread w' = None"
    by (intro exI [of _ n] exI [of _ c'] exI [of _ "closed ((cw_w c')\<lparr>rw_shutdown := True\<rparr>)"]) simp
  with fin show ?thesis by blast
qed

theorem concurrent_session_complete_witness:
  "\<exists>w0 c n c' w'. RecordWriter_Open [] [] (RecordWriter_init 100000000 200000 slow_disk) = Some (True, w0)
     \<and> cw_run (CWriter_start w0) [CClaim (4, 10, 0, [7]), CTau, CTau, CAccept (4, 10, 0, [7])] c
     \<and> cthread_alone n (request_shutdown c) = Some c' \<and> RecordWriter_Close (cw_w c') = Some w'
     \<and> file_of w' = session_prefix [] slow_disk @ record_bytes (4, 10, 0, [7])"
proof -
  have d: "0 \<le> os_open_fd slow_disk" "good_disk slow_disk" by (simp_all add: slow_disk_def good_disk_def)
  obtain w0 where w0: "RecordWriter_Open [] [] (RecordWriter_init 100000000 200000 slow_disk) = Some (True, w0)"
    and o: "opened (session_prefix [] slow_disk) w0" using Open_opened [OF d] by blast
  obtain c where c: "cw_run (CWriter_start w0) [CClaim (4, 10, 0, [7]), CTau, CTau, CAccept (4, 10, 0, [7])] c"
    "\<forall>p. cw_prod c p = PIdle" "\<not> rw_shutdown (cw_w c)"
    using one_push_session [OF o fits_small(1)] by blast
  from concurrent_session_complete [OF d w0 c] obtain n c' w' where
    "cthread_alone n (request_shutdown c) = Some c'" "RecordWriter_Close (cw_w c') = Some w'"
    "file_of w' = session_prefix [] slow_disk @ record_bytes (4, 10, 0, [7])" by auto
  with w0 c(1) show ?thesis by blast
qed

text \<open>C15: A push still in progress at the final drain hides what was pushed after it. If the oldest record not
  yet popped was claimed by a producer that has not published it when the thread makes the test of its
  final loop, the thread returns at once: the file ends with the records popped so far, and
  every other accepted record, though its push reported success before, stays in the ring and is not
  counted as dropped.\<close>

theorem stalled_push_hides_accepted:
  assumes "0 \<le> os_open_fd os" and "good_disk os"
    and "RecordWriter_Open base topics (RecordWriter_init fi ip os) = Some (True, w0)"
    and "cw_run (CWriter_start w0) ls c" and "rw_thread (cw_w c) = Some FinalDrain" and "\<not> cw_got c" and "cw_cons c = CIdle"
    and "inflight (cw_prod c p) = Some (rb_read_index (rw_ring (cw_w c)), e)"
  shows "\<exists>c'. cthread_alone 2 c = Some c' \<and> rw_thread (cw_w c') = Some Exited
    \<and> file_of (cw_w c') = session_prefix topics os @ records_bytes (c_popped ls)
    \<and> mset (c_accepted ls) = mset (c_popped ls) + ready_entries (rw_ring (cw_w c'))
    \<and> RecordWriter_DroppedCount (cw_w c') = 0"
proof -
  have o: "opened (session_prefix topics os) w0" using Open_opened [OF assms(1,2), of base topics fi ip] assms(3) by auto
  from drain_stops [OF o assms(4-8)] cw_run_books [OF o assms(4)] show ?thesis
    by (auto simp: RecordWriter_DroppedCount_def)
qed

theorem stalled_push_hides_accepted_witness:
  "\<exists>w0 c c'. RecordWriter_Open [] [] (RecordWriter_init 100000000 200000 slow_disk) = Some (True, w0)
     \<and> cw_run (CWriter_start w0) [CClaim (4, 10, 0, [7]), CClaim (4, 11, 0, [8]), CTau, CTau, CAccept (4, 11, 0, [8]), CTau, CTau] c
     \<and> cthread_alone 2 c = Some c' \<and> rw_thread (cw_w c') = Some Exited \<and> file_of (cw_w c') = session_prefix [] slow_disk
     \<and> ready_entries (rw_ring (cw_w c')) = {#(4, 11, 0, [8])#}"
proof -
  have d: "0 \<le> os_open_fd slow_disk" "good_disk slow_disk" by (simp_all add: slow_disk_def good_disk_def)
  obtain w0 where w0: "RecordWriter_Open [] [] (RecordWriter_init 100000000 200000 slow_disk) = Some (True, w0)"
    and o: "opened (session_prefix [] slow_disk) w0" using Open_opened [OF d] by blast
  obtain c where c: "cw_run (CWriter_start w0) [CClaim (4, 10, 0, [7]), CClaim (4, 11, 0, [8]), CTau, CTau, CAccept (4, 11, 0, [8]), CTau, CTau] c"
    "rw_thread (cw_w c) = Some FinalDrain" "\<not> cw_got c" "cw_cons c = CIdle"
    "inflight (cw_prod c 0) = Some (rb_read_index (rw_ring (cw_w c)), (4, 10, 0, [7]))"
    using stalled_session [OF o fits_small(1) fits_small(1)] by blast
  from stalled_push_hides_accepted [OF d w0 c] c(1) w0 show ?thesis by auto
qed

end
