(* ===== verification/Writer_Steps.thy ===== *)
theory Writer_Steps
  imports Concurrent_Writer
begin

text \<open>
  The two models of the writer thread are one: an iteration of the drain loop that \<open>Record_Writer\<close> takes
  at once is the sum of the accesses that \<open>Concurrent_Writer\<close> takes one by one, and so are the whole
  thread function and \<open>Close\<close>, when no push interferes.
\<close>

section \<open>The atomic thread is the thread left alone\<close>

text \<open>A thread that has returned did so after its last statement, and nobody takes the request back.\<close>

lemma thread_step_keeps:
  assumes "thread_step pc w = Some w'"
  shows "rw_shutdown w' = rw_shutdown w" "rw_thread w = Some pc \<Longrightarrow> rw_thread w' \<noteq> None"
proof -
  have sh: "rw_shutdown w1 = rw_shutdown w" if "drain_step w = Some (got, w1)" for got w1
    using that by (auto simp: drain_step_def WriteRecord_def bind_eq_Some_conv split: if_splits prod.splits)
  show "rw_shutdown w' = rw_shutdown w" "rw_thread w = Some pc \<Longrightarrow> rw_thread w' \<noteq> None"
    using assms sh MaybeFlush_frame(2) [of w] by (cases pc; auto simp: bind_eq_Some_conv Let_def split: if_splits)+
qed

lemma WriterThreadMain_end:
  assumes "WriterThreadMain w = Some w'"
  shows "rw_shutdown w' = rw_shutdown w" "rw_thread w \<noteq> None \<Longrightarrow> rw_thread w' = Some Exited"
proof -
  have "rw_shutdown w' = rw_shutdown w \<and> (rw_thread w \<noteq> None \<longrightarrow> rw_thread w' = Some Exited)"
  proof (rule WriterThreadMain.raw_induct [where P = "\<lambda>w w'. rw_shutdown w' = rw_shutdown w
      \<and> (rw_thread w \<noteq> None \<longrightarrow> rw_thread w' = Some Exited)", OF _ assms], goal_cases)
    case (1 f w w')
    show ?case
    proof (cases "rw_thread w = None \<or> rw_thread w = Some Exited")
      case True
      with 1(2) show ?thesis by (auto split: option.splits if_splits)
    next
      case False
      then obtain pc w1 where pc: "rw_thread w = Some pc" "thread_step pc w = Some w1" "f w1 = Some w'"
        using 1(2) by (auto simp: bind_eq_Some_conv split: option.splits if_splits)
      from 1(1) [OF pc(3)] thread_step_keeps [OF pc(2)] pc(1) show ?thesis by simp
    qed
  qed
  then show "rw_shutdown w' = rw_shutdown w" "rw_thread w \<noteq> None \<Longrightarrow> rw_thread w' = Some Exited" by simp_all
qed

lemma alone_add: "cthread_alone (m + n) c = Option.bind (cthread_alone m c) (cthread_alone n)"
  by (induction m arbitrary: c) (auto split: Option.bind_split prod.split)

lemma drain_thread_step:
  "draining pc \<Longrightarrow> thread_step pc w = Option.bind (drain_step w) (\<lambda>(got, w). Some (w\<lparr>rw_thread := Some (after_pop pc got)\<rparr>))"
  by (cases pc) (auto simp: Let_def split: Option.bind_split prod.split intro: arg_cong)

text \<open>A \<open>TryPop\<close> that finds a record, access by access.\<close>

lemma alone_pop:
  assumes "\<not> cw_got c" "cw_cons c = CIdle" "rw_thread (cw_w c) = Some pc" "draining pc"
    and pop: "TryPop ring_size (rw_rec (cw_w c)) (rw_ring (cw_w c)) = Some (True, out, rb)"
  shows "cthread_alone 4 c = Some (c\<lparr>cw_w := (cw_w c)\<lparr>rw_rec := out, rw_ring := rb\<rparr>, cw_got := True\<rparr>)"
proof -
  let ?rb = "rw_ring (cw_w c)"
  let ?i = "slot_index ring_size (rb_read_index ?rb)"
  let ?slots = "(rb_slots ?rb)[?i := (rb_slots ?rb ! ?i)\<lparr>sl_ready := False\<rparr>]"
  have p: "sl_ready (rb_slots ?rb ! ?i)" "copy_slot (rb_slots ?rb ! ?i) (rw_rec (cw_w c)) = Some out"
    "rb = ?rb\<lparr>rb_slots := ?slots, rb_read_index := rb_read_index ?rb + 1\<rparr>"
    using pop by (auto simp: TryPop_def Let_def bind_eq_Some_conv split: if_splits)
  let ?c1 = "c\<lparr>cw_cons := CCopying\<rparr>"
  let ?c2 = "c\<lparr>cw_w := (cw_w c)\<lparr>rw_rec := out\<rparr>, cw_cons := CCopied\<rparr>"
  let ?c3 = "c\<lparr>cw_w := (cw_w c)\<lparr>rw_rec := out, rw_ring := ?rb\<lparr>rb_slots := ?slots\<rparr>\<rparr>, cw_cons := CCleared\<rparr>"
  note defs = cthread_step_def drain_access_def cons_step_def Let_def with_ring_def ring_of_def
  have 1: "cthread_step c = Some (CTau, ?c1)" using assms p by (simp add: defs)
  have 2: "cthread_step ?c1 = Some (CTau, ?c2)" using assms p by (simp add: defs)
  have 3: "cthread_step ?c2 = Some (CPop (popped_entry out), ?c3)" using assms p by (simp add: defs)
  have 4: "cthread_step ?c3 = Some (CTau, c\<lparr>cw_w := (cw_w c)\<lparr>rw_rec := out, rw_ring := rb\<rparr>, cw_cons := CIdle, cw_got := True\<rparr>)"
    using assms p by (simp add: defs)
  have "c\<lparr>cw_w := w, cw_cons := CIdle, cw_got := True\<rparr> = c\<lparr>cw_w := w, cw_got := True\<rparr>" for w
    using assms(2) by (cases c) simp
  moreover have "(4::nat) = Suc (Suc (Suc (Suc 0)))" by simp
  ultimately show ?thesis by (simp only: cthread_alone.simps 1 2 3 4 Option.bind.simps prod.case)
qed

lemma alone_thread_step:
  assumes c: "\<not> cw_got c" "cw_cons c = CIdle" "rw_thread (cw_w c) = Some pc" and step: "thread_step pc (cw_w c) = Some w'"
  shows "\<exists>n. cthread_alone n c = Some (c\<lparr>cw_w := w'\<rparr>)"
proof (cases "draining pc")
  case False
  then have "cthread_alone 1 c = Some (c\<lparr>cw_w := w'\<rparr>)" using c(3) step by (simp add: cthread_step_def)
  then show ?thesis by blast
next
  case True
  then obtain got w1 where d: "drain_step (cw_w c) = Some (got, w1)" "w' = w1\<lparr>rw_thread := Some (after_pop pc got)\<rparr>"
    using step by (auto simp: drain_thread_step bind_eq_Some_conv)
  then obtain out rb where pop: "TryPop ring_size (rw_rec (cw_w c)) (rw_ring (cw_w c)) = Some (got, out, rb)"
    by (auto simp: drain_step_def bind_eq_Some_conv split: if_splits)
  show ?thesis
  proof (cases got)
    case False
    then have "w1 = cw_w c" using d(1) pop by (simp add: drain_step_def)
    moreover have "\<not> sl_ready (slot_at ring_size (ring_of c) (rb_read_index (rw_ring (cw_w c))))"
      using pop False by (auto simp: TryPop_def Let_def bind_eq_Some_conv split: if_splits)
    ultimately have "cthread_alone 1 c = Some (c\<lparr>cw_w := w'\<rparr>)"
      using c True d(2) False by (simp add: cthread_step_def drain_access_def cons_step_def Let_def)
    then show ?thesis by blast
  next
    case got: True
    let ?w = "(cw_w c)\<lparr>rw_rec := out, rw_ring := rb\<rparr>"
    obtain ok where "WriteRecord out ?w = Some (ok, w1)"
      using d(1) pop got by (auto simp: drain_step_def bind_eq_Some_conv)
    then have "cthread_step (c\<lparr>cw_w := ?w, cw_got := True\<rparr>) = Some (CTau, c\<lparr>cw_w := w', cw_got := False\<rparr>)"
      using c True d(2) got by (simp add: cthread_step_def drain_access_def)
    moreover have "c\<lparr>cw_w := w', cw_got := False\<rparr> = c\<lparr>cw_w := w'\<rparr>" using c(1) by (cases c) simp
    ultimately have "cthread_alone (4 + 1) c = Some (c\<lparr>cw_w := w'\<rparr>)"
      using alone_pop [OF c True] pop got by (simp only: alone_add) simp
    then show ?thesis by blast
  qed
qed

lemma alone_thread_main:
  assumes "WriterThreadMain w = Some w'" and "\<not> cw_got c" and "cw_cons c = CIdle" and "cw_w c = w"
  shows "\<exists>n. cthread_alone n c = Some (c\<lparr>cw_w := w'\<rparr>)"
proof -
  have "\<forall>c. \<not> cw_got c \<and> cw_cons c = CIdle \<and> cw_w c = w \<longrightarrow> (\<exists>n. cthread_alone n c = Some (c\<lparr>cw_w := w'\<rparr>))"
  proof (rule WriterThreadMain.raw_induct [where P = "\<lambda>w w'. \<forall>c. \<not> cw_got c \<and> cw_cons c = CIdle \<and> cw_w c = w
      \<longrightarrow> (\<exists>n. cthread_alone n c = Some (c\<lparr>cw_w := w'\<rparr>))", OF _ assms(1)], intro allI impI, goal_cases)
    case (1 f w w' c)
    have same: "\<exists>n. cthread_alone n c = Some (c\<lparr>cw_w := w'\<rparr>)" if "w' = w"
      using that 1(3) by (intro exI [of _ 0]) (cases c, simp)
    show ?case
    proof (cases "rw_thread w = None \<or> rw_thread w = Some Exited")
      case True
      with 1(2) same show ?thesis by (auto split: option.splits if_splits)
    next
      case False
      then obtain pc w1 where pc: "rw_thread w = Some pc" "thread_step pc w = Some w1" "f w1 = Some w'"
        using 1(2) by (auto simp: bind_eq_Some_conv split: option.splits if_splits)
      obtain m where m: "cthread_alone m c = Some (c\<lparr>cw_w := w1\<rparr>)" using alone_thread_step [of c pc w1] 1(3) pc by auto
      from 1(1) [OF pc(3)] 1(3) obtain n where "cthread_alone n (c\<lparr>cw_w := w1\<rparr>) = Some (c\<lparr>cw_w := w'\<rparr>)"
        by (auto dest: spec [of _ "c\<lparr>cw_w := w1\<rparr>"])
      with m have "cthread_alone (m + n) c = Some (c\<lparr>cw_w := w'\<rparr>)" by (simp add: alone_add)
      then show ?thesis by blast
    qed
  qed
  with assms show ?thesis by blast
qed

section \<open>Properties\<close>

text \<open>C26: The atomic model of the writer is the access-level model without interference. When no push interferes and the thread
  is between two calls of \<open>TryPop\<close>, the single accesses of the thread after the shutdown request add up to
  the thread function \<open>WriterThreadMain\<close> that \<open>RecordWriter_Close\<close> joins: it returns after finitely many of
  them, and \<open>Close\<close> ends in the same state.\<close>

theorem Close_is_its_steps:
  assumes "\<not> cw_got c" and "cw_cons c = CIdle" and "rw_thread (cw_w c) \<noteq> None" and "RecordWriter_Close (cw_w c) = Some w'"
  shows "\<exists>n c'. cthread_alone n (request_shutdown c) = Some c' \<and> rw_thread (cw_w c') = Some Exited
    \<and> cw_prod c' = cw_prod c \<and> RecordWriter_Close (cw_w c') = Some w'"
proof -
  let ?w = "(cw_w c)\<lparr>rw_shutdown := True\<rparr>"
  let ?fin = "\<lambda>w. if rw_bin_fd w \<ge> 0 then w\<lparr>rw_thread := None, rw_os := sys_fsync (rw_bin_fd w) (rw_os w), rw_bin_fd := -1\<rparr> else w\<lparr>rw_thread := None\<rparr>"
  obtain w1 where w1: "WriterThreadMain ?w = Some w1" "w' = ?fin w1"
    using assms(3,4) by (auto simp: RecordWriter_Close_def bind_eq_Some_conv split: if_splits)
  have ex: "rw_thread w1 = Some Exited \<and> rw_shutdown w1"
    using WriterThreadMain_end [OF w1(1)] assms(3) by simp
  obtain n where n: "cthread_alone n (request_shutdown c) = Some ((request_shutdown c)\<lparr>cw_w := w1\<rparr>)"
    using alone_thread_main [OF w1(1), of "request_shutdown c"] assms(1,2) by (auto simp: request_shutdown_def)
  have same: "w1\<lparr>rw_shutdown := True\<rparr> = w1" using ex by (cases w1) simp
  have "WriterThreadMain (w1\<lparr>rw_shutdown := True\<rparr>) = Some w1" unfolding same using ex by (simp add: WriterThreadMain.simps)
  then have "RecordWriter_Close w1 = Some (?fin w1)" using ex by (simp add: RecordWriter_Close_def)
  with n ex w1(2) show ?thesis
    by (intro exI [of _ n] exI [of _ "(request_shutdown c)\<lparr>cw_w := w1\<rparr>"]) (simp add: request_shutdown_def)
qed

theorem Close_is_its_steps_witness:
  "\<exists>w0 w' n c'. RecordWriter_Open [] [] fresh_writer = Some (True, w0) \<and> RecordWriter_Close w0 = Some w'
     \<and> cthread_alone n (request_shutdown (CWriter_start w0)) = Some c' \<and> RecordWriter_Close (cw_w c') = Some w'"
proof -
  obtain w0 where w0: "RecordWriter_Open [] [] fresh_writer = Some (True, w0)" "writer_ok w0" "serving w0" "\<not> rw_shutdown w0"
    "rw_thread w0 = Some LoopTest"
    using Open_session [OF fresh_writer_ready(1)] by blast
  obtain w2 where w2: "RecordWriter_Close w0 = Some (closed w2)" using session_closes [OF w0(2,3) trace_start w0(4)] by blast
  have "\<not> cw_got (CWriter_start w0)" "cw_cons (CWriter_start w0) = CIdle" "cw_w (CWriter_start w0) = w0"
    by (simp_all add: CWriter_start_def)
  with Close_is_its_steps [of "CWriter_start w0" "closed w2"] w0(1,5) w2 show ?thesis by auto
qed

end
