(* ===== verification/Session_Log.thy ===== *)
theory Session_Log
  imports Writer_Steps
begin

text \<open>
  The writer as a log. Abstractly a recording is the list of claimed records, how many of them are
  written and how many of those are on stable storage; records are claimed at the end, written in
  order, and a flush makes durable whatever is written. The interleaved writer of
  \<open>Concurrent_Writer\<close> is shown to refine this log (a forward simulation, the second instance of
  \<open>stuttering_simulation\<close>): its file is the written part, \<open>pending_since_flush_\<close> counts the written records a
  loss of power may take, and the bytes covered by \<open>fsync\<close> are those of the durable part.
\<close>

section \<open>The log\<close>

record SessionLog =
  lg_claimed :: "entry list"
  lg_written :: nat
  lg_synced :: nat

datatype log_event = LClaim entry | LWrite | LSync

inductive log_step :: "SessionLog \<Rightarrow> log_event \<Rightarrow> SessionLog \<Rightarrow> bool" where
  log_claim: "log_step g (LClaim e) (g\<lparr>lg_claimed := lg_claimed g @ [e]\<rparr>)"
| log_write: "lg_written g < length (lg_claimed g) \<Longrightarrow> log_step g LWrite (g\<lparr>lg_written := Suc (lg_written g)\<rparr>)"
| log_sync: "lg_synced g < lg_written g \<Longrightarrow> log_step g LSync (g\<lparr>lg_synced := lg_written g\<rparr>)"

definition log_start :: SessionLog where
  "log_start = \<lparr>lg_claimed = [], lg_written = 0, lg_synced = 0\<rparr>"

fun event_claims :: "log_event \<Rightarrow> entry list" where
  "event_claims (LClaim e) = [e]"
| "event_claims _ = []"

definition log_ok :: "SessionLog \<Rightarrow> bool" where
  "log_ok g \<longleftrightarrow> lg_synced g \<le> lg_written g \<and> lg_written g \<le> length (lg_claimed g)"

lemma log_step_ok: "log_step g m g' \<Longrightarrow> log_ok g \<Longrightarrow> log_ok g'"
  by (induction rule: log_step.induct) (auto simp: log_ok_def)

lemma log_step_claims: "log_step g m g' \<Longrightarrow> lg_claimed g' = lg_claimed g @ event_claims m"
  by (induction rule: log_step.induct) simp_all

lemma log_run_claims: "run_of log_step g ms g' \<Longrightarrow> lg_claimed g' = lg_claimed g @ concat (map event_claims ms)"
  by (induction rule: run_of.induct) (simp_all add: log_step_claims)

section \<open>What one step of the writer does to the log\<close>

lemma MaybeFlush_cases:
  obtains (early) "rw_pending (MaybeFlush w) = rw_pending w" "os_synced (rw_os (MaybeFlush w)) = os_synced (rw_os w)"
  | (flushed) "rw_pending w \<noteq> 0" "rw_pending (MaybeFlush w) = 0"
      "0 \<le> rw_bin_fd w \<longrightarrow> os_synced (rw_os (MaybeFlush w)) = length (file_of w)"
  by (cases "rw_pending w = 0 \<or> os_steady (rw_os w) (os_reads (rw_os w)) - rw_last_flush w < rw_flush_interval w")
    (auto simp: MaybeFlush_def steady_now_def sys_fsync_def Let_def)

lemma cw_step_log:
  assumes inv: "cw_inv prefix popped c" and ring: "conc_inv ring_exponent (ring_of c)" and step: "cw_step c l c'"
  obtains (quiet) "length (in_hand c') = length (in_hand c) + length (c_popped [l])"
      "os_synced (rw_os (cw_w c')) = os_synced (rw_os (cw_w c))" "rw_pending (cw_w c') = rw_pending (cw_w c)"
  | (wrote) "l = CTau" "length (in_hand c) = 1" "in_hand c' = []"
      "os_synced (rw_os (cw_w c')) = os_synced (rw_os (cw_w c))" "rw_pending (cw_w c') = rw_pending (cw_w c) + 1"
  | (flushed) "l = CTau" "in_hand c' = in_hand c" "rw_pending (cw_w c) \<noteq> 0" "rw_pending (cw_w c') = 0"
      "os_synced (rw_os (cw_w c')) = length (file_of (cw_w c))"
  using step
proof cases
  case (push_access e p s)
  then have "c_popped [l] = []" "cr_cons s = cw_cons c" "cr_out s = rw_rec (cw_w c)"
    by (auto simp: prod_step_simps bind_eq_Some_conv split: prod_pc.splits if_splits prod.splits)
  with push_access quiet show thesis by (simp add: in_hand_def with_ring_def)
next
  case close_request
  with quiet show thesis by (simp add: in_hand_def request_shutdown_def)
next
  case thread_access
  from thread_access show thesis
  proof (cases rule: cthread_step_cases)
    case (other pc w)
    have fd: "0 \<le> rw_bin_fd (cw_w c)" using inv by (simp add: cw_inv_def)
    have hand: "in_hand c' = in_hand c" using other thread_step_frame(2) [of pc "cw_w c" w] by (simp add: in_hand_def)
    have w: "rw_os w = rw_os (cw_w c) \<and> rw_pending w = rw_pending (cw_w c)
        \<or> rw_os w = rw_os (MaybeFlush (cw_w c)) \<and> rw_pending w = rw_pending (MaybeFlush (cw_w c))"
      using other(2,3) by (cases pc) (auto split: if_splits)
    show thesis
    proof (cases rule: MaybeFlush_cases [of "cw_w c"])
      case early
      with w hand other quiet show thesis by auto
    next
      case 2: flushed
      from w show thesis using 2 hand other fd quiet flushed by auto
    qed
  next
    case (wrote pc ok w)
    have "out_wf (rw_rec (cw_w c))" using conc_invD(3) [OF ring] by (simp add: cons_ok_def)
    moreover have h: "0 \<le> rw_bin_fd (cw_w c)" "good_disk (rw_os (cw_w c))" "unat (pr_payload_len (rw_rec (cw_w c))) \<le> kMaxPayloadBytes"
      "cw_cons c = CIdle"
      using inv wrote(3) by (auto simp: cw_inv_def)
    ultimately obtain os where "w = (cw_w c)\<lparr>rw_os := os, rw_pending := rw_pending (cw_w c) + 1\<rparr>"
      "appended (rw_os (cw_w c)) (record_bytes (popped_entry (rw_rec (cw_w c)))) os"
      using WriteRecord_good [OF h(1,2), of "rw_rec (cw_w c)"] wrote(4) by (auto simp: out_wf_def)
    with wrote h(4) appended_frame(3) [of "rw_os (cw_w c)" _ os] show thesis
      by (intro that(2)) (simp_all add: in_hand_def)
  next
    case (miss pc)
    with quiet show thesis by (simp add: in_hand_def)
  next
    case (access pc s)
    then have "length (in_hand c') = length (in_hand c) + length (c_popped [l])"
      by (cases "cw_cons c") (auto simp: cons_step_def Let_def in_hand_def bind_eq_Some_conv split: if_splits)
    with access quiet show thesis by (simp add: with_ring_def)
  qed
qed

section \<open>The refinement\<close>

definition durable_bytes :: "bytes \<Rightarrow> SessionLog \<Rightarrow> nat" where
  "durable_bytes prefix g = (if lg_synced g = 0 then 0 else length (prefix @ records_bytes (take (lg_synced g) (lg_claimed g))))"

definition log_rel :: "bytes \<Rightarrow> CWriter \<Rightarrow> SessionLog \<Rightarrow> bool" where
  "log_rel prefix c g \<longleftrightarrow> conc_inv ring_exponent (ring_of c)
     \<and> fifo_inv ring_exponent (lg_claimed g) (lg_written g + length (in_hand c)) (ring_of c)
     \<and> cw_inv prefix (take (lg_written g + length (in_hand c)) (lg_claimed g)) c \<and> log_ok g
     \<and> rw_pending (cw_w c) = word_of_nat (lg_written g - lg_synced g)
     \<and> os_synced (rw_os (cw_w c)) = durable_bytes prefix g"

lemma log_relD:
  assumes "log_rel prefix c g"
  shows "conc_inv ring_exponent (ring_of c)" "fifo_inv ring_exponent (lg_claimed g) (lg_written g + length (in_hand c)) (ring_of c)"
    "cw_inv prefix (take (lg_written g + length (in_hand c)) (lg_claimed g)) c" "log_ok g"
    "rw_pending (cw_w c) = word_of_nat (lg_written g - lg_synced g)" "os_synced (rw_os (cw_w c)) = durable_bytes prefix g"
    "lg_written g + length (in_hand c) \<le> length (lg_claimed g)"
  using assms slots_fifoD(1) [OF fifo_invD(4)] unfolding log_rel_def by blast+

lemma log_rel_file:
  assumes "log_rel prefix c g"
  shows "file_of (cw_w c) = prefix @ records_bytes (take (lg_written g) (lg_claimed g))"
proof -
  note d = log_relD [OF assms]
  from d(3) obtain ws where ws: "take (lg_written g + length (in_hand c)) (lg_claimed g) = ws @ in_hand c"
    "file_of (cw_w c) = prefix @ records_bytes ws" by (rule cw_invD)
  have "length ws = lg_written g" using arg_cong [OF ws(1), of length] d(7) by simp
  then have "ws = take (lg_written g) (ws @ in_hand c)" by simp
  also have "\<dots> = take (lg_written g) (lg_claimed g)" by (simp add: ws(1) [symmetric] min_def)
  finally show ?thesis using ws(2) by simp
qed

lemma log_rel_start: "opened prefix w \<Longrightarrow> log_rel prefix (CWriter_start w) log_start"
  using ring_of_start [of prefix w] conc_inv_init fifo_inv_init cw_inv_start [of prefix w]
  by (simp add: log_rel_def log_start_def log_ok_def durable_bytes_def opened_def CWriter_start_def in_hand_def)

text \<open>The ring's and the file's part of the relation follow any step.\<close>

lemma log_rel_step:
  assumes rel: "log_rel prefix c g" and step: "cw_step c l c'" and room: "roomy ring_size (ring_of c')"
  defines "n \<equiv> lg_written g + length (in_hand c)"
  shows "conc_inv ring_exponent (ring_of c')" "fifo_inv ring_exponent (lg_claimed g @ c_claimed [l]) (n + length (c_popped [l])) (ring_of c')"
    "cw_inv prefix (take (n + length (c_popped [l])) (lg_claimed g @ c_claimed [l])) c'"
proof -
  note d = log_relD [OF rel, folded n_def]
  have ring: "conc_inv ring_exponent (ring_of c') \<and> in_order ring_exponent (lg_claimed g) n l (ring_of c')"
    using cw_step_sim [OF step] conc_step_fifo [OF ring_exponent_less d(1,2) _ room] d(1,2) by (auto simp: in_order_def)
  then show "conc_inv ring_exponent (ring_of c')"
    "fifo_inv ring_exponent (lg_claimed g @ c_claimed [l]) (n + length (c_popped [l])) (ring_of c')"
    by (simp_all add: in_order_def)
  have "take n (lg_claimed g) @ c_popped [l] = take (n + length (c_popped [l])) (lg_claimed g @ c_claimed [l])"
    using ring d(7) by (cases l) (auto simp: in_order_def take_Suc_conv_app_nth)
  with cw_step_inv [OF d(3,1) step] show "cw_inv prefix (take (n + length (c_popped [l])) (lg_claimed g @ c_claimed [l])) c'"
    by simp
qed

lemma log_sim_step:
  assumes step: "roomy_step c l c'" and rel: "log_rel prefix c g"
  shows "(\<exists>m g'. log_step g m g' \<and> event_claims m = c_claimed [l] \<and> log_rel prefix c' g')
    \<or> c_claimed [l] = [] \<and> log_rel prefix c' g"
proof -
  note d = log_relD [OF rel] and r = log_rel_step [OF rel conjunct1 [OF step] conjunct2 [OF step]]
  have ok: "lg_synced g \<le> lg_written g" using d(4) by (simp add: log_ok_def)
  from d(3,1) conjunct1 [OF step] show ?thesis
  proof (cases rule: cw_step_log)
    case quiet
    show ?thesis
    proof (cases "\<exists>e. l = CClaim e")
      case True
      then obtain e where l: "l = CClaim e" by blast
      have "log_rel prefix c' (g\<lparr>lg_claimed := lg_claimed g @ [e]\<rparr>)"
        using r quiet d(4-7) log_step_ok [OF log_claim d(4), of e] by (simp add: log_rel_def l log_ok_def durable_bytes_def)
      with log_claim l show ?thesis by fastforce
    next
      case False
      then have l: "c_claimed [l] = []" by (cases l) auto
      with r quiet d(4-7) have "log_rel prefix c' g" by (simp add: log_rel_def add.assoc)
      with l show ?thesis by blast
    qed
  next
    case wrote
    have "log_rel prefix c' (g\<lparr>lg_written := Suc (lg_written g)\<rparr>)"
      using r wrote d(4-7) by (simp add: log_rel_def log_ok_def durable_bytes_def Suc_diff_le add.commute)
    moreover have "log_step g LWrite (g\<lparr>lg_written := Suc (lg_written g)\<rparr>)" using d(7) wrote(2) by (intro log_write) simp
    ultimately show ?thesis using wrote(1) by fastforce
  next
    case flushed
    have "lg_synced g < lg_written g" using flushed(3) d(5) ok by (cases "lg_synced g = lg_written g") auto
    moreover from this have "log_rel prefix c' (g\<lparr>lg_synced := lg_written g\<rparr>)"
      using r flushed d(4,7) log_rel_file [OF rel] by (simp add: log_rel_def log_ok_def durable_bytes_def)
    ultimately show ?thesis using flushed(1) log_sync by fastforce
  qed
qed

interpretation log_sim: stuttering_simulation roomy_step log_step "log_rel prefix" "\<lambda>l. c_claimed [l]" event_claims for prefix
  by unfold_locales (rule log_sim_step)

lemma claims_concat: "concat (map (\<lambda>l. c_claimed [l]) ls) = c_claimed ls"
  by (induction ls rule: c_claimed.induct) simp_all

text \<open>Runs of the writer are runs of the log; a popped record is written or in hand.\<close>

lemma cw_run_log:
  assumes "opened prefix w0" and "cw_run (CWriter_start w0) ls c"
  shows "\<exists>ms g. run_of log_step log_start ms g \<and> lg_claimed g = c_claimed ls \<and> log_rel prefix c g
    \<and> length (c_popped ls) = lg_written g + length (in_hand c)"
proof -
  have "run_of roomy_step (CWriter_start w0) ls c" using assms(2) by (simp add: cw_run_iff)
  from log_sim.simulate [OF this log_rel_start [OF assms(1)]] obtain ms g where
    g: "run_of log_step log_start ms g" "concat (map event_claims ms) = c_claimed ls" "log_rel prefix c g"
    by (auto simp: claims_concat)
  with log_run_claims [OF g(1)] have cl: "lg_claimed g = c_claimed ls" by (simp add: log_start_def)
  have "length (c_popped ls) = lg_written g + length (in_hand c)"
    using fifo_inv_popped [OF ring_exponent_less cw_run_fifo(2) [OF assms]] log_relD(2) [OF g(3)] unfolding cl by blast
  with g cl show ?thesis by blast
qed

text \<open>A cut that spares the durable bytes spares the durable records.\<close>

lemma records_take_mono: "i \<le> j \<Longrightarrow> length (records_bytes (take i es)) \<le> length (records_bytes (take j es))"
proof -
  assume "i \<le> j"
  then obtain n where "j = i + n" using le_Suc_ex by blast
  then show ?thesis by (simp add: take_add)
qed

lemma durable_kept:
  assumes "log_ok g" and "durable_bytes prefix g \<le> m" and "length prefix \<le> m"
    and "k < lg_written g \<longrightarrow> m - length prefix < length (records_bytes (take (Suc k) (take (lg_written g) (lg_claimed g))))"
  shows "lg_synced g \<le> k"
proof (rule ccontr)
  assume "\<not> lg_synced g \<le> k"
  then have k: "Suc k \<le> lg_synced g" "k < lg_written g" using assms(1) by (simp_all add: log_ok_def)
  have "take (Suc k) (take (lg_written g) (lg_claimed g)) = take (Suc k) (lg_claimed g)" using k(2) by (simp add: min_absorb1)
  with records_take_mono [OF k(1), of "lg_claimed g"] assms(2-4) k show False by (simp add: durable_bytes_def)
qed

end
