(* ===== verification/Writer_Durability.thy ===== *)
theory Writer_Durability
  imports Session_Log
begin

text \<open>
  When recorded data reaches the file and when it reaches stable storage. The thread writes
  everything the producers have claimed without waiting for \<open>Close\<close>; \<open>MaybeFlush\<close> however is only
  called after a drain that found something, so a batch whose drain ended before the flush
  interval was over is not flushed until more records arrive or the session ends.
\<close>

section \<open>Catching up\<close>

text \<open>The end of a drain that has taken everything.\<close>

definition caught_up :: "clabel list \<Rightarrow> CWriter \<Rightarrow> bool" where
  "caught_up ls c \<longleftrightarrow> (\<exists>d. rw_thread (cw_w c) = Some (AfterDrain d)) \<and> in_hand c = [] \<and> c_popped ls = c_claimed ls"

fun lap_rank :: "thread_pc \<Rightarrow> nat" where
  "lap_rank (AfterDrain d) = 2"
| "lap_rank LoopTest = 1"
| "lap_rank _ = 0"

definition lap_work :: "clabel list \<Rightarrow> CWriter \<Rightarrow> nat" where
  "lap_work ls c = 10 * (case rw_thread (cw_w c) of None \<Rightarrow> 0 | Some pc \<Rightarrow> lap_rank pc) + cw_load ls c"

definition unattended :: "CWriter \<Rightarrow> bool" where
  "unattended c \<longleftrightarrow> (\<forall>p. cw_prod c p = PIdle) \<and> \<not> rw_shutdown (cw_w c)"

lemma lap_progress:
  assumes start: "opened prefix w0" and run: "cw_run (CWriter_start w0) ls c" and un: "unattended c"
    and step: "cthread_step c = Some (l, c')"
  shows "unattended c' \<and> (caught_up (ls @ [l]) c' \<or> lap_work (ls @ [l]) c' < lap_work ls c \<or> caught_up ls c)"
proof
  have sd: "\<not> rw_shutdown (cw_w c)" and idle: "\<forall>p. cw_prod c p = PIdle" using un by (simp_all add: unattended_def)
  show "unattended c'" using un cthread_step_shutdown [OF step] by (simp add: unattended_def)
  obtain pc where pc: "rw_thread (cw_w c) = Some pc" "live pc" "cw_got c \<or> cw_cons c \<noteq> CIdle \<longrightarrow> draining pc"
    using cw_run_inv [OF run start refl] sd by (auto simp: cw_inv_def)
  from start run step show "caught_up (ls @ [l]) c' \<or> lap_work (ls @ [l]) c' < lap_work ls c \<or> caught_up ls c"
  proof (cases rule: cw_load_step)
    case (drained pc')
    then have "lap_rank (after_pop pc' True) = lap_rank pc'" by (cases pc') simp_all
    with drained show ?thesis by (auto simp: lap_work_def)
  next
    case (missed pc')
    then have "pc' = pc" "\<exists>d. after_pop pc' False = AfterDrain d" using pc by (cases pc'; simp)+
    moreover have "c_popped ls = c_claimed ls" by (rule miss_complete [OF start run idle missed(5,7)])
    ultimately show ?thesis using missed by (auto simp: caught_up_def)
  next
    case (moved pc' w)
    have "\<exists>pc1. rw_thread w = Some pc1 \<and> lap_rank pc1 < lap_rank pc'"
      using moved pc sd by (cases pc') (auto split: if_splits)
    with moved show ?thesis by (auto simp: lap_work_def)
  qed
qed

text \<open>Since the moment \<open>c0\<close> nothing was written, and no drain that had found something was under way.\<close>

definition untouched :: "CWriter \<Rightarrow> CWriter \<Rightarrow> bool" where
  "untouched c0 c \<longleftrightarrow> file_of (cw_w c) = file_of (cw_w c0) \<and> rw_thread (cw_w c0) \<noteq> Some (Draining True)"

text \<open>A record that is written sets \<open>drained_any\<close>, which then holds until the end of the drain.\<close>

lemma lap_drained:
  assumes start: "opened prefix w0" and run: "cw_run (CWriter_start w0) ls c" and un: "unattended c"
    and step: "cthread_step c = Some (l, c')" and q: "untouched c0 c \<or> rw_thread (cw_w c) = Some (Draining True)"
  shows "untouched c0 c' \<or> rw_thread (cw_w c') = Some (Draining True)
    \<or> rw_thread (cw_w c') = Some (AfterDrain True) \<and> caught_up (ls @ [l]) c'"
proof -
  have idle: "\<forall>p. cw_prod c p = PIdle" and sd: "\<not> rw_shutdown (cw_w c)" using un by (simp_all add: unattended_def)
  have live: "live pc" if "rw_thread (cw_w c) = Some pc" for pc
    using cw_run_inv [OF run start refl] sd that by (auto simp: cw_inv_def)
  from step show ?thesis
  proof (cases rule: cthread_step_cases)
    case (other pc w)
    have "file_of (MaybeFlush (cw_w c)) = file_of (cw_w c)" using MaybeFlush_frame(1) [of "cw_w c"] by (simp add: idle_def)
    with other q live [OF other(1)] show ?thesis by (cases pc) (auto simp: untouched_def Let_def split: if_splits)
  next
    case (wrote pc ok w)
    with live [OF wrote(1)] show ?thesis by (cases pc) simp_all
  next
    case (miss pc)
    then obtain d where d: "pc = Draining d" using live [OF miss(1)] by (cases pc) auto
    have "c_popped ls = c_claimed ls" by (rule miss_complete [OF start run idle miss(4,5)])
    with miss d have "caught_up (ls @ [l]) c'" by (simp add: caught_up_def in_hand_def)
    with miss d q show ?thesis by (cases d) (auto simp: untouched_def)
  next
    case (access pc s)
    with q show ?thesis by (auto simp: untouched_def with_ring_def)
  qed
qed

lemma thread_catches_up_run:
  assumes o: "opened prefix w0" and run: "cw_run (CWriter_start w0) ls c" and un: "unattended c"
  shows "\<exists>n c' ls'. cthread_alone n c = Some c' \<and> cw_run c ls' c' \<and> c_claimed ls' = [] \<and> caught_up (ls @ ls') c' \<and> unattended c'
    \<and> file_of (cw_w c') = prefix @ records_bytes (c_claimed ls)
    \<and> (untouched c c' \<or> rw_thread (cw_w c') = Some (AfterDrain True))"
proof -
  let ?Q = "\<lambda>v. unattended v \<and> (untouched c v \<or> rw_thread (cw_w v) = Some (Draining True))"
  let ?P = "\<lambda>ls v. caught_up ls v \<and> unattended v \<and> (untouched c v \<or> rw_thread (cw_w v) = Some (AfterDrain True))"
  have progress: "?P (ls @ [l]) v' \<or> (?Q v' \<and> lap_work (ls @ [l]) v' < lap_work ls v)"
    if "cw_run (CWriter_start w0) ls v" "?Q v" "\<not> ?P ls v" "cthread_step v = Some (l, v')" for ls v l v'
    using lap_progress [OF o that(1) _ that(4)] lap_drained [OF o that(1) _ that(4), of c] that(2,3)
    by (auto simp: caught_up_def)
  have "?Q c" using un by (auto simp: untouched_def)
  from thread_runs_until [where P = ?P and Q = ?Q and m = lap_work, OF o run this progress] obtain n c' ls' where
    c': "cthread_alone n c = Some c'" "cw_run c ls' c'" "c_claimed ls' = []" "?P (ls @ ls') c'" by blast
  have "cw_inv prefix (c_popped (ls @ ls')) c'" using cw_run_inv [OF cw_run_trans [OF c'(2) run] o refl] .
  moreover have "in_hand c' = []" "c_popped (ls @ ls') = c_claimed ls" using c'(3,4) by (simp_all add: caught_up_def)
  ultimately have "cw_inv prefix (c_claimed ls) c'" "in_hand c' = []" by (simp_all only:)
  then have "file_of (cw_w c') = prefix @ records_bytes (c_claimed ls)" by (simp add: cw_inv_def)
  with c' show ?thesis by blast
qed

section \<open>The flush that does not come\<close>

definition too_early :: "RecordWriter \<Rightarrow> bool" where
  "too_early w \<longleftrightarrow> os_steady (rw_os w) (os_reads (rw_os w)) - rw_last_flush w < rw_flush_interval w"

lemma flush_when_due:
  assumes "rw_thread (cw_w c) = Some (AfterDrain d)" and d and "rw_pending (cw_w c) \<noteq> 0" and "0 \<le> rw_bin_fd (cw_w c)"
    and "\<not> too_early (cw_w c)"
  shows "\<exists>c'. cthread_step c = Some (CTau, c') \<and> file_of (cw_w c') = file_of (cw_w c)
    \<and> os_synced (rw_os (cw_w c')) = length (file_of (cw_w c'))"
  using assms by (simp add: cthread_step_def MaybeFlush_def too_early_def steady_now_def sys_fsync_def Let_def)

text \<open>The thread polls an empty ring: every state from the end of one drain to the end of the next.\<close>

definition polling :: "CWriter \<Rightarrow> bool" where
  "polling c \<longleftrightarrow> unattended c \<and> \<not> cw_got c \<and> cw_cons c = CIdle
     \<and> (rw_thread (cw_w c) = Some LoopTest \<or> rw_thread (cw_w c) = Some (Draining False)
        \<or> (\<exists>d. rw_thread (cw_w c) = Some (AfterDrain d) \<and> (d \<longrightarrow> too_early (cw_w c))))"

definition same_disk :: "RecordWriter \<Rightarrow> RecordWriter \<Rightarrow> bool" where
  "same_disk w w' \<longleftrightarrow> file_of w' = file_of w \<and> os_synced (rw_os w') = os_synced (rw_os w) \<and> rw_pending w' = rw_pending w"

lemma polling_thread:
  assumes poll: "polling c" and step: "cthread_step c = Some (l, c')"
    and empty: "\<not> sl_ready (slot_at ring_size (ring_of c) (rb_read_index (rw_ring (cw_w c))))"
  shows "polling c' \<and> same_disk (cw_w c) (cw_w c') \<and> l = CTau"
proof -
  from poll have p: "unattended c" "\<not> cw_got c" "cw_cons c = CIdle" "\<not> rw_shutdown (cw_w c)"
    by (simp_all add: polling_def unattended_def)
  have un: "unattended c'" using p(1) cthread_step_shutdown [OF step] by (simp add: unattended_def)
  from poll consider (test) "rw_thread (cw_w c) = Some LoopTest" | (drain) "rw_thread (cw_w c) = Some (Draining False)"
    | (after) d where "rw_thread (cw_w c) = Some (AfterDrain d)" "d \<longrightarrow> too_early (cw_w c)" unfolding polling_def by blast
  then show ?thesis
  proof cases
    case test
    with step p un show ?thesis by (auto simp: cthread_step_def polling_def same_disk_def)
  next
    case drain
    with step p un empty show ?thesis
      by (auto simp: cthread_step_def drain_access_def cons_step_def Let_def polling_def same_disk_def)
  next
    case after
    have "same_disk (cw_w c) (MaybeFlush (cw_w c))" if d
      using after that by (simp add: same_disk_def MaybeFlush_def too_early_def steady_now_def)
    with after step p un show ?thesis by (auto simp: cthread_step_def polling_def same_disk_def)
  qed
qed

lemma polling_step:
  assumes o: "opened prefix w0" and run: "cw_run (CWriter_start w0) ls c" and all: "c_popped ls = c_claimed ls"
    and poll: "polling c" and step: "cw_step c l c'" and "c_claimed [l] = []" and "\<not> rw_shutdown (cw_w c')"
  shows "polling c' \<and> same_disk (cw_w c) (cw_w c') \<and> c_popped [l] = []"
  using step
proof cases
  case (push_access e p s)
  have "cr_prod (ring_of c) p = PIdle" using poll by (simp add: polling_def unattended_def)
  from push_unclaimed [OF push_access(3) this assms(6)] push_access(1) poll show ?thesis by (simp add: same_disk_def)
next
  case thread_access
  note f = fifo_invD [OF cw_run_fifo(2) [OF o run]]
  have "rb_read_index (rw_ring (cw_w c)) = word_of_nat (length (c_claimed ls))"
    using f(2) poll all by (simp add: polling_def read_pos_def)
  moreover have "\<not> sl_ready (nth_slot ring_exponent (rb_slots (rw_ring (cw_w c))) (length (c_claimed ls)))"
    using slots_fifoD(5) [OF f(4), of "length (c_claimed ls)"] all by simp
  ultimately show ?thesis using polling_thread [OF poll thread_access] by (auto simp: slot_index_of_nat)
next
  case close_request
  with assms(7) show ?thesis by (simp add: request_shutdown_def)
qed

lemma shutdown_stays: "cw_step c l c' \<Longrightarrow> rw_shutdown (cw_w c) \<Longrightarrow> rw_shutdown (cw_w c')"
  by (induction rule: cw_step.induct) (auto simp: cthread_step_shutdown request_shutdown_def)

lemma polling_run:
  assumes "cw_run c ls' c'" and "opened prefix w0" and "cw_run (CWriter_start w0) ls c" and "c_popped ls = c_claimed ls"
    and "polling c" and "c_claimed ls' = []" and "\<not> rw_shutdown (cw_w c')"
  shows "polling c' \<and> same_disk (cw_w c) (cw_w c') \<and> c_popped ls' = []"
  using assms
proof (induction rule: cw_run.induct)
  case (cw_begin c)
  then show ?case by (simp add: same_disk_def)
next
  case (cw_more c ls' c1 l c2)
  have cl: "c_claimed ls' = []" "c_claimed [l] = []" using cw_more.prems(5) by (cases l; simp)+
  have IH: "polling c1" "same_disk (cw_w c) (cw_w c1)" "c_popped ls' = []"
    using cw_more.IH [OF cw_more.prems(1-4) cl(1)] shutdown_stays [OF cw_more.hyps(2)] cw_more.prems(6) by blast+
  have run: "cw_run (CWriter_start w0) (ls @ ls') c1" using cw_run_trans [OF cw_more.hyps(1) cw_more.prems(2)] .
  have "c_popped (ls @ ls') = c_claimed (ls @ ls')" using cw_more.prems(3) IH(3) cl(1) by simp
  from polling_step [OF cw_more.prems(1) run this IH(1) cw_more.hyps(2) cl(2) cw_more.prems(6)] IH(2,3) show ?case
    by (simp add: same_disk_def)
qed

lemma caught_up_polling:
  assumes o: "opened prefix w0" and run: "cw_run (CWriter_start w0) ls c" and "unattended c"
    and t: "rw_thread (cw_w c) = Some (AfterDrain d)" and "d \<longrightarrow> too_early (cw_w c)"
  shows "polling c" "in_hand c = []"
proof -
  have "\<not> cw_got c" "cw_cons c = CIdle" using cw_run_inv [OF run o refl] t by (auto simp: cw_inv_def)
  then show "polling c" "in_hand c = []" using assms by (auto simp: polling_def in_hand_def)
qed

text \<open>Written and not flushed is less than written.\<close>

lemma durable_less:
  assumes "log_ok g" and "lg_synced g < lg_written g"
  shows "durable_bytes prefix g < length (prefix @ records_bytes (take (lg_written g) (lg_claimed g)))"
proof -
  let ?n = "lg_synced g" and ?cl = "lg_claimed g"
  have "?n < length ?cl" using assms by (simp add: log_ok_def)
  moreover obtain m where m: "lg_written g = Suc ?n + m" using assms(2) less_iff_Suc_add by auto
  ultimately have "take (lg_written g) ?cl = take ?n ?cl @ ?cl ! ?n # take m (drop (Suc ?n) ?cl)"
    by (simp only: m take_add take_Suc_conv_app_nth append_assoc append_Cons append_Nil)
  then show ?thesis by (simp add: durable_bytes_def length_record_bytes wire_sizes)
qed

text \<open>A disk with a clock that stands still, for a concrete instance: nothing is ever flushed.\<close>

definition frozen_disk :: Os where
  "frozen_disk = slow_disk\<lparr>os_steady := (\<lambda>_. 0)\<rparr>"

definition frozen :: "RecordWriter \<Rightarrow> bool" where
  "frozen w \<longleftrightarrow> os_steady (rw_os w) = (\<lambda>_. 0) \<and> rw_last_flush w = 0 \<and> 0 < rw_flush_interval w \<and> os_synced (rw_os w) = 0"

lemma frozen_disk_good: "0 \<le> os_open_fd frozen_disk" "good_disk frozen_disk"
  by (simp_all add: frozen_disk_def slow_disk_def good_disk_def)

lemma records_one: "records_bytes [e] = record_bytes e"
  by simp

lemma WriteAll_clock: "WriteAll fd p os = Some (b, os') \<Longrightarrow> os_steady os' = os_steady os \<and> os_synced os' = os_synced os"
  using WriteAll_prefix [of fd p os b os'] by (auto simp: appended_def)

lemma frozen_WriteRecord:
  assumes "WriteRecord r w = Some (ok, w')" and "frozen w"
  shows "frozen w'"
  using assms WriteAll_clock
  by (auto simp: WriteRecord_def frozen_def bind_eq_Some_conv split: if_splits prod.splits)

lemma frozen_step: "cw_step c l c' \<Longrightarrow> frozen (cw_w c) \<Longrightarrow> frozen (cw_w c')"
proof (induction rule: cw_step.induct)
  case (thread_access c l c')
  from thread_access(1) show ?case
  proof (cases rule: cthread_step_cases)
    case (other pc w)
    have "frozen (MaybeFlush (cw_w c))" using thread_access(2) by (auto simp: frozen_def MaybeFlush_def steady_now_def)
    with other thread_access(2) show ?thesis by (cases pc) (auto simp: frozen_def split: if_splits)
  next
    case (wrote pc ok w)
    with frozen_WriteRecord [OF wrote(4) thread_access(2)] show ?thesis by (simp add: frozen_def)
  qed (use thread_access(2) in \<open>simp_all add: frozen_def with_ring_def\<close>)
qed (simp_all add: frozen_def with_ring_def request_shutdown_def)

lemma frozen_run: "cw_run c ls c' \<Longrightarrow> frozen (cw_w c) \<Longrightarrow> frozen (cw_w c')"
  by (induction rule: cw_run.induct) (simp_all add: frozen_step)

lemma frozen_Open:
  assumes "RecordWriter_Open base topics (RecordWriter_init 100000000 ip frozen_disk) = Some (True, w0)"
  shows "frozen w0"
proof -
  have meta: "os_steady os' = os_steady os \<and> os_synced os' = os_synced os" if "WriteMetadata fd topics os = Some (b, os')" for fd os b os'
    using that by (induction topics arbitrary: os) (auto simp: bind_eq_Some_conv split: if_splits dest: WriteAll_clock)
  show ?thesis using assms
    by (auto simp: RecordWriter_Open_def RecordWriter_init_def sys_open_trunc_def steady_now_def frozen_def Let_def
        WriteFileHeaderAndMetadata_def frozen_disk_def slow_disk_def bind_eq_Some_conv split: if_splits dest!: WriteAll_clock meta)
qed

section \<open>Properties\<close>

text \<open>C7: The writer refines a log. With any number of producers, the writer thread and the shutdown request
  interleaved access by access, along every run in which the ring has room: no slot is raced on, no record that
  fits is refused, and the writer moves like the abstract log, in which records are claimed, written in the order of
  the producers' \<open>fetch_add\<close>s, and flushed. The file is the table and the written part; a popped record is written
  unless it is the one in hand; \<open>pending_since_flush_\<close> is the number of records
  written and not durable (modulo its 32 bits), and \<open>fsync\<close> has covered exactly the bytes of the durable part.\<close>

theorem writer_refines_log:
  assumes "0 \<le> os_open_fd os" and "good_disk os"
    and "RecordWriter_Open base topics (RecordWriter_init fi ip os) = Some (True, w0)" and "cw_run (CWriter_start w0) ls c"
  shows "\<exists>ms g. run_of log_step log_start ms g \<and> concat (map event_claims ms) = c_claimed ls
    \<and> lg_claimed g = c_claimed ls \<and> lg_synced g \<le> lg_written g \<and> lg_written g \<le> length (c_popped ls)
    \<and> length (c_popped ls) \<le> Suc (lg_written g) \<and> \<not> race ring_size (ring_of c) \<and> filter fits (c_rejected ls) = []
    \<and> file_of (cw_w c) = session_prefix topics os @ records_bytes (take (lg_written g) (c_claimed ls))
    \<and> rw_pending (cw_w c) = word_of_nat (lg_written g - lg_synced g)
    \<and> os_synced (rw_os (cw_w c)) = durable_bytes (session_prefix topics os) g"
proof -
  have o: "opened (session_prefix topics os) w0" using Open_opened [OF assms(1,2), of base topics fi ip] assms(3) by auto
  from cw_run_log [OF o assms(4)] obtain ms g where
    g: "run_of log_step log_start ms g" "lg_claimed g = c_claimed ls" "log_rel (session_prefix topics os) c g"
      "length (c_popped ls) = lg_written g + length (in_hand c)" by blast
  have "length (in_hand c) \<le> 1" by (simp add: in_hand_def)
  moreover have "\<not> race ring_size (ring_of c)" "filter fits (c_rejected ls) = []"
    using conc_inv_race_free cw_run_fifo(1,4) [OF o assms(4)] by blast+
  moreover
  from log_run_claims [OF g(1)] g(2) have "concat (map event_claims ms) = c_claimed ls" by (simp add: log_start_def)
  ultimately show ?thesis using g log_relD [OF g(3)] log_rel_file [OF g(3)]
    by (intro exI [of _ ms] exI [of _ g]) (simp add: log_ok_def)
qed

theorem writer_refines_log_witness:
  "\<exists>w0 ms g. RecordWriter_Open [] [] (RecordWriter_init 100000000 200000 slow_disk) = Some (True, w0)
     \<and> run_of log_step log_start ms g \<and> concat (map event_claims ms) = [(4, 10, 0, [7])] \<and> lg_claimed g = [(4, 10, 0, [7])]"
proof -
  have d: "0 \<le> os_open_fd slow_disk" "good_disk slow_disk" by (simp_all add: slow_disk_def good_disk_def)
  obtain w0 where w0: "RecordWriter_Open [] [] (RecordWriter_init 100000000 200000 slow_disk) = Some (True, w0)"
    and o: "opened (session_prefix [] slow_disk) w0" using Open_opened [OF d] by blast
  obtain c where "cw_run (CWriter_start w0) [CClaim (4, 10, 0, [7]), CTau, CTau, CAccept (4, 10, 0, [7])] c"
    using one_push_session [OF o fits_small(1)] by blast
  from writer_refines_log [OF d w0 this] w0 show ?thesis by auto
qed

text \<open>C12: Recorded data does not wait for \<open>Close\<close>. From any moment of a run at which no push is in progress and no
  shutdown was requested, the writer thread by itself comes, after finitely many accesses, to the end of a drain
  at which the file holds every record claimed so far. If on the way it wrote anything, or was in a drain that had
  already written something, then this drain ends with \<open>drained_any\<close> set; and if then \<open>pending_since_flush_\<close>, which
  counts modulo \<open>2^32\<close>, is not 0 and the flush interval is over, its next step makes all of the file durable.\<close>

theorem thread_catches_up:
  assumes "0 \<le> os_open_fd os" and "good_disk os"
    and "RecordWriter_Open base topics (RecordWriter_init fi ip os) = Some (True, w0)" and "cw_run (CWriter_start w0) ls c"
    and "\<forall>p. cw_prod c p = PIdle" and "\<not> rw_shutdown (cw_w c)"
  shows "\<exists>n c' drained_any. cthread_alone n c = Some c' \<and> rw_thread (cw_w c') = Some (AfterDrain drained_any)
    \<and> file_of (cw_w c') = session_prefix topics os @ records_bytes (c_claimed ls)
    \<and> (file_of (cw_w c) \<noteq> file_of (cw_w c') \<or> rw_thread (cw_w c) = Some (Draining True) \<longrightarrow> drained_any)
    \<and> (drained_any \<and> rw_pending (cw_w c') \<noteq> 0
        \<and> rw_flush_interval (cw_w c') \<le> os_steady (rw_os (cw_w c')) (os_reads (rw_os (cw_w c'))) - rw_last_flush (cw_w c') \<longrightarrow>
      (\<exists>c''. cthread_step c' = Some (CTau, c'') \<and> file_of (cw_w c'') = file_of (cw_w c')
        \<and> os_synced (rw_os (cw_w c'')) = length (file_of (cw_w c''))))"
proof -
  have o: "opened (session_prefix topics os) w0" using Open_opened [OF assms(1,2), of base topics fi ip] assms(3) by auto
  have "unattended c" using assms(5,6) by (simp add: unattended_def)
  from thread_catches_up_run [OF o assms(4) this] obtain n c' ls' d where
    c': "cthread_alone n c = Some c'" "cw_run c ls' c'" "rw_thread (cw_w c') = Some (AfterDrain d)"
      "file_of (cw_w c') = session_prefix topics os @ records_bytes (c_claimed ls)" "untouched c c' \<or> d"
    unfolding caught_up_def by fastforce
  have "0 \<le> rw_bin_fd (cw_w c')" using cw_run_inv [OF cw_run_trans [OF c'(2) assms(4)] o refl] by (simp add: cw_inv_def)
  with flush_when_due [OF c'(3)] have "d \<and> rw_pending (cw_w c') \<noteq> 0 \<and> \<not> too_early (cw_w c') \<longrightarrow>
      (\<exists>c''. cthread_step c' = Some (CTau, c'') \<and> file_of (cw_w c'') = file_of (cw_w c')
        \<and> os_synced (rw_os (cw_w c'')) = length (file_of (cw_w c'')))" by blast
  moreover have "file_of (cw_w c) \<noteq> file_of (cw_w c') \<or> rw_thread (cw_w c) = Some (Draining True) \<longrightarrow> d"
    using c'(5) by (auto simp: untouched_def)
  ultimately show ?thesis using c'(1,3,4) by (intro exI [of _ n] exI [of _ c'] exI [of _ d]) (simp add: too_early_def)
qed

theorem thread_catches_up_witness:
  "\<exists>w0 c n c'. RecordWriter_Open [] [] (RecordWriter_init 100000000 200000 slow_disk) = Some (True, w0)
     \<and> cw_run (CWriter_start w0) [CClaim (4, 10, 0, [7]), CTau, CTau, CAccept (4, 10, 0, [7])] c
     \<and> cthread_alone n c = Some c' \<and> rw_thread (cw_w c') = Some (AfterDrain True)
     \<and> file_of (cw_w c') = session_prefix [] slow_disk @ record_bytes (4, 10, 0, [7])"
proof -
  let ?e = "(4, 10, 0, [7]) :: entry"
  have d: "0 \<le> os_open_fd slow_disk" "good_disk slow_disk" by (simp_all add: slow_disk_def good_disk_def)
  obtain w0 where w0: "RecordWriter_Open [] [] (RecordWriter_init 100000000 200000 slow_disk) = Some (True, w0)"
    and o: "opened (session_prefix [] slow_disk) w0" using Open_opened [OF d] by blast
  obtain c where c: "cw_run (CWriter_start w0) [CClaim ?e, CTau, CTau, CAccept ?e] c"
    "\<forall>p. cw_prod c p = PIdle" "\<not> rw_shutdown (cw_w c)"
    using one_push_session [OF o fits_small(1)] by blast
  have "cw_inv (session_prefix [] slow_disk) [] c" using cw_run_inv [OF c(1) o] by simp
  then have before: "file_of (cw_w c) = session_prefix [] slow_disk" by (auto simp: cw_inv_def)
  have "length (record_bytes ?e) = 19" by (simp add: length_record_bytes entry_payload_def wire_sizes)
  then have "record_bytes ?e \<noteq> []" by auto
  moreover have claimed: "records_bytes (c_claimed [CClaim ?e, CTau, CTau, CAccept ?e]) = record_bytes ?e" by simp
  from thread_catches_up [OF d w0 c, unfolded claimed] obtain n c' any where "cthread_alone n c = Some c'" "rw_thread (cw_w c') = Some (AfterDrain any)"
    "file_of (cw_w c') = session_prefix [] slow_disk @ record_bytes ?e" "file_of (cw_w c) \<noteq> file_of (cw_w c') \<longrightarrow> any" by blast
  ultimately show ?thesis using w0 c(1) unfolding before by auto
qed

text \<open>C13: The last batch may stay unflushed for ever. At the end of a drain that has taken everything, with no push
  in progress: if nothing was drained, or the clock says that the flush interval is not over, then whatever time
  passes, until another record is claimed or \<open>Close\<close> requests the shutdown the thread never flushes: the file stays
  as it is, and if records were pending, stable storage holds less than the file.\<close>

theorem last_batch_unflushed:
  assumes "0 \<le> os_open_fd os" and "good_disk os"
    and "RecordWriter_Open base topics (RecordWriter_init fi ip os) = Some (True, w0)" and "cw_run (CWriter_start w0) ls c"
    and "\<forall>p. cw_prod c p = PIdle" and "\<not> rw_shutdown (cw_w c)" and "c_popped ls = c_claimed ls"
    and "rw_thread (cw_w c) = Some (AfterDrain drained_any)"
    and "drained_any \<longrightarrow> os_steady (rw_os (cw_w c)) (os_reads (rw_os (cw_w c))) - rw_last_flush (cw_w c) < rw_flush_interval (cw_w c)"
    and "cw_run c ls' c'" and "c_claimed ls' = []" and "\<not> rw_shutdown (cw_w c')"
  shows "file_of (cw_w c') = session_prefix topics os @ records_bytes (c_claimed ls)
    \<and> os_synced (rw_os (cw_w c')) = os_synced (rw_os (cw_w c))
    \<and> (rw_pending (cw_w c) \<noteq> 0 \<longrightarrow> os_synced (rw_os (cw_w c')) < length (file_of (cw_w c')))"
proof -
  let ?p = "session_prefix topics os"
  have o: "opened ?p w0" using Open_opened [OF assms(1,2), of base topics fi ip] assms(3) by auto
  have un: "unattended c" using assms(5,6) by (simp add: unattended_def)
  have poll: "polling c" "in_hand c = []" using caught_up_polling [OF o assms(4) un assms(8)] assms(9) by (simp_all add: too_early_def)
  have same: "same_disk (cw_w c) (cw_w c')" using polling_run [OF assms(10) o assms(4,7) poll(1) assms(11,12)] by blast
  have "cw_inv ?p (c_claimed ls) c" using cw_run_inv [OF assms(4) o refl] unfolding assms(7) .
  then have "file_of (cw_w c) = ?p @ records_bytes (c_claimed ls)" using poll(2) by (simp add: cw_inv_def)
  with same have written: "file_of (cw_w c') = ?p @ records_bytes (c_claimed ls)"
    "os_synced (rw_os (cw_w c')) = os_synced (rw_os (cw_w c))" by (simp_all add: same_disk_def)
  obtain g where g: "log_rel ?p c g" using cw_run_log [OF o assms(4)] by blast
  note d = log_relD [OF g]
  have "lg_synced g < lg_written g" if "rw_pending (cw_w c) \<noteq> 0"
    using that d(4,5) by (cases "lg_synced g = lg_written g") (auto simp: log_ok_def)
  with durable_less [OF d(4)] d(6) log_rel_file [OF g] same
  have "rw_pending (cw_w c) \<noteq> 0 \<longrightarrow> os_synced (rw_os (cw_w c')) < length (file_of (cw_w c'))"
    by (simp add: same_disk_def)
  with written show ?thesis by blast
qed

theorem last_batch_unflushed_witness:
  "\<exists>w0 ls c l c'. RecordWriter_Open [] [] (RecordWriter_init 100000000 200000 frozen_disk) = Some (True, w0)
     \<and> cw_run (CWriter_start w0) ls c \<and> c_claimed ls = [(4, 10, 0, [7])] \<and> cthread_step c = Some (l, c')
     \<and> file_of (cw_w c') = session_prefix [] frozen_disk @ record_bytes (4, 10, 0, [7]) \<and> os_synced (rw_os (cw_w c')) = 0"
proof -
  let ?e = "(4, 10, 0, [7]) :: entry"
  obtain w0 where w0: "RecordWriter_Open [] [] (RecordWriter_init 100000000 200000 frozen_disk) = Some (True, w0)"
    and o: "opened (session_prefix [] frozen_disk) w0" using Open_opened [OF frozen_disk_good] by blast
  obtain c0 where c0: "cw_run (CWriter_start w0) [CClaim ?e, CTau, CTau, CAccept ?e] c0" "\<forall>p. cw_prod c0 p = PIdle" "\<not> rw_shutdown (cw_w c0)"
    using one_push_session [OF o fits_small(1)] by blast
  have un: "unattended c0" using c0(2,3) by (simp add: unattended_def)
  obtain c ls' d where c: "cw_run c0 ls' c" "c_claimed ls' = []" "rw_thread (cw_w c) = Some (AfterDrain d)" "unattended c"
    "c_popped ([CClaim ?e, CTau, CTau, CAccept ?e] @ ls') = c_claimed ([CClaim ?e, CTau, CTau, CAccept ?e] @ ls')"
    using thread_catches_up_run [OF o c0(1) un] unfolding caught_up_def by blast
  let ?ls = "[CClaim ?e, CTau, CTau, CAccept ?e] @ ls'"
  have run: "cw_run (CWriter_start w0) ?ls c" and cl: "c_claimed ?ls = [?e]" using cw_run_trans [OF c(1) c0(1)] c(2) by simp_all
  have fz: "frozen (cw_w c)" using frozen_run [OF run] frozen_Open [OF w0] by (simp add: CWriter_start_def)
  obtain l c' where step: "cthread_step c = Some (l, c')" using cthread_step_total [OF o run] by blast
  have more: "cw_run c ([] @ [l]) c'" using thread_keeps_room [OF o run step] fifo_roomy [OF ring_exponent_less cw_run_fifo(2) [OF o run]]
    by (intro cw_more [OF cw_begin])
  have quiet: "\<forall>p. cw_prod c p = PIdle" "\<not> rw_shutdown (cw_w c)" "\<not> rw_shutdown (cw_w c')" "c_claimed ([] @ [l]) = []"
    using c(4) cthread_step_shutdown [OF step] by (simp_all add: unattended_def)
  from last_batch_unflushed [OF frozen_disk_good w0 run quiet(1,2) c(5,3) _ more quiet(4,3)] fz
  have "file_of (cw_w c') = session_prefix [] frozen_disk @ records_bytes (c_claimed ?ls)" "os_synced (rw_os (cw_w c')) = os_synced (rw_os (cw_w c))"
    by (simp_all add: frozen_def)
  moreover have "os_synced (rw_os (cw_w c)) = 0" using fz by (simp add: frozen_def)
  ultimately show ?thesis using w0 run cl step by (intro exI [of _ w0] exI [of _ ?ls] exI [of _ c] exI [of _ l] exI [of _ c']) (simp only: records_one simp_thms)
qed

end
