(* ===== verification/Config_Summary.thy ===== *)
theory Config_Summary
  imports Logger_Config Session_Files "HOL-Library.Multiset"
begin

text \<open>
  What \<open>LoggerConfig::PrintSummary\<close> prints at start-up. The iteration order of the hash table
  \<open>by_name_\<close> is unspecified, so it is a parameter: any list that enumerates the table. Shown: the
  lines do not depend on it, and a line tells what \<open>IsEnabled\<close> answers only together with the
  identifier it prints.
\<close>

section \<open>Operations\<close>

text \<open>\<open>%-16s\<close> of \<open>c_str()\<close>.\<close>

definition fmt_left16 :: "bytes \<Rightarrow> bytes" where
  "fmt_left16 s = (let t = takeWhile (\<lambda>c. c \<noteq> 0) s in t @ replicate (16 - length t) 32)"

definition summary_line :: "bytes \<times> TopicConfig \<Rightarrow> bytes" where
  "summary_line = (\<lambda>(name, cfg). lit ''  '' @ fmt_left16 name @ lit '' struct_id='' @ dec_digits (unat (tc_struct_id cfg))
     @ lit '' enabled='' @ (if tc_enabled cfg then lit ''true'' else lit ''false'') @ [10])"

definition PrintSummary :: "(bytes \<times> TopicConfig) list \<Rightarrow> bytes list" where
  "PrintSummary order = (lit ''[logger_config] loaded '' @ dec_digits (length order) @ lit '' topics:'' @ [10]) # map summary_line order"

text \<open>The orders in which the table may be walked.\<close>

definition enumerates :: "(bytes \<times> TopicConfig) list \<Rightarrow> LoggerConfig \<Rightarrow> bool" where
  "enumerates order lc \<longleftrightarrow> distinct (map fst order) \<and> map_of order = lc_by_name lc"

section \<open>Lemmas\<close>

lemma enumerates_set: "enumerates order lc \<Longrightarrow> (name, cfg) \<in> set order \<longleftrightarrow> lc_by_name lc name = Some cfg"
  by (metis enumerates_def map_of_eq_Some_iff)

text \<open>Same first line, same lines after it, whatever the order.\<close>

lemma PrintSummary_order:
  assumes "enumerates order lc" and "enumerates order' lc"
  shows "hd (PrintSummary order) = hd (PrintSummary order')" and "mset (PrintSummary order) = mset (PrintSummary order')"
proof -
  have "set order = set order'" using enumerates_set [OF assms(1)] enumerates_set [OF assms(2)] by auto
  moreover have "distinct order" "distinct order'" using assms by (auto simp: enumerates_def distinct_map)
  ultimately have m: "mset order = mset order'" by (simp add: set_eq_iff_mset_eq_distinct)
  then have "length order = length order'" by (metis size_mset)
  with m show "hd (PrintSummary order) = hd (PrintSummary order')" "mset (PrintSummary order) = mset (PrintSummary order')"
    by (simp_all add: PrintSummary_def)
qed

text \<open>Every entry of the table has its line.\<close>

lemma PrintSummary_lists:
  assumes "enumerates order lc" and "lc_by_name lc name = Some cfg"
  shows "summary_line (name, cfg) \<in> set (tl (PrintSummary order))"
  using enumerates_set [OF assms(1)] assms(2) by (auto simp: PrintSummary_def)

text \<open>A line with \<open>enabled=false\<close> means that the topic is off; one with \<open>enabled=true\<close> means that it is on only if
  the printed identifier is that of the build; a topic without a line is on.\<close>

lemma summary_decides:
  assumes "enumerates order lc"
  shows "IsEnabled T lc \<longleftrightarrow> (\<forall>cfg. (tt_topicName T, cfg) \<in> set order \<longrightarrow> tc_enabled cfg \<and> tc_struct_id cfg = tt_id16 T)"
  using enumerates_set [OF assms] by (auto simp: IsEnabled_def Let_def split: option.splits)

end
