(* ===== verification/Spec2Isabelle.thy ===== *)
theory Spec2Isabelle
  imports Torn_Record Reader_Reuse Writer_Durability Writer_Reuse Config_Summary
begin

text \<open>
  \<^bold>\<open>ChronoCap: recording and replaying middleware messages.\<close>

  The program records messages of a publish/subscribe runtime to a file and publishes them again
  with their original timing. Its parts, from the bottom up, with the theories that model them
  (paths are relative to the repository's \<open>src/\<close> root directory):

  \<^item> \<open>include/chrono_cap/wire_format.hpp\<close>: the on-disk format. Theory \<open>Wire_Format\<close>: one definition
    per helper and per \<open>Serialize\<close>/\<open>Deserialize\<close> member, on byte buffers with checked accesses. The
    \<open>_layout\<close> functions are the format as a byte table; the locales \<open>wire_codec\<close>, \<open>range_codec\<close>
    and \<open>total_codec\<close> state what a pair of members promises and are interpreted on all four
    structures (\<open>fh\<close>, \<open>tm\<close>, \<open>rh\<close>, \<open>ie\<close>).
  \<^item> \<open>include/chrono_cap/mpsc_ring_buffer.hpp\<close>: the bounded ring between producers and the writer
    thread. Theory \<open>Mpsc_Ring_Buffer\<close>: \<open>TryPush\<close>, \<open>TryPop\<close>, \<open>DroppedCount\<close> on 64-bit wrapping
    indices, each call one atomic action. Shown: the refinement to a bounded FIFO queue (locale
    \<open>bounded_fifo\<close>, interpretation \<open>ring\<close> at 4096 slots) while no push is refused, conservation of
    records and the meaning of the drop counter always, and how one refused push breaks the queue.
    Theory \<open>Mpsc_Concurrent\<close> splits the calls into their accesses (\<open>prod_step\<close>, \<open>cons_step\<close>) and
    interleaves any number of producers with the consumer (\<open>conc_step\<close>, runs \<open>conc_run\<close>): no race and no
    loss while no call is overtaken by a lap of claims, a race as soon as one is, and a call that
    runs alone is the atomic operation. Theory \<open>Mpsc_Fifo\<close>: records leave in the order of the claims, and
    between calls the ring is the atomic queue, while the index distance stays within the capacity.
    Theory \<open>Concurrent_Writer\<close> puts that ring inside the writer: producers and \<open>WriterThreadMain\<close> take
    single accesses (\<open>cthread_step\<close>, \<open>cw_step\<close>, runs \<open>cw_run\<close>). The projection \<open>ring_of\<close> makes every run a run
    of the interleaved ring up to silent steps (\<open>cw_run_sim\<close>); from it follow an invariant of the file,
    that the thread returns after the shutdown request (measure \<open>cw_work\<close>) with every claimed
    record written, and what a push that is still in progress then does. Theory \<open>Writer_Steps\<close>: without
    interference the accesses of the thread add up to the thread function of \<open>Record_Writer\<close>.
    Theory \<open>Session_Log\<close> states what the writer promises as a log of claimed, written and durable records
    (\<open>log_step\<close>) and proves the forward simulation \<open>log_rel\<close>; theory \<open>Writer_Durability\<close> draws the consequences:
    the thread catches up by itself (measure \<open>lap_work\<close>), and when \<open>MaybeFlush\<close> does not flush. Theory \<open>Simulation\<close>
    holds the locale \<open>stuttering_simulation\<close>, from steps to runs, that both simulations interpret (\<open>ring_sim\<close>, \<open>log_sim\<close>).
  \<^item> \<open>include/chrono_cap/record_writer.hpp\<close>, \<open>src/core/record_writer.cpp\<close>: theory \<open>Record_Writer\<close>.
    The state is the record \<open>RecordWriter\<close>, whose component \<open>rw_os\<close> is the operating system: the
    bytes of the file and arbitrary scripts of answers of \<open>write\<close> and the clocks. The thread
    function is the step function \<open>thread_step\<close> over the program points of \<open>WriterThreadMain\<close>;
    producers, thread steps and the shutdown request interleave in the relation \<open>writer_step\<close>,
    runs are \<open>writer_trace\<close>. Loops that need not end (\<open>WriteAll\<close>, \<open>WriterThreadMain\<close>) are partial
    functions; that they return is proved from \<open>good_disk\<close> (every later \<open>write\<close> accepts at least one
    byte) with the measure \<open>work\<close>. Theory \<open>Writer_Reuse\<close>: \<open>Open\<close> on failing disks and on a writer in use.
  \<^item> \<open>include/chrono_cap/record_reader.hpp\<close>, \<open>src/core/record_reader.cpp\<close>: theory \<open>Record_Reader\<close>.
    \<open>Open\<close>, \<open>ParseHeaderAndMetadata\<close>, \<open>Run\<close>, \<open>Walk\<close> and the clock helpers; \<open>size_t\<close> sums wrap at
    \<open>2^64\<close>, so files are assumed shorter than \<open>2^63\<close> bytes where the sums must be exact.
    \<open>parse_records\<close> is a reference grammar of the record area; the loops are shown to deliver what it
    yields, to terminate, and to sleep until the deadlines of \<open>schedule\<close>.
  \<^item> \<open>include/chrono_cap/topic_registry.hpp\<close>, \<open>payload_codec.hpp\<close>, \<open>topic_list.hpp\<close>: theory
    \<open>Topic_Registry\<close>. A \<open>TopicTraits\<close> specialisation with its codec overloads is a record, a type
    list a list of such records. The locales \<open>recordable\<close> (one topic) and \<open>topic_pack\<close> (a list) are
    the interface between the schema and the generic nodes, interpreted on the joystick topic and on
    \<open>AllTopics\<close>. The message type belongs to another package: only the fields the codec touches are
    modelled, its value-initialisation is the parameter \<open>v0\<close>.
  \<^item> \<open>include/chrono_cap/logger_config.hpp\<close>: theory \<open>Logger_Config\<close>, with the JSON library as the
    parameter record \<open>JsonApi\<close>, and theory \<open>Config_Summary\<close> for \<open>PrintSummary\<close>, with the iteration order of
    the hash table as a parameter.
  \<^item> \<open>include/chrono_cap/generic_recorder.hpp\<close>, \<open>generic_replayer.hpp\<close>: theories
    \<open>Generic_Recorder\<close> and \<open>Generic_Replayer\<close>, with the runtime's \<open>subscribe\<close>, \<open>advertise\<close> and
    \<open>publish\<close> as parameters over a state of the runtime.
  \<^item> \<open>src/i2wRecorder.cpp\<close>, \<open>src/i2wReplayer.cpp\<close>: theories \<open>Session_Files\<close> (session and log file names, with
    the conversion to local time as a parameter and the Gregorian calendar to say what it returns)
    and \<open>I2w_Nodes\<close> (signal handler and both \<open>main\<close>s), with the events around the recorder's main loop,
    and the samples before \<open>Open\<close> and after \<open>Close\<close>, as lists.
  \<^item> Theory \<open>Record_Roundtrip\<close> connects writer and reader files, \<open>Torn_Record\<close> follows a failed write from
    the writer to what the replayer publishes, \<open>Reader_Reuse\<close> a reader that is opened twice; this theory
    states the properties of the whole system.
    \<open>Chrono_Prelude\<close> holds the byte-buffer vocabulary shared by all.

  \<^bold>\<open>Conventions.\<close> A result \<^const>\<open>None\<close> is an access outside a buffer, a call that does not return, or
  an abort of the program, as the opening text of each theory says; errors that the code reports are values (booleans,
  \<open>open_error\<close>, \<open>load_result\<close>, exit codes). Integers have their C++ width and wrap. Quantities of the
  environment (disk replies, clock readings, interruptions, file contents, event orders) are
  universally quantified. An uninitialised local buffer is all zero; every such buffer is fully
  overwritten before use.

  \<^bold>\<open>What the theorems show.\<close> The end-to-end property \<open>record_then_replay\<close>: with a printed drop count of 0,
  what the replayer publishes is what reached the recorder before \<open>Close\<close>, in order. Under it: the file
  written by any interleaved session, with atomic calls (\<open>recording_session\<close>) and access by access
  (\<open>writer_refines_log\<close>, \<open>thread_catches_up\<close>, \<open>concurrent_session_complete\<close>); replay of any bytes; memory safety of the replayer on arbitrary
  files; what a crash leaves, also in the middle of concurrent pushes (\<open>concurrent_crash_replay\<close>); the ring's contract, atomic and interleaved, and its limits; round trips
  of every codec; configuration, set-up and start-up decisions on every branch. Some theorems record
  behaviour the documentation does not promise: \<open>overflow_breaks_queue\<close> (a
  refused push has already advanced the write index), \<open>overtaken_producer_races\<close> (nothing marks a slot
  as taken between the test and the publication), \<open>write_error_forges_message\<close> (a failed record
  write is ignored), \<open>push_after_Close_lost\<close>, \<open>stalled_push_hides_accepted\<close> (the final drain stops at a record that is claimed
  and not yet published), \<open>WriteAll_contract\<close> (an endless retry of writes of no bytes), \<open>Open_overruns_name\<close> (an
  unterminated topic name), \<open>second_Open\<close> (a reused reader keeps old topics, or works on the old mapping with the size of another file),
  \<open>last_batch_unflushed\<close> (the last records before a pause are written and not synced), \<open>failed_reopen_discards\<close> (a second
  \<open>Open\<close> takes the descriptor from the running thread), \<open>LoadFromFile_outcomes\<close> (an exception that leaves \<open>LoadFromFile\<close>), \<open>recorder_early_exits\<close> (an unset \<open>HOME\<close>),
  \<open>session_names_clock\<close> (a recording of the hour before the clock was set back is overwritten).

  \<^bold>\<open>Not modelled.\<close> Printed messages other than the drop count and \<open>PrintSummary\<close>, the logging singleton, the
  runtime and the message package, commented-out codecs, build files and scripts. \<open>RunFast\<close> is
  declared but defined nowhere. Interleaved accesses are taken in one global order: outcomes of a
  race itself (torn or stale values) are not computed, a race is only shown to be absent or
  reachable. \<open>Record_Writer\<close> and the executables use the atomic calls; \<open>RecordWriter_Close\<close> joins a thread that runs
  without further pushes. Pushes that race with the final drain are covered by \<open>writer_trace\<close> and, access by
  access, by \<open>Concurrent_Writer\<close>, whose runs keep the index distance within the capacity; pushes after it by
  \<open>push_after_Close_lost\<close>. \<open>RecordWriter_Open\<close> is one action, also on a writer whose thread is running. \<open>fsync\<close> does not fail. The
  time zone data behind \<open>localtime\<close> is a parameter, the conversion is taken to succeed; of the log file only the path is kept.
  Signals other than \<open>SIGINT\<close>, for which no handler is installed, are no events of a run: one that ends the process leaves what a
  crash leaves (\<open>concurrent_crash_replay\<close>). Inside \<open>Concurrent_Writer\<close> one \<open>WriteRecord\<close> is one step: the file is the thread's own.
\<close>

section \<open>Properties of the whole system\<close>

lemma joy_record_length: "length (record_bytes (joy_entry a)) = 40"
  by (cases a) (simp add: length_record_bytes entry_payload_def sample_entry_def wire_sizes)

lemma joy_records_length: "length (records_bytes (map joy_entry ss)) = 40 * length ss"
  by (induction ss) (simp_all add: joy_record_length)

lemma joy_prefix_length: "length (session_prefix (joy_table v0) os) = 70"
  by (simp add: length_session_prefix AllTopics_def wire_sizes)

lemma loop_samples_length: "length (loop_samples es b) \<le> length es"
  by (induction es b rule: loop_samples.induct) auto

text \<open>C1: From samples to publications. The recorder runs from start to exit on a disk that keeps accepting
  bytes; its file is then given to the replayer. If the drop count the recorder prints is 0, the
  replayer exits with 0 and has published, on the joystick publisher and in the order of arrival,
  one message per sample that reached the recorder before \<open>Close\<close>, with the sample's stamp and with all coded
  fields equal to the sample's, and nothing else.\<close>

theorem record_then_replay:
  assumes "configerLogger (re_home env) (re_localtime env) (re_log_now env) (re_create_directories env) = LogFile f"
    and "LoadFromFile api (re_config env) LoggerConfig_init = (Returns True, config)"
    and "GenericRecorder_OnSetup subscribe (AllTopics v0) (GenericRecorderSystem_init config) (re_runtime env)
      = (True, system, rt')" and "IsEnabled (JoyTraits v0) config"
    and "re_setup_ok env" and "0 \<le> os_open_fd (re_os env)" and "good_disk (re_os env)"
    and "length (re_early env) \<le> 4096" and "loop_leaves (re_events env) True" and "length (re_events env) < 2 ^ 56"
    and "\<forall>(T, s) \<in> set (re_early env) \<union> set (loop_samples (re_events env) True) \<union> set (re_late env). T \<in> set (AllTopics v0)"
    and "wakes ck" and "advertise (lit ''/joy'') \<lparr>po_plane = Local\<rparr> rt = (Some pub, rt1)"
    and "samples = re_early env @ loop_samples (re_events env) True"
  shows "\<exists>w n. recorder_main api subscribe (AllTopics v0) env = Some (Exit 0 [n] (Some w)) \<and>
    (n = 0 \<longrightarrow>
      replayer_main advertise publish (AllTopics v0) True (\<lambda>_. readable (file_of w)) [path] ck sys rt
        = Some (0, sys\<lparr>gp_pubs := (gp_pubs sys)(0 := pub)\<rparr>,
            fold (\<lambda>(T, s). publish pub (joy_copy v0 (sm_value s)) (sm_stamp_ns s)) samples rt1))"
proof -
  have table: "EnabledTopics system = joy_table v0" by (rule joy_enabled_table [OF assms(3,4)])
  have "length (re_events env) < 2 ^ 64" using assms(10) by simp
  from recorder_main_run [OF assms(1-3,5-9) this assms(11)] obtain w n where
    w: "recorder_main api subscribe (AllTopics v0) env = Some (Exit 0 [n] (Some w))"
      "n = 0 \<longrightarrow>
        file_of w = session_prefix (joy_table v0) (re_os env) @ records_bytes (map joy_entry samples)"
    unfolding table assms(14) by blast
  have T: "\<forall>(T, s) \<in> set samples. T \<in> set (AllTopics v0)" using assms(11,14) by auto
  have "length samples < 4097 + 2 ^ 56" using loop_samples_length [of "re_events env" True] assms(8,10,14) by simp
  then have len: "length (session_prefix (joy_table v0) (re_os env) @ records_bytes (map joy_entry samples)) < 2 ^ 63"
    by (simp add: joy_prefix_length joy_records_length del: map_map)
  have parse: "fst (parse_records (joy_index v0) (length (session_prefix (joy_table v0) (re_os env)))
      (records_bytes (map joy_entry samples))) = map joy_entry samples"
    using parse_records_roundtrip [OF joy_conforms [OF T], of "[]"] by (simp add: wire_sizes)
  have "replayer_main advertise publish (AllTopics v0) True (\<lambda>_. readable (file_of w)) [path] ck sys rt
      = Some (0, sys\<lparr>gp_pubs := (gp_pubs sys)(0 := pub)\<rparr>,
          fold (\<lambda>(T, s). publish pub (joy_copy v0 (sm_value s)) (sm_stamp_ns s)) samples rt1)"
    if "n = 0"
  proof -
    have fw: "file_of w = session_prefix (joy_table v0) (re_os env) @ records_bytes (map joy_entry samples)"
      using w(2) that by blast
    with len have "length (file_of w) < 2 ^ 63" by (simp only:)
    then show ?thesis
      by (rule replayer_on_file [OF fw _ assms(12) _ _ parse T]) (rule assms(13), rule refl)
  qed
  with w(1) show ?thesis by blast
qed

theorem record_then_replay_witness:
  "\<exists>w n. recorder_main (json_api shipped_entries) (\<lambda>_ _ _ rt. (Some (), rt)) (AllTopics JoyMsgs_init) demo_env
      = Some (Exit 0 [n] (Some w)) \<and>
    (n = 0 \<longrightarrow>
      replayer_main (\<lambda>_ _ log. (Some True, log)) (\<lambda>pub v st log. log @ [(pub, v, st)]) (AllTopics JoyMsgs_init) True
          (\<lambda>_. readable (file_of w)) [lit ''a.bin''] jumpy_clock \<lparr>gp_pubs = (\<lambda>_. False)\<rparr> []
        = Some (0, \<lparr>gp_pubs = (\<lambda>_. False)(0 := True)\<rparr>, [(True, sm_value demo_sample, 1000)]))"
proof -
  let ?config = "snd (LoadFromFile (json_api shipped_entries) (Some [0]) LoggerConfig_init)"
  let ?sub = "\<lambda>_ _ _ rt. (Some (), rt)"
  have load: "LoadFromFile (json_api shipped_entries) (Some [0]) LoggerConfig_init = (Returns True, ?config)"
    "holds shipped_cfgs ?config"
    using load_entries_prefix [OF shipped_reads holds_init, of shipped_entries "[]"]
      LoadFromFile_document [OF json_document, of shipped_entries LoggerConfig_init] by auto
  have en: "IsEnabled (JoyTraits JoyMsgs_init) ?config"
    using IsEnabled_holds [OF load(2), of "JoyTraits JoyMsgs_init"] by (simp add: shipped_cfgs_def last_entry_def)
  then obtain sy where su: "GenericRecorder_OnSetup ?sub (AllTopics JoyMsgs_init)
      (GenericRecorderSystem_init ?config) () = (True, sy, ())"
    by (simp add: GenericRecorder_OnSetup_def AllTopics_def SetupOne_def GenericRecorderSystem_init_def)
  obtain f where log: "configerLogger (re_home demo_env) (re_localtime demo_env) (re_log_now demo_env) (re_create_directories demo_env) = LogFile f"
    using demo_log by blast
  have "\<exists>w n. recorder_main (json_api shipped_entries) ?sub (AllTopics JoyMsgs_init) demo_env = Some (Exit 0 [n] (Some w)) \<and>
    (n = 0 \<longrightarrow>
      replayer_main (\<lambda>_ _ log. (Some True, log)) (\<lambda>pub v st log. log @ [(pub, v, st)]) (AllTopics JoyMsgs_init) True
          (\<lambda>_. readable (file_of w)) [lit ''a.bin''] jumpy_clock \<lparr>gp_pubs = (\<lambda>_. False)\<rparr> []
        = Some (0, \<lparr>gp_pubs = (\<lambda>_. False)\<rparr>\<lparr>gp_pubs := (gp_pubs \<lparr>gp_pubs = (\<lambda>_. False)\<rparr>)(0 := True)\<rparr>,
            fold (\<lambda>(T, s) log. log @ [(True, joy_copy JoyMsgs_init (sm_value s), sm_stamp_ns s)])
              [(JoyTraits JoyMsgs_init, demo_sample)] []))"
    by (rule record_then_replay [of _ f _ ?config _ _ sy "()"])
      (use log load(1) su en in \<open>simp_all add: demo_env_simps slow_disk_good AllTopics_def jumpy_clock_wakes\<close>)
  moreover have "sm_stamp_ns demo_sample = 1000" by (simp add: demo_sample_def)
  ultimately show ?thesis by simp
qed

text \<open>C5: What a crash leaves is replayed up to the last complete record. If the file of a recording is cut off
  at any byte \<open>n\<close> behind the topic table, the replayer exits with 0 and publishes exactly the
  samples whose 40 bytes are complete, the first \<open>(n - 70) div 40\<close> ones.\<close>

theorem crash_keeps_complete_records:
  assumes "\<forall>(T, s) \<in> set ss. T \<in> set (AllTopics v0)"
    and "c = session_prefix (map topic_info (AllTopics v0)) os
           @ records_bytes (map (\<lambda>(T, s). sample_entry T s (joy_layout (sm_value s))) ss)"
    and "70 \<le> n" and "length c < 2 ^ 63" and "fs path = readable (take n c)" and "wakes ck"
    and "advertise (lit ''/joy'') \<lparr>po_plane = Local\<rparr> rt = (Some pub, rt1)"
  shows "replayer_main advertise publish (AllTopics v0) True fs [path] ck sys rt
    = Some (0, sys\<lparr>gp_pubs := (gp_pubs sys)(0 := pub)\<rparr>,
        fold (\<lambda>(T, s). publish pub (joy_copy v0 (sm_value s)) (sm_stamp_ns s)) (take ((n - 70) div 40) ss) rt1)"
proof -
  let ?p = "session_prefix (joy_table v0) os" and ?es = "map joy_entry ss" and ?m = "n - 70"
  obtain k where c: "k \<le> length ?es" "fst (parse_records (joy_index v0) (length ?p) (take ?m (records_bytes ?es))) = take k ?es"
    "length (records_bytes (take k ?es)) \<le> ?m" "k < length ?es \<longrightarrow> ?m < length (records_bytes (take (Suc k) ?es))"
    using parse_records_cut [OF joy_conforms [OF assms(1)], of "length ?p" ?m] by blast
  have cut: "length (records_bytes (take i ?es)) = 40 * min (length ss) i" for i
    unfolding take_map joy_records_length by simp
  have k: "k \<le> length ss" "fst (parse_records (joy_index v0) (length ?p) (take ?m (records_bytes ?es))) = take k ?es"
    "40 * k \<le> ?m" "k < length ss \<longrightarrow> ?m < 40 * Suc k"
  proof -
    show "k \<le> length ss" using c(1) by simp
    then show "40 * k \<le> ?m" using c(3) unfolding cut by (simp add: min_absorb2)
    show "k < length ss \<longrightarrow> ?m < 40 * Suc k"
    proof
      assume "k < length ss"
      then have "min (length ss) (Suc k) = Suc k" by simp
      with c(4) \<open>k < length ss\<close> show "?m < 40 * Suc k" unfolding cut by (simp only: length_map)
    qed
  qed (rule c(2))
  have "take k ss = take (?m div 40) ss"
  proof (cases "k < length ss")
    case True
    with k(3,4) have "?m div 40 = k" by (intro div_nat_eqI) simp_all
    then show ?thesis by simp
  next
    case False
    with k(1,3) have "length ss \<le> ?m div 40" "k = length ss" by simp_all
    then show ?thesis by simp
  qed
  then have "fst (parse_records (joy_index v0) (length ?p) (take ?m (records_bytes ?es))) = map joy_entry (take (?m div 40) ss)"
    using k(2) by (simp add: take_map)
  moreover have "take n c = ?p @ take ?m (records_bytes ?es)"
    using assms(3) by (simp add: assms(2) joy_prefix_length)
  moreover have "\<forall>(T, s) \<in> set (take (?m div 40) ss). T \<in> set (AllTopics v0)" using assms(1) by (auto dest: in_set_takeD)
  moreover have "length (take n c) < 2 ^ 63" using assms(4) by (rule le_less_trans [rotated]) simp
  ultimately show ?thesis using assms(5-7) by (intro replayer_on_file) simp_all
qed

theorem crash_keeps_complete_records_witness:
  "replayer_main (\<lambda>_ _ log. (Some True, log)) (\<lambda>pub v st log. log @ [(pub, v, st)]) (AllTopics JoyMsgs_init) True
      (\<lambda>_. readable (take 140 (session_prefix (map topic_info (AllTopics JoyMsgs_init)) slow_disk
           @ records_bytes (map (\<lambda>(T, s). sample_entry T s (joy_layout (sm_value s)))
               [(JoyTraits JoyMsgs_init, demo_sample), (JoyTraits JoyMsgs_init, demo_sample)]))))
      [lit ''a.bin''] jumpy_clock \<lparr>gp_pubs = (\<lambda>_. False)\<rparr> []
    = Some (0, \<lparr>gp_pubs = (\<lambda>_. False)(0 := True)\<rparr>, [(True, sm_value demo_sample, 1000)])"
proof -
  let ?ss = "[(JoyTraits JoyMsgs_init, demo_sample), (JoyTraits JoyMsgs_init, demo_sample)]"
  let ?c = "session_prefix (joy_table JoyMsgs_init) slow_disk @ records_bytes (map joy_entry ?ss)"
  have "\<forall>(T, s) \<in> set ?ss. T \<in> set (AllTopics JoyMsgs_init)" by (simp add: AllTopics_def)
  moreover have "length ?c < 2 ^ 63" using joy_records_length [of ?ss] by (simp only: length_append joy_prefix_length) simp
  ultimately have "replayer_main (\<lambda>_ _ log. (Some True, log)) (\<lambda>pub v st log. log @ [(pub, v, st)]) (AllTopics JoyMsgs_init) True
      (\<lambda>_. readable (take 140 ?c)) [lit ''a.bin''] jumpy_clock \<lparr>gp_pubs = (\<lambda>_. False)\<rparr> []
    = Some (0, \<lparr>gp_pubs = (\<lambda>_. False)\<rparr>\<lparr>gp_pubs := (gp_pubs \<lparr>gp_pubs = (\<lambda>_. False)\<rparr>)(0 := True)\<rparr>,
        fold (\<lambda>(T, s) log. log @ [(True, joy_copy JoyMsgs_init (sm_value s), sm_stamp_ns s)]) (take ((140 - 70) div 40) ?ss) [])"
    by (intro crash_keeps_complete_records [OF _ refl]) (simp_all add: jumpy_clock_wakes)
  moreover have "sm_stamp_ns demo_sample = 1000" by (simp add: demo_sample_def)
  ultimately show ?thesis by simp
qed

text \<open>C29: A recording that was cut off inside the header or the topic table is refused with the right
  diagnosis, for any table; the topic hook is never asked, so no publisher is advertised.\<close>

theorem truncated_table_refused:
  assumes "n < length (session_prefix topics os)" and "length topics < 2 ^ 32" and "n < 2 ^ 63"
  shows "\<exists>r'. RecordReader_Open (readable (take n (session_prefix topics os @ body))) on_topic r s
    = Some (Some (if n = 0 then MmapFailed else if n < 32 then FileTooSmall else TruncatedMetadata), r', s)"
proof -
  let ?c = "take n (session_prefix topics os)"
  have c: "take n (session_prefix topics os @ body) = ?c" "length ?c = n" using assms(1) by simp_all
  have ne: "session_prefix topics os \<noteq> []" using assms(1) by auto
  consider "n = 0" | "0 < n" "n < 32" | "32 \<le> n" by linarith
  then show ?thesis
  proof cases
    case 1
    then show ?thesis by (simp add: RecordReader_Open_def)
  next
    case 2
    then show ?thesis unfolding c(1) using c(2) ne
      by (simp add: RecordReader_Open_def ParseHeaderAndMetadata_def wire_sizes)
  next
    case 3
    with session_prefix_cut [OF assms(1) refl _ assms(2,3), of r] obtain r' where
      "ParseHeaderAndMetadata (r\<lparr>rr_file_size := length ?c, rr_base := Some ?c\<rparr>) = Some (Some TruncatedMetadata, r')"
      by (auto simp: wire_sizes)
    with 3 ne show ?thesis unfolding c(1) by (simp add: RecordReader_Open_def Let_def)
  qed
qed

theorem truncated_table_refused_witness:
  "\<exists>r'. RecordReader_Open (readable (take 50 (session_prefix (map topic_info (AllTopics JoyMsgs_init)) slow_disk @ [])))
     None RecordReader_init () = Some (Some TruncatedMetadata, r', ())"
  using truncated_table_refused [of 50 "joy_table JoyMsgs_init" slow_disk "[]" None RecordReader_init "()"]
  by (simp add: joy_prefix_length AllTopics_def [symmetric] del: append_Nil2) (simp add: AllTopics_def)

text \<open>C9: A crash in the middle of a concurrent recording. Producers and the writer thread are interleaved access by
  access; the process is stopped at any moment of any run in which the ring has room, and of the bytes
  written so far any number behind the table reach the disk. The reader opens what is there and
  replays, in the order of the producers' claims, the records of the first claims: exactly those whose
  bytes are complete. If the disk kept what \<open>fsync\<close> had covered, at most the records counted by
  \<open>pending_since_flush_\<close> are missing of those written.\<close>

theorem concurrent_crash_replay:
  assumes "0 \<le> os_open_fd os" and "good_disk os"
    and "RecordWriter_Open base topics (RecordWriter_init fi ip os) = Some (True, w0)" and "cw_run (CWriter_start w0) ls c"
    and "disk = take m (file_of (cw_w c))" and "length (session_prefix topics os) \<le> m" and "length topics < 2 ^ 32" and "length disk < 2 ^ 63"
    and "list_all (conforms (rr_by_id (opened_reader topics disk))) (c_claimed ls)"
    and "cb_sound disk (rr_by_id (opened_reader topics disk)) cb app" and "wakes ck"
  shows "\<exists>r n j k why ck'. RecordReader_Open (readable disk) None RecordReader_init s = Some (None, r, s)
    \<and> RecordReader_Run cb r ck s = Some (why, word_of_nat k, ck', fold app (take k (c_claimed ls)) s)
    \<and> file_of (cw_w c) = session_prefix topics os @ records_bytes (take n (c_claimed ls)) \<and> length (c_popped ls) \<le> Suc n
    \<and> n \<le> length (c_claimed ls) \<and> k \<le> n \<and> length (session_prefix topics os @ records_bytes (take k (c_claimed ls))) \<le> m
    \<and> (k < n \<longrightarrow> m < length (session_prefix topics os @ records_bytes (take (Suc k) (c_claimed ls))))
    \<and> j \<le> n \<and> rw_pending (cw_w c) = word_of_nat (n - j) \<and> (os_synced (rw_os (cw_w c)) \<le> m \<longrightarrow> j \<le> k)"
proof -
  let ?p = "session_prefix topics os" and ?cl = "c_claimed ls" and ?by = "rr_by_id (opened_reader topics disk)"
  have o: "opened ?p w0" using Open_opened [OF assms(1,2), of base topics fi ip] assms(3) by auto
  obtain g where g: "lg_claimed g = ?cl" "log_rel ?p c g" "length (c_popped ls) = lg_written g + length (in_hand c)"
    using cw_run_log [OF o assms(4)] by blast
  define n where "n = lg_written g"
  note d = log_relD [OF g(2), unfolded g(1), folded n_def]
  have n: "file_of (cw_w c) = ?p @ records_bytes (take n ?cl)" using log_rel_file [OF g(2)] by (simp add: g(1) n_def)
  have hand: "length (c_popped ls) \<le> Suc n" using g(3) by (simp add: n_def in_hand_def)
  have n': "n \<le> length ?cl" using d(7) by simp
  let ?es = "take n ?cl"
  have disk: "disk = ?p @ take (m - length ?p) (records_bytes ?es)" using assms(5,6) n by simp
  have "list_all (conforms ?by) ?es" using assms(9) by (auto simp: list_all_iff dest: in_set_takeD)
  from parse_records_cut [OF this, of "length ?p" "m - length ?p"] obtain k where
    k: "k \<le> length ?es" "fst (parse_records ?by (length ?p) (take (m - length ?p) (records_bytes ?es))) = take k ?es"
      "length (records_bytes (take k ?es)) \<le> m - length ?p"
      "k < length ?es \<longrightarrow> m - length ?p < length (records_bytes (take (Suc k) ?es))" by blast
  obtain why where p: "parse_records ?by (length ?p) (take (m - length ?p) (records_bytes ?es)) = (take k ?es, why)"
    using k(2) by (metis fst_conv surj_pair)
  have "RecordReader_Open (readable disk) None RecordReader_init s = Some (None, opened_reader topics disk, s)"
    using Open_session_file [OF disk assms(7,8), of None s] by simp
  moreover obtain ck' where "RecordReader_Run cb (opened_reader topics disk) ck s
      = Some (why, word_of_nat (length (take k ?es)), ck', fold app (take k ?es) s)"
    using Run_session_file [OF disk assms(8,11,10) p] by blast
  moreover have kn: "length ?es = n" "k \<le> n" "take k ?es = take k ?cl" "length (take k ?es) = k"
    using k(1) n' by (simp_all add: min_absorb1 min_absorb2)
  moreover have "k < n \<Longrightarrow> take (Suc k) ?es = take (Suc k) ?cl" by (simp add: min_def)
  moreover have "lg_synced g \<le> k" if "os_synced (rw_os (cw_w c)) \<le> m"
    using durable_kept [OF log_relD(4) [OF g(2)], of ?p m k] that d(6) k(4) kn(1,2) assms(6) by (simp add: g(1) n_def)
  moreover have "lg_synced g \<le> n" "rw_pending (cw_w c) = word_of_nat (n - lg_synced g)"
    using d(4,5) by (simp_all add: log_ok_def n_def)
  ultimately show ?thesis
    using n hand n' k(3,4) assms(6)
    by (intro exI [of _ "opened_reader topics disk"] exI [of _ n] exI [of _ "lg_synced g"] exI [of _ k] exI [of _ why] exI [of _ ck'])
      auto
qed

theorem concurrent_crash_replay_witness:
  "\<exists>w0 ls c r why ck'. RecordWriter_Open [] [plain_topic 4] (RecordWriter_init 100000000 200000 slow_disk) = Some (True, w0)
     \<and> cw_run (CWriter_start w0) ls c \<and> c_claimed ls = [(4, 10, 0, [7])]
     \<and> RecordReader_Open (readable (file_of (cw_w c))) None RecordReader_init ([] :: u8 list) = Some (None, r, [])
     \<and> RecordReader_Run (\<lambda>t st sq (b, p) len s. Some (s @ [b ! p])) r jumpy_clock ([] :: u8 list) = Some (why, 1, ck', [7])"
proof -
  let ?e = "(4, 10, 0, [7]) :: entry" and ?p = "session_prefix [plain_topic 4] slow_disk"
  let ?cb = "\<lambda>t st sq (b, p) len (s :: u8 list). Some (s @ [b ! p])" and ?app = "\<lambda>(t, st, sq, pl) s. s @ [hd pl]"
  have d: "0 \<le> os_open_fd slow_disk" "good_disk slow_disk" by (simp_all add: slow_disk_def good_disk_def)
  obtain w0 where w0: "RecordWriter_Open [] [plain_topic 4] (RecordWriter_init 100000000 200000 slow_disk) = Some (True, w0)"
    and o: "opened ?p w0" using Open_opened [OF d] by blast
  obtain c0 where c0: "cw_run (CWriter_start w0) [CClaim ?e, CTau, CTau, CAccept ?e] c0" "\<forall>p. cw_prod c0 p = PIdle" "\<not> rw_shutdown (cw_w c0)"
    using one_push_session [OF o fits_small(1)] by blast
  obtain ls' c where c: "cw_run c0 ls' c" "c_claimed ls' = []" and fc: "file_of (cw_w c) = ?p @ record_bytes ?e"
    using finished_run [OF o c0] by auto
  let ?ls = "[CClaim ?e, CTau, CTau, CAccept ?e] @ ls'"
  have run: "cw_run (CWriter_start w0) ?ls c" and cl: "c_claimed ?ls = [?e]" using cw_run_trans [OF c(1) c0(1)] c(2) by simp_all
  have len: "length ?p = 70" "length (record_bytes ?e) = 19"
    by (simp_all add: length_session_prefix length_record_bytes entry_payload_def wire_sizes)
  have disk: "file_of (cw_w c) = take 89 (file_of (cw_w c))" "length ?p \<le> 89" "length [plain_topic 4] < 2 ^ 32" "length (file_of (cw_w c)) < 2 ^ 63"
    using fc len by simp_all
  have by_id: "list_all (conforms (rr_by_id (opened_reader [plain_topic 4] (file_of (cw_w c))))) (c_claimed ?ls)"
    "cb_sound (file_of (cw_w c)) (rr_by_id (opened_reader [plain_topic 4] (file_of (cw_w c)))) ?cb ?app"
    unfolding plain_by_id cl using one_topic_conforms first_byte_sound by simp_all
  from concurrent_crash_replay [OF d w0 run disk by_id jumpy_clock_wakes, of "[]"] obtain r n j k why ck' where
    r: "RecordReader_Open (readable (file_of (cw_w c))) None RecordReader_init ([] :: u8 list) = Some (None, r, [])"
    "RecordReader_Run ?cb r jumpy_clock [] = Some (why, word_of_nat k, ck', fold ?app (take k [?e]) [])"
    "file_of (cw_w c) = ?p @ records_bytes (take n [?e])" "n \<le> 1" "k \<le> n"
    "k < n \<longrightarrow> 89 < length (?p @ records_bytes (take (Suc k) [?e]))"
    unfolding cl by auto
  have "n \<noteq> 0" using r(3) fc len(2) by (cases n) auto
  then have "k = 1" using r(4-6) len by (cases k) auto
  with r(1,2) w0 run cl show ?thesis by fastforce
qed

text \<open>C4: The replayer is memory-safe and terminates on arbitrary files: whatever bytes it is given, as long
  as the name arrays of the table are terminated, it reads only inside the mapping (although
  \<open>OnRecord\<close> ignores the payload length) and exits with 0 or 1.\<close>

theorem replayer_safe_on_any_file:
  assumes "\<forall>n. names_terminated n kFileHeaderWireSize (fv_content (fs path))"
    and "length (fv_content (fs path)) < 2 ^ 63" and "wakes ck"
  shows "\<exists>code s'. replayer_main advertise publish (AllTopics v0) True fs [path] ck sys w = Some (code, s')
    \<and> (code = 0 \<or> code = 1)"
  by (rule all_topics.replayer_total) (rule assms)+

theorem replayer_safe_on_any_file_witness:
  "\<exists>code s'. replayer_main (\<lambda>_ _ log. (Some True, log)) (\<lambda>pub v st log. log @ [(pub, v, st)]) (AllTopics JoyMsgs_init) True
      (\<lambda>_. readable [1, 2, 3]) [lit ''a.bin''] jumpy_clock \<lparr>gp_pubs = (\<lambda>_. False)\<rparr> [] = Some (code, s') \<and> (code = 0 \<or> code = 1)"
  by (rule replayer_safe_on_any_file) (auto simp: names_terminated_def wire_sizes jumpy_clock_wakes)

end
